theory Spec2Isabelle
  imports Complex_Main
begin

section \<open>Scores, errors and tensors\<close>

text \<open>
  Log-probabilities and cumulative scores are floating-point numbers in the source.
  They are modelled as the reals extended by a least element \<open>NegInf\<close>; rounding,
  NaN and positive infinity are outside the model.

  Modelled from the spec: \<open>neginf\<close> of \<open>parlai.utils.torch\<close> is imported by
  \<open>torch_generator_agent.py\<close> but is not among the sources. The spec reads every
  \<open>neginf(dtype)\<close> as minus infinity, the value that \<open>search.py\<close> writes as
  \<open>-math.inf\<close>; both are \<open>NegInf\<close> here.
\<close>

datatype score = NegInf | Fin real

instantiation score :: linorder
begin

fun less_eq_score :: "score \<Rightarrow> score \<Rightarrow> bool" where
  "less_eq_score NegInf y = True"
| "less_eq_score (Fin a) NegInf = False"
| "less_eq_score (Fin a) (Fin b) = (a \<le> b)"

definition less_score :: "score \<Rightarrow> score \<Rightarrow> bool" where
  "less_score x y = (x \<le> y \<and> \<not> y \<le> x)"

instance
proof
  fix x y z :: score
  show "(x < y) = (x \<le> y \<and> \<not> y \<le> x)"
    by (simp add: less_score_def)
  show "x \<le> x"
    by (cases x) simp_all
  show "x \<le> y \<Longrightarrow> y \<le> z \<Longrightarrow> x \<le> z"
    by (cases x; cases y; cases z) simp_all
  show "x \<le> y \<Longrightarrow> y \<le> x \<Longrightarrow> x = y"
    by (cases x; cases y) simp_all
  show "x \<le> y \<or> y \<le> x"
    by (cases x; cases y) auto
qed

end

instantiation score :: plus
begin

fun plus_score :: "score \<Rightarrow> score \<Rightarrow> score" where
  "plus_score (Fin a) (Fin b) = Fin (a + b)"
| "plus_score NegInf y = NegInf"
| "plus_score (Fin a) NegInf = NegInf"

instance ..

end

text \<open>Division of a score by a positive real (a length penalty).\<close>

fun score_div :: "score \<Rightarrow> real \<Rightarrow> score" where
  "score_div NegInf p = NegInf"
| "score_div (Fin a) p = Fin (a / p)"

text \<open>The exceptions of the source that the model distinguishes.\<close>

datatype error = IndexError | KeyError | NameError | TypeError | ValueError | AssertionError | RuntimeError
  | AttributeError

text \<open>
  A two-dimensional tensor is the list of its rows. The functions below are total on
  ragged lists; the theorems assume the rows to have one common length.
\<close>

type_synonym tensor2 = "score list list"

definition ncols :: "'a list list \<Rightarrow> nat" where
  "ncols t = (case t of [] \<Rightarrow> 0 | row # _ \<Rightarrow> length row)"

text \<open>
  \<open>sorted(xs, key=f, reverse=True)\<close>: Python's sort is stable, and with
  \<open>reverse=True\<close> equal elements keep their original order.
\<close>

definition sort_desc :: "('a \<Rightarrow> 'k::linorder) \<Rightarrow> 'a list \<Rightarrow> 'a list" where
  "sort_desc f xs = rev (sort_key f (rev xs))"

text \<open>
  \<open>torch.topk(xs, k)\<close> on a one-dimensional tensor: the \<open>k\<close> largest values in
  descending order with their indices; it raises when \<open>k\<close> exceeds the number of
  elements. The library leaves the order among equal values open; the model takes the
  element of lower index first.
\<close>

definition topk :: "score list \<Rightarrow> nat \<Rightarrow> error + (score list \<times> nat list)" where
  "topk xs k =
     (if k > length xs then Inl RuntimeError
      else let idxs = take k (sort_desc (\<lambda>i. xs ! i) [0..<length xs])
           in Inr (map (\<lambda>i. xs ! i) idxs, idxs))"

section \<open>Selection policies (torch\_generator\_agent.py)\<close>

text \<open>
  \<open>logprobs + prior_scores.unsqueeze(1).expand_as(logprobs)\<close>: a prior of one element
  is broadcast to every row, otherwise there must be one prior per row.
\<close>

definition add_prior :: "tensor2 \<Rightarrow> score list \<Rightarrow> error + tensor2" where
  "add_prior logprobs prior_scores =
     (if length prior_scores = 1
        then Inr (map (map (\<lambda>x. x + prior_scores ! 0)) logprobs)
      else if length prior_scores = length logprobs
        then Inr (map (\<lambda>(row, p). map (\<lambda>x. x + p) row) (zip logprobs prior_scores))
      else Inl RuntimeError)"

text \<open>\<open>BeamSearch.select_paths\<close>; the result is \<open>(hyp_ids, tok_ids, best_scores)\<close>.\<close>

type_synonym paths = "nat list \<times> nat list \<times> score list"

type_synonym select_fn = "tensor2 \<Rightarrow> score list \<Rightarrow> int \<Rightarrow> error + paths"

definition beam_select_paths :: "nat \<Rightarrow> select_fn" where
  "beam_select_paths beam_size logprobs prior_scores current_length =
     (let logprobs1 = (if length prior_scores = 1 then take 1 logprobs else logprobs)
      in case add_prior logprobs1 prior_scores of
           Inl e \<Rightarrow> Inl e
         | Inr beam_scores \<Rightarrow>
             (case topk (concat beam_scores) beam_size of
                Inl e \<Rightarrow> Inl e
              | Inr (best_scores, best_idxs) \<Rightarrow>
                  let voc_size = ncols logprobs1
                  in Inr (map (\<lambda>i. i div voc_size) best_idxs,
                          map (\<lambda>i. i mod voc_size) best_idxs,
                          best_scores)))"

text \<open>
  The flattened score space of the spec, by brute force:
  \<open>score[row][token] = logprob[row][token] + prior[row]\<close> at flat index
  \<open>row * V + token\<close>; \<open>beam_rows\<close> is the number of rows that take part.
\<close>

definition flat_score :: "tensor2 \<Rightarrow> score list \<Rightarrow> nat \<Rightarrow> nat \<Rightarrow> score" where
  "flat_score logprobs prior_scores V i =
     logprobs ! (i div V) ! (i mod V) + prior_scores ! (i div V)"

definition beam_rows :: "tensor2 \<Rightarrow> score list \<Rightarrow> nat" where
  "beam_rows logprobs prior_scores =
     (if length prior_scores = 1 then min 1 (length logprobs) else length logprobs)"

definition toy_logprobs :: tensor2 where
  "toy_logprobs = [[Fin (-1), Fin (-2), Fin (-3)], [Fin (-1/2), Fin (-4), Fin (-5)]]"

definition toy_prior :: "score list" where
  "toy_prior = [Fin (-1), Fin (-3)]"

text \<open>
  \<open>GreedySearch.select_paths\<close>: \<open>logprobs.max(1)\<close> gives, for every row, the
  largest value and the first index that holds it; it raises on a row without entries.
  \<open>argmax_from best best_idx i row\<close> scans the rest of a row from index \<open>i\<close>.
\<close>

fun argmax_from :: "score \<Rightarrow> nat \<Rightarrow> nat \<Rightarrow> score list \<Rightarrow> score \<times> nat" where
  "argmax_from best best_idx i [] = (best, best_idx)"
| "argmax_from best best_idx i (x # xs) =
     (if best < x then argmax_from x i (Suc i) xs else argmax_from best best_idx (Suc i) xs)"

definition row_max :: "score list \<Rightarrow> error + (score \<times> nat)" where
  "row_max row = (case row of [] \<Rightarrow> Inl RuntimeError | x # xs \<Rightarrow> Inr (argmax_from x 0 1 xs))"

fun rows_max :: "tensor2 \<Rightarrow> error + (score list \<times> nat list)" where
  "rows_max [] = Inr ([], [])"
| "rows_max (row # rows) =
     (case row_max row of
        Inl e \<Rightarrow> Inl e
      | Inr (v, i) \<Rightarrow>
          (case rows_max rows of
             Inl e \<Rightarrow> Inl e
           | Inr (vs, is) \<Rightarrow> Inr (v # vs, i # is)))"

text \<open>The sum of two one-dimensional tensors with the broadcasting of torch.\<close>

definition broadcast_add :: "score list \<Rightarrow> score list \<Rightarrow> error + score list" where
  "broadcast_add xs ys =
     (if length xs = length ys then Inr (map (\<lambda>(x, y). x + y) (zip xs ys))
      else if length ys = 1 then Inr (map (\<lambda>x. x + ys ! 0) xs)
      else if length xs = 1 then Inr (map (\<lambda>y. xs ! 0 + y) ys)
      else Inl RuntimeError)"

definition greedy_select_paths :: select_fn where
  "greedy_select_paths logprobs prior_scores current_length =
     (case rows_max logprobs of
        Inl e \<Rightarrow> Inl e
      | Inr (tok_scores, tok_ids) \<Rightarrow>
          (case broadcast_add tok_scores prior_scores of
             Inl e \<Rightarrow> Inl e
           | Inr best_scores \<Rightarrow> Inr ([0..<length logprobs], tok_ids, best_scores)))"

section \<open>TreeSearch (torch\_generator\_agent.py)\<close>

record hypothesis_tail =
  timestep :: nat
  hypid :: nat
  score :: score
  tokenid :: nat

text \<open>
  The fields of \<open>TreeSearch\<close>. \<open>block_list\<close> holds what \<open>SearchBlocklist.items()\<close>
  yields: pairs of an n-gram length and the forbidden n-grams of that length.
  \<open>context\<close> is a keyword of Isabelle, so the field is \<open>context_toks\<close>.
\<close>

record tree_search =
  beam_size :: nat
  length_penalty :: real
  block_ngram :: int
  min_length :: int
  eos :: nat
  bos :: nat
  pad :: nat
  context_toks :: "nat list option"
  context_block_ngram :: int
  block_list :: "(nat \<times> nat list list) list option"
  scores :: "score list option"
  all_scores :: "score list list"
  bookkeep :: "nat list list"
  outputs :: "nat list list"
  finished :: "hypothesis_tail list"
  eos_top :: bool
  eos_top_ts :: "nat option"
  n_best_counter :: nat
  partial_hyps :: "nat list list"

text \<open>
  \<open>TreeSearch.__init__(beam_size, block_ngram, context_block_ngram, padding_token,
  bos_token, eos_token, min_length, length_penalty)\<close>.
\<close>

definition tree_search_init ::
  "nat \<Rightarrow> int \<Rightarrow> int \<Rightarrow> nat \<Rightarrow> nat \<Rightarrow> nat \<Rightarrow> int \<Rightarrow> real \<Rightarrow> tree_search" where
  "tree_search_init bsize blk cblk padding_token bos_token eos_token minlen lenpen =
     \<lparr> beam_size = bsize, length_penalty = lenpen, block_ngram = blk, min_length = minlen,
       eos = eos_token, bos = bos_token, pad = padding_token, context_toks = None,
       context_block_ngram = cblk, block_list = None, scores = None,
       all_scores = [replicate bsize (Fin 0)], bookkeep = [],
       outputs = [replicate bsize bos_token], finished = [], eos_top = False,
       eos_top_ts = None, n_best_counter = 0,
       partial_hyps = replicate bsize [bos_token] \<rparr>"

definition set_context :: "tree_search \<Rightarrow> nat list \<Rightarrow> tree_search" where
  "set_context s c = s\<lparr>context_toks := Some c\<rparr>"

definition set_block_list ::
  "tree_search \<Rightarrow> (nat \<times> nat list list) list option \<Rightarrow> tree_search" where
  "set_block_list s bl = s\<lparr>block_list := bl\<rparr>"

text \<open>\<open>current_length = len(self.all_scores) - 1\<close>.\<close>

definition current_length_of :: "tree_search \<Rightarrow> int" where
  "current_length_of s = int (length (all_scores s)) - 1"

text \<open>\<open>t[r][c] = neginf(t.dtype)\<close>, an IndexError outside the tensor.\<close>

definition set_neginf :: "tensor2 \<Rightarrow> nat \<Rightarrow> nat \<Rightarrow> error + tensor2" where
  "set_neginf t r c =
     (if r < length t \<and> c < length (t ! r) then Inr (t[r := (t ! r)[c := NegInf]])
      else Inl IndexError)"

text \<open>The writes \<open>t[r][c] = neginf\<close> for the tokens \<open>c\<close> of a list, in order.\<close>

fun mask_tokens :: "tensor2 \<Rightarrow> nat \<Rightarrow> nat list \<Rightarrow> error + tensor2" where
  "mask_tokens t r [] = Inr t"
| "mask_tokens t r (c # cs) =
     (case set_neginf t r c of Inl e \<Rightarrow> Inl e | Inr t' \<Rightarrow> mask_tokens t' r cs)"

text \<open>
  The minimum-length guard of \<open>advance\<close>:
  \<open>for hyp_id in range(logprobs.size(0)): logprobs[hyp_id][self.eos] = neginf\<close>.
\<close>

fun penalize_eos_rows :: "tensor2 \<Rightarrow> nat \<Rightarrow> nat list \<Rightarrow> error + tensor2" where
  "penalize_eos_rows t e [] = Inr t"
| "penalize_eos_rows t e (r # rs) =
     (case set_neginf t r e of Inl x \<Rightarrow> Inl x | Inr t' \<Rightarrow> penalize_eos_rows t' e rs)"

definition min_length_guard :: "tree_search \<Rightarrow> tensor2 \<Rightarrow> error + tensor2" where
  "min_length_guard s logprobs =
     (if current_length_of s < min_length s
        then penalize_eos_rows logprobs (eos s) [0..<length logprobs]
      else Inr logprobs)"

text \<open>
  \<open>_find_ngrams(input_list, n)\<close> is \<open>list(zip(*[input_list[i:] for i in range(n)]))\<close>:
  the windows of length \<open>n\<close>, none when \<open>n\<close> is 0 or exceeds the length.
\<close>

definition find_ngrams :: "nat list \<Rightarrow> nat \<Rightarrow> nat list list" where
  "find_ngrams input_list n =
     (if n = 0 then []
      else map (\<lambda>j. take n (drop j input_list)) [0..<Suc (length input_list) - n])"

text \<open>
  The slice \<open>hyp[-k:]\<close> of Python: the last \<open>k\<close> elements for positive \<open>k\<close> (all of
  them when there are fewer), the whole list for \<open>k = 0\<close>, and \<open>hyp[j:]\<close> for
  \<open>k = -j\<close>.
\<close>

definition slice_from_neg :: "int \<Rightarrow> 'a list \<Rightarrow> 'a list" where
  "slice_from_neg k hyp =
     (if k > 0 then drop (length hyp - nat k) hyp
      else if k = 0 then hyp
      else drop (nat (- k)) hyp)"

text \<open>
  The tokens that one beam's row loses in \<open>_block_ngrams\<close> and \<open>_block_block_list\<close>:
  \<open>ngram[-1]\<close> for every n-gram with \<open>ngram_size == 1 or prefix == list(ngram[:-1])\<close>.
  An empty n-gram that passes the test raises on \<open>ngram[-1]\<close>.
\<close>

fun banned_tokens :: "nat \<Rightarrow> nat list \<Rightarrow> nat list list \<Rightarrow> error + nat list" where
  "banned_tokens ngram_size prefix [] = Inr []"
| "banned_tokens ngram_size prefix (ngram # ngrams) =
     (if ngram_size = 1 \<or> prefix = butlast ngram
        then (if ngram = [] then Inl IndexError
              else (case banned_tokens ngram_size prefix ngrams of
                      Inl e \<Rightarrow> Inl e
                    | Inr ts \<Rightarrow> Inr (last ngram # ts)))
      else banned_tokens ngram_size prefix ngrams)"

text \<open>
  \<open>_block_ngrams(ngram_size, logprobs, source)\<close>, called with \<open>ngram_size > 0\<close>; the
  second argument of the loop function is \<open>beam_id\<close>, the third the rest of
  \<open>enumerate(self.partial_hyps)\<close>.
\<close>

fun block_ngrams_loop ::
  "nat \<Rightarrow> nat list option \<Rightarrow> tensor2 \<Rightarrow> nat \<Rightarrow> nat list list \<Rightarrow> error + tensor2" where
  "block_ngrams_loop ngram_size source t beam_id [] = Inr t"
| "block_ngrams_loop ngram_size source t beam_id (hyp # hyps) =
     (if int (length hyp) < int ngram_size - 1
        then block_ngrams_loop ngram_size source t (Suc beam_id) hyps
      else
        let source' = (case source of None \<Rightarrow> hyp | Some src \<Rightarrow> src);
            ngrams = find_ngrams source' ngram_size;
            prefix = slice_from_neg (int ngram_size - 1) hyp
        in case banned_tokens ngram_size prefix ngrams of
             Inl e \<Rightarrow> Inl e
           | Inr ts \<Rightarrow>
               (case mask_tokens t beam_id ts of
                  Inl e \<Rightarrow> Inl e
                | Inr t' \<Rightarrow> block_ngrams_loop ngram_size source t' (Suc beam_id) hyps))"

definition block_ngrams ::
  "tree_search \<Rightarrow> nat \<Rightarrow> tensor2 \<Rightarrow> nat list option \<Rightarrow> error + tensor2" where
  "block_ngrams s ngram_size logprobs source =
     block_ngrams_loop ngram_size source logprobs 0 (partial_hyps s)"

text \<open>\<open>_block_block_list\<close>: for every beam, every entry of the block list in turn.\<close>

fun block_list_items ::
  "tensor2 \<Rightarrow> nat \<Rightarrow> nat list \<Rightarrow> (nat \<times> nat list list) list \<Rightarrow> error + tensor2" where
  "block_list_items t beam_id hyp [] = Inr t"
| "block_list_items t beam_id hyp ((ngram_size, bad_ngrams) # items) =
     (let prefix = slice_from_neg (int ngram_size - 1) hyp
      in case banned_tokens ngram_size prefix bad_ngrams of
           Inl e \<Rightarrow> Inl e
         | Inr ts \<Rightarrow>
             (case mask_tokens t beam_id ts of
                Inl e \<Rightarrow> Inl e
              | Inr t' \<Rightarrow> block_list_items t' beam_id hyp items))"

fun block_list_loop ::
  "(nat \<times> nat list list) list \<Rightarrow> tensor2 \<Rightarrow> nat \<Rightarrow> nat list list \<Rightarrow> error + tensor2" where
  "block_list_loop items t beam_id [] = Inr t"
| "block_list_loop items t beam_id (hyp # hyps) =
     (case block_list_items t beam_id hyp items of
        Inl e \<Rightarrow> Inl e
      | Inr t' \<Rightarrow> block_list_loop items t' (Suc beam_id) hyps)"

definition block_block_list :: "tree_search \<Rightarrow> tensor2 \<Rightarrow> error + tensor2" where
  "block_block_list s logprobs =
     (case block_list s of
        None \<Rightarrow> Inr logprobs
      | Some items \<Rightarrow> block_list_loop items logprobs 0 (partial_hyps s))"

text \<open>
  The three blocking steps of \<open>advance\<close> in the order of the source: self n-gram
  blocking, block list, context n-gram blocking (a ValueError without a context).
\<close>

definition block_all :: "tree_search \<Rightarrow> tensor2 \<Rightarrow> error + tensor2" where
  "block_all s logprobs =
     (case (if block_ngram s > 0 then block_ngrams s (nat (block_ngram s)) logprobs None
            else Inr logprobs) of
        Inl e \<Rightarrow> Inl e
      | Inr t1 \<Rightarrow>
          (case block_block_list s t1 of
             Inl e \<Rightarrow> Inl e
           | Inr t2 \<Rightarrow>
               (if context_block_ngram s > 0
                  then (case context_toks s of
                          None \<Rightarrow> Inl ValueError
                        | Some c \<Rightarrow> block_ngrams s (nat (context_block_ngram s)) t2 (Some c))
                else Inr t2)))"

text \<open>
  \<open>for hyp_id, token in enumerate(self.outputs[-1]): if token == self.eos:
  self.scores[hyp_id] = neginf\<close>; the second argument is \<open>hyp_id\<close>.
\<close>

fun penalize_scores :: "nat \<Rightarrow> nat \<Rightarrow> nat list \<Rightarrow> score list \<Rightarrow> error + score list" where
  "penalize_scores e hyp_id [] sc = Inr sc"
| "penalize_scores e hyp_id (token # tokens) sc =
     (if token = e
        then (if hyp_id < length sc
                then penalize_scores e (Suc hyp_id) tokens (sc[hyp_id := NegInf])
              else Inl IndexError)
      else penalize_scores e (Suc hyp_id) tokens sc)"

text \<open>
  \<open>[self.partial_hyps[hyp_ids[i]] + [tok_ids[i].item()] for i in range(self.beam_size)]\<close>.
\<close>

fun extend_hyps ::
  "nat list list \<Rightarrow> nat list \<Rightarrow> nat list \<Rightarrow> nat list \<Rightarrow> error + nat list list" where
  "extend_hyps hyps hyp_ids tok_ids [] = Inr []"
| "extend_hyps hyps hyp_ids tok_ids (i # is) =
     (if i < length hyp_ids \<and> hyp_ids ! i < length hyps \<and> i < length tok_ids
        then (case extend_hyps hyps hyp_ids tok_ids is of
                Inl e \<Rightarrow> Inl e
              | Inr rest \<Rightarrow> Inr ((hyps ! (hyp_ids ! i) @ [tok_ids ! i]) # rest))
      else Inl IndexError)"

text \<open>
  The loop of \<open>advance\<close> that records the new hypotheses ending in the end token;
  the result is the new \<open>finished\<close> list, \<open>n_best_counter\<close> grows by the number of
  tails appended. \<open>ts\<close> is \<open>len(self.outputs) - 1\<close>.
\<close>

fun collect_finished ::
  "nat \<Rightarrow> nat \<Rightarrow> nat list \<Rightarrow> score list \<Rightarrow> nat list \<Rightarrow> hypothesis_tail list
     \<Rightarrow> error + hypothesis_tail list" where
  "collect_finished e ts toks sc [] fin = Inr fin"
| "collect_finished e ts toks sc (h # hs) fin =
     (if h < length toks
        then (if toks ! h = e
                then (if h < length sc
                        then (if sc ! h \<le> NegInf then collect_finished e ts toks sc hs fin
                              else collect_finished e ts toks sc hs
                                     (fin @ [\<lparr>timestep = ts, hypid = h, score = sc ! h,
                                              tokenid = e\<rparr>]))
                      else Inl IndexError)
              else collect_finished e ts toks sc hs fin)
      else Inl IndexError)"

text \<open>
  \<open>TreeSearch.advance(logprobs)\<close> with the policy's \<open>select_paths\<close> as a parameter.
  The source writes into the tensor it is given: the second component of the result
  is that tensor after the call, which is also the tensor handed to \<open>select_paths\<close>.
  An exception leaves the object half updated; the model only reports the exception.
\<close>

definition advance :: "select_fn \<Rightarrow> tree_search \<Rightarrow> tensor2 \<Rightarrow> error + (tree_search \<times> tensor2)" where
  "advance select_paths s logprobs =
     (case min_length_guard s logprobs of
        Inl e \<Rightarrow> Inl e
      | Inr t0 \<Rightarrow>
     (case outputs s of
        [] \<Rightarrow> Inl IndexError
      | _ # _ \<Rightarrow>
     (case penalize_scores (eos s) 0 (last (outputs s))
             (case scores s of None \<Rightarrow> [Fin 0] | Some sc \<Rightarrow> sc) of
        Inl e \<Rightarrow> Inl e
      | Inr prior \<Rightarrow>
     (case block_all s t0 of
        Inl e \<Rightarrow> Inl e
      | Inr t \<Rightarrow>
     (case select_paths t prior (current_length_of s) of
        Inl e \<Rightarrow> Inl e
      | Inr (hyp_ids, tok_ids, sc) \<Rightarrow>
     (case extend_hyps (partial_hyps s) hyp_ids tok_ids [0..<beam_size s] of
        Inl e \<Rightarrow> Inl e
      | Inr hyps \<Rightarrow>
     (case collect_finished (eos s) (length (outputs s)) tok_ids sc [0..<beam_size s]
             (finished s) of
        Inl e \<Rightarrow> Inl e
      | Inr fin \<Rightarrow>
     (if tok_ids = [] then Inl IndexError
      else
        let top = (tok_ids ! 0 = eos s)
        in Inr (s\<lparr> scores := Some sc,
                   all_scores := all_scores s @ [sc],
                   outputs := outputs s @ [tok_ids],
                   bookkeep := bookkeep s @ [hyp_ids],
                   partial_hyps := hyps,
                   finished := fin,
                   n_best_counter := n_best_counter s + (length fin - length (finished s)),
                   eos_top := (eos_top s \<or> top),
                   eos_top_ts := (if top \<and> eos_top_ts s = None
                                  then Some (length (outputs s)) else eos_top_ts s) \<rparr>,
                t)))))))))"

definition is_done :: "tree_search \<Rightarrow> bool" where
  "is_done s = (eos_top s \<and> n_best_counter s \<ge> beam_size s)"

text \<open>A sequence of \<open>advance\<close> calls; the first exception ends it.\<close>

fun advance_all :: "select_fn \<Rightarrow> tree_search \<Rightarrow> tensor2 list \<Rightarrow> error + tree_search" where
  "advance_all select_paths s [] = Inr s"
| "advance_all select_paths s (lp # lps) =
     (case advance select_paths s lp of
        Inl e \<Rightarrow> Inl e
      | Inr (s', _) \<Rightarrow> advance_all select_paths s' lps)"

text \<open>
  \<open>_get_hyp_from_finished\<close>: the loop \<open>for i in range(timestep, -1, -1)\<close> reads
  \<open>all_scores[i][endback]\<close> and \<open>outputs[i][endback]\<close> and then steps to
  \<open>bookkeep[i - 1][endback]\<close>. At \<open>i = 0\<close> the index \<open>-1\<close> reads the last entry of
  \<open>bookkeep\<close> (an IndexError when there is none); the value read is not used.
\<close>

fun hyp_from_finished_loop :: "tree_search \<Rightarrow> nat \<Rightarrow> nat \<Rightarrow> error + hypothesis_tail list" where
  "hyp_from_finished_loop s 0 endback =
     (if 0 < length (all_scores s) \<and> endback < length (all_scores s ! 0)
         \<and> 0 < length (outputs s) \<and> endback < length (outputs s ! 0)
         \<and> bookkeep s \<noteq> [] \<and> endback < length (last (bookkeep s))
        then Inr [\<lparr>timestep = 0, hypid = endback, score = all_scores s ! 0 ! endback,
                   tokenid = outputs s ! 0 ! endback\<rparr>]
      else Inl IndexError)"
| "hyp_from_finished_loop s (Suc i) endback =
     (if Suc i < length (all_scores s) \<and> endback < length (all_scores s ! Suc i)
         \<and> Suc i < length (outputs s) \<and> endback < length (outputs s ! Suc i)
         \<and> i < length (bookkeep s) \<and> endback < length (bookkeep s ! i)
        then (case hyp_from_finished_loop s i (bookkeep s ! i ! endback) of
                Inl e \<Rightarrow> Inl e
              | Inr rest \<Rightarrow>
                  Inr (\<lparr>timestep = Suc i, hypid = endback,
                        score = all_scores s ! Suc i ! endback,
                        tokenid = outputs s ! Suc i ! endback\<rparr> # rest))
      else Inl IndexError)"

definition get_hyp_from_finished ::
  "tree_search \<Rightarrow> hypothesis_tail \<Rightarrow> error + hypothesis_tail list" where
  "get_hyp_from_finished s hypothesis_tail =
     hyp_from_finished_loop s (timestep hypothesis_tail) (hypid hypothesis_tail)"

text \<open>\<open>_get_pretty_hypothesis\<close>: the token ids, first step first.\<close>

definition get_pretty_hypothesis :: "hypothesis_tail list \<Rightarrow> nat list" where
  "get_pretty_hypothesis list_of_hypotails = map tokenid (rev list_of_hypotails)"

text \<open>
  The first block of \<open>get_rescored_finished\<close>: without a finished trace, slot 0 of the
  last output row is overwritten with the end token and recorded as finished.
\<close>

definition force_finished :: "tree_search \<Rightarrow> error + tree_search" where
  "force_finished s =
     (if finished s = []
        then (if outputs s = [] \<or> last (outputs s) = []
                 \<or> all_scores s = [] \<or> last (all_scores s) = []
                then Inl IndexError
              else
                let outs = butlast (outputs s) @ [(last (outputs s))[0 := eos s]]
                in Inr (s\<lparr> outputs := outs,
                           finished := [\<lparr>timestep = length outs - 1, hypid = 0,
                                         score = last (all_scores s) ! 0,
                                         tokenid = last outs ! 0\<rparr>] \<rparr>))
      else Inr s)"

text \<open>
  The length penalty of one finished item:
  \<open>math.pow((1 + current_length) / 6, self.length_penalty)\<close> with
  \<open>current_length = timestep + 1\<close>; the base is positive, so the power is \<open>powr\<close>.
\<close>

definition length_penalty_of :: "tree_search \<Rightarrow> hypothesis_tail \<Rightarrow> real" where
  "length_penalty_of s finished_item =
     ((1 + real (timestep finished_item + 1)) / 6) powr length_penalty s"

definition rescore :: "tree_search \<Rightarrow> hypothesis_tail \<Rightarrow> hypothesis_tail" where
  "rescore s finished_item =
     \<lparr>timestep = timestep finished_item, hypid = hypid finished_item,
      score = score_div (score finished_item) (length_penalty_of s finished_item),
      tokenid = tokenid finished_item\<rparr>"

text \<open>The list comprehension that rebuilds the token sequence of every kept item.\<close>

fun n_best_list_of :: "tree_search \<Rightarrow> hypothesis_tail list \<Rightarrow> error + (nat list \<times> score) list" where
  "n_best_list_of s [] = Inr []"
| "n_best_list_of s (hyp # hyps) =
     (case get_hyp_from_finished s hyp of
        Inl e \<Rightarrow> Inl e
      | Inr tails \<Rightarrow>
          (case n_best_list_of s hyps of
             Inl e \<Rightarrow> Inl e
           | Inr rest \<Rightarrow> Inr ((get_pretty_hypothesis tails, score hyp) # rest)))"

text \<open>
  \<open>get_rescored_finished(n_best)\<close>; \<open>n_best\<close> is a count or \<open>None\<close>. The result holds
  the object after the call (the forced trace stays) and the n-best list. The two
  assertions at the end raise \<open>AssertionError\<close>.
\<close>

definition get_rescored_finished ::
  "tree_search \<Rightarrow> nat option \<Rightarrow> error + (tree_search \<times> (nat list \<times> score) list)" where
  "get_rescored_finished s n_best =
     (case force_finished s of
        Inl e \<Rightarrow> Inl e
      | Inr s' \<Rightarrow>
          let rescored_finished = map (rescore s') (finished s');
              srted = sort_desc score rescored_finished;
              srted' = (case n_best of None \<Rightarrow> srted | Some n \<Rightarrow> take n srted)
          in case n_best_list_of s' srted' of
               Inl e \<Rightarrow> Inl e
             | Inr n_best_list \<Rightarrow>
                 (if \<not> length n_best_list \<ge> 1 then Inl AssertionError
                  else if \<exists>(pred, sc)\<in>set n_best_list. count_list pred (eos s') \<noteq> 1
                    then Inl AssertionError
                  else Inr (s', n_best_list)))"

section \<open>The tree-search factory (torch\_generator\_agent.py)\<close>

text \<open>
  The options and agent attributes that \<open>_treesearch_factory\<close> reads. A field of type
  \<open>option\<close> is a key of \<open>self.opt\<close> that may be absent; \<open>beam_min_length\<close>,
  \<open>beam_block_ngram\<close>, \<open>beam_context_block_ngram\<close> and the three indices are
  attributes of the agent.
\<close>

record generator_opts =
  inference :: "string option"
  opt_beam_size :: "nat option"
  opt_beam_length_penalty :: "real option"
  opt_topk :: "nat option"
  opt_beam_delay :: "int option"
  opt_topp :: "real option"
  beam_min_length :: int
  beam_block_ngram :: int
  beam_context_block_ngram :: int
  NULL_IDX :: nat
  START_IDX :: nat
  END_IDX :: nat

text \<open>The class of the object built, with the extra constructor arguments.\<close>

datatype policy =
    GreedySearch
  | BeamSearch
  | DelayedBeamSearch nat int
  | ConstrainedBeamSearch
  | TopKSampling nat
  | NucleusSampling real

definition treesearch_factory :: "generator_opts \<Rightarrow> error + (policy \<times> tree_search)" where
  "treesearch_factory opt =
     (let method = (case inference opt of None \<Rightarrow> ''greedy'' | Some m \<Rightarrow> m);
          bsize = (case opt_beam_size opt of None \<Rightarrow> 1 | Some b \<Rightarrow> b);
          lenpen = (case opt_beam_length_penalty opt of None \<Rightarrow> 65 / 100 | Some p \<Rightarrow> p);
          build = (\<lambda>minlen. tree_search_init bsize (beam_block_ngram opt)
                     (beam_context_block_ngram opt) (NULL_IDX opt) (START_IDX opt)
                     (END_IDX opt) minlen lenpen)
      in if method = ''greedy''
           then (if bsize \<noteq> 1 then Inl ValueError else Inr (GreedySearch, build 0))
         else if method = ''beam''
           then Inr (BeamSearch, build (beam_min_length opt))
         else if method = ''delayedbeam''
           then (case opt_topk opt of
                   None \<Rightarrow> Inl KeyError
                 | Some k \<Rightarrow>
                     (case opt_beam_delay opt of
                        None \<Rightarrow> Inl KeyError
                      | Some d \<Rightarrow> Inr (DelayedBeamSearch k d, build (beam_min_length opt))))
         else if method = ''constrainedbeam''
           then Inr (ConstrainedBeamSearch, build (beam_min_length opt))
         else if method = ''topk''
           then (case opt_topk opt of
                   None \<Rightarrow> Inl KeyError
                 | Some k \<Rightarrow> Inr (TopKSampling k, build (beam_min_length opt)))
         else if method = ''nucleus''
           then (case opt_topp opt of
                   None \<Rightarrow> Inl KeyError
                 | Some p \<Rightarrow> Inr (NucleusSampling p, build (beam_min_length opt)))
         else Inl ValueError)"

section \<open>Notions used to state the properties of TreeSearch\<close>

text \<open>All rows of a tensor have \<open>V\<close> entries.\<close>

definition rect :: "nat \<Rightarrow> 'a list list \<Rightarrow> bool" where
  "rect V t = (\<forall>row\<in>set t. length row = V)"

text \<open>
  \<open>masked t t'\<close>: the tensor \<open>t'\<close> has the shape of \<open>t\<close> and differs from it only at
  entries that hold minus infinity in \<open>t'\<close>.
\<close>

definition masked :: "tensor2 \<Rightarrow> tensor2 \<Rightarrow> bool" where
  "masked t t' =
     (length t' = length t \<and>
      (\<forall>r<length t. length (t' ! r) = length (t ! r) \<and>
         (\<forall>c<length (t ! r). t' ! r ! c = t ! r ! c \<or> t' ! r ! c = NegInf)))"

text \<open>
  The contract that \<open>BeamSearch.select_paths\<close> and \<open>GreedySearch.select_paths\<close> meet
  on a rectangular tensor, whatever the shape of the prior: every position that the
  three results share names a row and a token of the tensor, and its score is the
  log-probability of that token in that row plus the prior of the row (a prior of one
  element is broadcast). The sampling policies of the source are not modelled.
\<close>

definition additive :: "select_fn \<Rightarrow> bool" where
  "additive select_paths =
     (\<forall>V t prior cl hyp_ids tok_ids sc.
        rect V t \<longrightarrow> select_paths t prior cl = Inr (hyp_ids, tok_ids, sc) \<longrightarrow>
          (\<forall>i. i < length hyp_ids \<longrightarrow> i < length tok_ids \<longrightarrow> i < length sc \<longrightarrow>
             (length prior = 1 \<or> hyp_ids ! i < length prior) \<and>
             hyp_ids ! i < length t \<and> tok_ids ! i < V \<and>
             sc ! i = t ! (hyp_ids ! i) ! (tok_ids ! i)
                      + prior ! (if length prior = 1 then 0 else hyp_ids ! i)))"

text \<open>
  The tokens that \<open>_get_hyp_from_finished\<close> visits from slot \<open>h\<close> of step \<open>t\<close> back
  to step 0, without the bounds checks.
\<close>

fun anc_tokens :: "tree_search \<Rightarrow> nat \<Rightarrow> nat \<Rightarrow> nat list" where
  "anc_tokens s 0 h = [outputs s ! 0 ! h]"
| "anc_tokens s (Suc i) h = outputs s ! Suc i ! h # anc_tokens s i (bookkeep s ! i ! h)"

text \<open>
  The shape of the histories: \<open>all_scores\<close>, \<open>outputs\<close> and \<open>bookkeep\<close> have
  matching lengths, every row covers the beam, and backpointers stay inside the beam.
\<close>

definition hist_ok :: "tree_search \<Rightarrow> bool" where
  "hist_ok s =
     (length (all_scores s) = length (outputs s) \<and>
      Suc (length (bookkeep s)) = length (outputs s) \<and>
      (\<forall>t<length (outputs s).
         beam_size s \<le> length (outputs s ! t) \<and> beam_size s \<le> length (all_scores s ! t)) \<and>
      (\<forall>t<length (bookkeep s).
         beam_size s \<le> length (bookkeep s ! t) \<and>
         (\<forall>h<beam_size s. bookkeep s ! t ! h < beam_size s)))"

text \<open>
  The invariant of the bookkeeping: the histories are well shaped, a slot with a finite
  score has no end token among its ancestors, \<open>scores\<close> is the last row of
  \<open>all_scores\<close> once there is one advance, and every finished trace points at an end
  token with a finite score.
\<close>

definition ts_inv :: "tree_search \<Rightarrow> bool" where
  "ts_inv s =
     (hist_ok s \<and>
      length (partial_hyps s) = beam_size s \<and>
      (\<forall>t<length (outputs s). \<forall>h<beam_size s.
         all_scores s ! t ! h \<noteq> NegInf \<longrightarrow> eos s \<notin> set (tl (anc_tokens s t h))) \<and>
      (case scores s of
         None \<Rightarrow> length (outputs s) = 1
       | Some sc \<Rightarrow> 1 < length (outputs s) \<and> sc = last (all_scores s)) \<and>
      (\<forall>f\<in>set (finished s).
         timestep f < length (outputs s) \<and> hypid f < beam_size s \<and>
         outputs s ! timestep f ! hypid f = eos s \<and>
         all_scores s ! timestep f ! hypid f \<noteq> NegInf))"

text \<open>
  The tokens that a hypothesis loses to a list of n-grams of size \<open>n\<close>: the last token
  of every n-gram whose first \<open>n - 1\<close> tokens are the end of the hypothesis, and of
  every n-gram when \<open>n\<close> is 1.
\<close>

definition banned_by :: "nat \<Rightarrow> nat list \<Rightarrow> nat list list \<Rightarrow> nat list" where
  "banned_by n hyp ngrams =
     map last (filter (\<lambda>g. n = 1 \<or> slice_from_neg (int n - 1) hyp = butlast g) ngrams)"

text \<open>
  N-gram blocking of size \<open>n\<close> takes the token \<open>c\<close> from a hypothesis of at least
  \<open>n - 1\<close> tokens when \<open>c\<close> would complete an n-gram of the source (the hypothesis
  itself without a source); a block list takes it when one of its entries does.
\<close>

definition ngram_blocked :: "nat \<Rightarrow> nat list option \<Rightarrow> nat list \<Rightarrow> nat \<Rightarrow> bool" where
  "ngram_blocked n source hyp c \<longleftrightarrow>
     \<not> int (length hyp) < int n - 1
       \<and> c \<in> set (banned_by n hyp
                     (find_ngrams (case source of None \<Rightarrow> hyp | Some src \<Rightarrow> src) n))"

definition list_blocked :: "(nat \<times> nat list list) list \<Rightarrow> nat list \<Rightarrow> nat \<Rightarrow> bool" where
  "list_blocked items hyp c \<longleftrightarrow> (\<exists>(n, bad)\<in>set items. c \<in> set (banned_by n hyp bad))"

text \<open>
  The entries (row \<open>r\<close>, token \<open>c\<close>) that one call of \<open>advance\<close> masks: the end token
  in every row under the minimum-length guard, and in the row of a hypothesis the
  tokens taken by self n-gram blocking, by the block list and by context n-gram
  blocking.
\<close>

definition advance_mask :: "tree_search \<Rightarrow> nat \<Rightarrow> nat \<Rightarrow> bool" where
  "advance_mask s r c \<longleftrightarrow>
     (current_length_of s < min_length s \<and> c = eos s)
     \<or> (r < length (partial_hyps s) \<and>
         ((0 < block_ngram s
             \<and> ngram_blocked (nat (block_ngram s)) None (partial_hyps s ! r) c)
          \<or> (case block_list s of
                None \<Rightarrow> False
              | Some items \<Rightarrow> list_blocked items (partial_hyps s ! r) c)
          \<or> (0 < context_block_ngram s
               \<and> (case context_toks s of
                     None \<Rightarrow> False
                   | Some src \<Rightarrow> ngram_blocked (nat (context_block_ngram s)) (Some src)
                                   (partial_hyps s ! r) c))))"

text \<open>
  \<open>masked_at P t t'\<close>: the tensor \<open>t'\<close> has the shape of \<open>t\<close>, holds minus infinity at
  the entries that \<open>P\<close> names and the value of \<open>t\<close> at every other entry.
\<close>

definition masked_at :: "(nat \<Rightarrow> nat \<Rightarrow> bool) \<Rightarrow> tensor2 \<Rightarrow> tensor2 \<Rightarrow> bool" where
  "masked_at P t t' =
     (length t' = length t \<and>
      (\<forall>r<length t. length (t' ! r) = length (t ! r) \<and>
         (\<forall>c<length (t ! r). t' ! r ! c = (if P r c then NegInf else t ! r ! c))))"

section \<open>The decoding loop of \_generate (torch\_generator\_agent.py)\<close>

text \<open>
  \<open>b.advance(score[i])\<close>: \<open>score[i]\<close> is a view of the caller's tensor \<open>score\<close> (one
  two-dimensional tensor per sentence), so what \<open>advance\<close> writes into its argument
  lands in \<open>score\<close>. The result holds the beam object and \<open>score\<close> after the call.
\<close>

definition call_advance ::
  "select_fn \<Rightarrow> tree_search \<Rightarrow> tensor2 list \<Rightarrow> nat \<Rightarrow> error + (tree_search \<times> tensor2 list)" where
  "call_advance select_paths b score_t i =
     (if i < length score_t
        then (case advance select_paths b (score_t ! i) of
                Inl e \<Rightarrow> Inl e
              | Inr (b', t) \<Rightarrow> Inr (b', score_t[i := t]))
      else Inl IndexError)"

text \<open>
  \<open>for i, b in enumerate(beams): if not b.is_done(): b.advance(score[i])\<close>; the second
  argument is \<open>i\<close>.
\<close>

fun advance_beams ::
  "select_fn \<Rightarrow> nat \<Rightarrow> tree_search list \<Rightarrow> tensor2 list
     \<Rightarrow> error + (tree_search list \<times> tensor2 list)" where
  "advance_beams select_paths i [] score_t = Inr ([], score_t)"
| "advance_beams select_paths i (b # bs) score_t =
     (if is_done b
        then (case advance_beams select_paths (Suc i) bs score_t of
                Inl e \<Rightarrow> Inl e
              | Inr (bs', score_t') \<Rightarrow> Inr (b # bs', score_t'))
      else (case call_advance select_paths b score_t i of
              Inl e \<Rightarrow> Inl e
            | Inr (b', score_t1) \<Rightarrow>
                (case advance_beams select_paths (Suc i) bs score_t1 of
                   Inl e \<Rightarrow> Inl e
                 | Inr (bs', score_t') \<Rightarrow> Inr (b' # bs', score_t'))))"

section \<open>Example inputs\<close>

definition ex_lp :: tensor2 where
  "ex_lp = [[Fin (-5), Fin (-6), Fin (-1), Fin (-2)], [Fin (-5), Fin (-6), Fin (-1), Fin (-2)]]"

definition ex_lp_masked :: tensor2 where
  "ex_lp_masked = [[Fin (-5), Fin (-6), NegInf, Fin (-2)], [Fin (-5), Fin (-6), NegInf, Fin (-2)]]"

text \<open>A beam of two with pad 0, bos 1, eos 2 and the default minimum length 3.\<close>

definition ex_s0 :: tree_search where
  "ex_s0 = tree_search_init 2 (-1) (-1) 0 1 2 3 (65 / 100)"

definition ex_s1 :: tree_search where
  "ex_s1 = \<lparr>beam_size = 2, length_penalty = 65 / 100, block_ngram = - 1, min_length = 3,
            eos = 2, bos = 1, pad = 0, context_toks = None,
            context_block_ngram = - 1, block_list = None,
            scores = Some [Fin (- 2), Fin (- 5)],
            all_scores = [[Fin 0, Fin 0], [Fin (- 2), Fin (- 5)]],
            bookkeep = [[0, 0]], outputs = [[1, 1], [3, 0]], finished = [],
            eos_top = False, eos_top_ts = None, n_best_counter = 0,
            partial_hyps = [[1, 3], [1, 0]]\<rparr>"

text \<open>A beam as wide as the vocabulary (pad 0, bos 1, eos 2).\<close>

definition ex_wide_s0 :: tree_search where
  "ex_wide_s0 = tree_search_init 3 (-1) (-1) 0 1 2 3 (65 / 100)"

definition ex_wide_lp :: tensor2 where
  "ex_wide_lp = [[Fin (-1), Fin (-2), Fin (-3)], [Fin (-1), Fin (-2), Fin (-3)],
                 [Fin (-1), Fin (-2), Fin (-3)]]"

text \<open>A beam of one without minimum length and without blocking.\<close>

definition ex_free_s0 :: tree_search where
  "ex_free_s0 = tree_search_init 1 (-1) (-1) 0 1 2 0 (65 / 100)"

definition ex_free_lp :: tensor2 where
  "ex_free_lp = [[Fin (-3), Fin (-4), Fin (-2), Fin (-1)]]"

text \<open>Greedy decoding with a configured minimum length of 5.\<close>

definition ex_greedy_opt :: generator_opts where
  "ex_greedy_opt = \<lparr>inference = Some ''greedy'', opt_beam_size = None,
       opt_beam_length_penalty = None, opt_topk = None, opt_beam_delay = None,
       opt_topp = None, beam_min_length = 5, beam_block_ngram = - 1,
       beam_context_block_ngram = - 1, NULL_IDX = 0, START_IDX = 1, END_IDX = 2\<rparr>"

definition ex_greedy_s0 :: tree_search where
  "ex_greedy_s0 = tree_search_init 1 (-1) (-1) 0 1 2 0 (65 / 100)"

definition ex_greedy_s1 :: tree_search where
  "ex_greedy_s1 = \<lparr>beam_size = 1, length_penalty = 65 / 100, block_ngram = - 1, min_length = 0,
            eos = 2, bos = 1, pad = 0, context_toks = None,
            context_block_ngram = - 1, block_list = None,
            scores = Some [Fin (- 1)],
            all_scores = [[Fin 0], [Fin (- 1)]],
            bookkeep = [[0]], outputs = [[1], [3]], finished = [],
            eos_top = False, eos_top_ts = None, n_best_counter = 0,
            partial_hyps = [[1, 3]]\<rparr>"

text \<open>
  A beam of one over four tokens (pad 0, bos 1, eos 2 and the word 3), length penalty
  0.65: three steps that favour the word and one that favours the end token.
\<close>

definition ex_run_s0 :: tree_search where
  "ex_run_s0 = tree_search_init 1 (-1) (-1) 0 1 2 0 (65 / 100)"

definition ex_lp_word :: tensor2 where
  "ex_lp_word = [[Fin (-9), Fin (-9), Fin (-3), Fin (-1/2)]]"

definition ex_lp_end :: tensor2 where
  "ex_lp_end = [[Fin (-9), Fin (-9), Fin (-1/2), Fin (-3)]]"

definition ex_run_s1 :: tree_search where
  "ex_run_s1 = \<lparr>beam_size = 1, length_penalty = 65 / 100, block_ngram = - 1, min_length = 0,
            eos = 2, bos = 1, pad = 0, context_toks = None,
            context_block_ngram = - 1, block_list = None,
            scores = Some [Fin (- 1 / 2)],
            all_scores = [[Fin 0], [Fin (- 1 / 2)]],
            bookkeep = [[0]], outputs = [[1], [3]], finished = [],
            eos_top = False, eos_top_ts = None, n_best_counter = 0,
            partial_hyps = [[1, 3]]\<rparr>"

definition ex_run_s2 :: tree_search where
  "ex_run_s2 = ex_run_s1\<lparr>scores := Some [Fin (- 1)],
            all_scores := [[Fin 0], [Fin (- 1 / 2)], [Fin (- 1)]],
            bookkeep := [[0], [0]], outputs := [[1], [3], [3]],
            partial_hyps := [[1, 3, 3]]\<rparr>"

definition ex_run_s3 :: tree_search where
  "ex_run_s3 = ex_run_s1\<lparr>scores := Some [Fin (- 3 / 2)],
            all_scores := [[Fin 0], [Fin (- 1 / 2)], [Fin (- 1)], [Fin (- 3 / 2)]],
            bookkeep := [[0], [0], [0]], outputs := [[1], [3], [3], [3]],
            partial_hyps := [[1, 3, 3, 3]]\<rparr>"

definition ex_run_s4 :: tree_search where
  "ex_run_s4 = ex_run_s1\<lparr>scores := Some [Fin (- 2)],
            all_scores := [[Fin 0], [Fin (- 1 / 2)], [Fin (- 1)], [Fin (- 3 / 2)], [Fin (- 2)]],
            bookkeep := [[0], [0], [0], [0]], outputs := [[1], [3], [3], [3], [2]],
            partial_hyps := [[1, 3, 3, 3, 2]],
            finished := [\<lparr>timestep = 4, hypid = 0, score = Fin (- 2), tokenid = 2\<rparr>],
            n_best_counter := 1, eos_top := True, eos_top_ts := Some 4\<rparr>"


text \<open>
  Greedy search built with a minimum length of 3 (one row, pad 0, bos 1, eos 2), on a
  row whose most probable token is the end token.
\<close>

definition ex_gmin_s0 :: tree_search where
  "ex_gmin_s0 = tree_search_init 1 (-1) (-1) 0 1 2 3 (65 / 100)"

definition ex_gmin_lp :: tensor2 where
  "ex_gmin_lp = [[Fin (-5), Fin (-6), Fin (-1), Fin (-2)]]"

definition ex_gmin_s1 :: tree_search where
  "ex_gmin_s1 = \<lparr>beam_size = 1, length_penalty = 65 / 100, block_ngram = - 1, min_length = 3,
            eos = 2, bos = 1, pad = 0, context_toks = None,
            context_block_ngram = - 1, block_list = None,
            scores = Some [Fin (- 2)],
            all_scores = [[Fin 0], [Fin (- 2)]],
            bookkeep = [[0]], outputs = [[1], [3]], finished = [],
            eos_top = False, eos_top_ts = None, n_best_counter = 0,
            partial_hyps = [[1, 3]]\<rparr>"

text \<open>
  A beam of one over five tokens (pad 0, bos 1, eos 2, the words 3 and 4) with minimum
  length 3, self and context blocking of unigrams, the context \<open>[0]\<close> and a block list
  that forbids the word 3.
\<close>

definition ex_blk_s0 :: tree_search where
  "ex_blk_s0 =
     set_block_list (set_context (tree_search_init 1 1 1 0 1 2 3 (65 / 100)) [0])
       (Some [(1, [[3]])])"

definition ex_blk_lp :: tensor2 where
  "ex_blk_lp = [[Fin (-5), Fin (-6), Fin (-1), Fin (-2), Fin (-3)]]"

definition ex_blk_masked :: tensor2 where
  "ex_blk_masked = [[NegInf, NegInf, NegInf, NegInf, Fin (-3)]]"

definition ex_blk_s1 :: tree_search where
  "ex_blk_s1 = \<lparr>beam_size = 1, length_penalty = 65 / 100, block_ngram = 1, min_length = 3,
            eos = 2, bos = 1, pad = 0, context_toks = Some [0],
            context_block_ngram = 1, block_list = Some [(1, [[3]])],
            scores = Some [Fin (- 3)],
            all_scores = [[Fin 0], [Fin (- 3)]],
            bookkeep = [[0]], outputs = [[1], [4]], finished = [],
            eos_top = False, eos_top_ts = None, n_best_counter = 0,
            partial_hyps = [[1, 4]]\<rparr>"

text \<open>
  A beam of two over four tokens (pad 0, bos 1, eos 2, the word 3) with length penalty
  1: at both steps the word is the best choice and the end token the second best, so
  that one trace of two tokens and one trace of three tokens finish.
\<close>

definition ex_two_s0 :: tree_search where
  "ex_two_s0 = tree_search_init 2 (-1) (-1) 0 1 2 0 1"

definition ex_two_lp0 :: tensor2 where
  "ex_two_lp0 = [[Fin (-9), Fin (-9), Fin (-1), Fin (-1/2)],
                 [Fin (-9), Fin (-9), Fin (-1), Fin (-1/2)]]"

definition ex_two_lp1 :: tensor2 where
  "ex_two_lp1 = [[Fin (-9), Fin (-9), Fin (-7/10), Fin (-1/5)],
                 [Fin (-9), Fin (-9), Fin (-7/10), Fin (-1/5)]]"

definition ex_two_s1 :: tree_search where
  "ex_two_s1 = \<lparr>beam_size = 2, length_penalty = 1, block_ngram = - 1, min_length = 0,
            eos = 2, bos = 1, pad = 0, context_toks = None,
            context_block_ngram = - 1, block_list = None,
            scores = Some [Fin (- 1 / 2), Fin (- 1)],
            all_scores = [[Fin 0, Fin 0], [Fin (- 1 / 2), Fin (- 1)]],
            bookkeep = [[0, 0]], outputs = [[1, 1], [3, 2]],
            finished = [\<lparr>timestep = 1, hypid = 1, score = Fin (- 1), tokenid = 2\<rparr>],
            eos_top = False, eos_top_ts = None, n_best_counter = 1,
            partial_hyps = [[1, 3], [1, 2]]\<rparr>"

definition ex_two_s2 :: tree_search where
  "ex_two_s2 = ex_two_s1\<lparr>scores := Some [Fin (- 7 / 10), Fin (- 6 / 5)],
            all_scores := [[Fin 0, Fin 0], [Fin (- 1 / 2), Fin (- 1)],
                           [Fin (- 7 / 10), Fin (- 6 / 5)]],
            bookkeep := [[0, 0], [0, 0]], outputs := [[1, 1], [3, 2], [3, 2]],
            finished := [\<lparr>timestep = 1, hypid = 1, score = Fin (- 1), tokenid = 2\<rparr>,
                         \<lparr>timestep = 2, hypid = 1, score = Fin (- 6 / 5), tokenid = 2\<rparr>],
            n_best_counter := 2,
            partial_hyps := [[1, 3, 3], [1, 3, 2]]\<rparr>"

text \<open>
  A beam of one with length penalty 1 after one step that chose the word: no trace
  has finished.
\<close>

definition ex_syn_s0 :: tree_search where
  "ex_syn_s0 = tree_search_init 1 (-1) (-1) 0 1 2 0 1"

definition ex_syn_s1 :: tree_search where
  "ex_syn_s1 = \<lparr>beam_size = 1, length_penalty = 1, block_ngram = - 1, min_length = 0,
            eos = 2, bos = 1, pad = 0, context_toks = None,
            context_block_ngram = - 1, block_list = None,
            scores = Some [Fin (- 1 / 2)],
            all_scores = [[Fin 0], [Fin (- 1 / 2)]],
            bookkeep = [[0]], outputs = [[1], [3]], finished = [],
            eos_top = False, eos_top_ts = None, n_best_counter = 0,
            partial_hyps = [[1, 3]]\<rparr>"

definition ex_syn_forced :: tree_search where
  "ex_syn_forced = ex_syn_s1\<lparr>outputs := [[1], [2]],
       finished := [\<lparr>timestep = 1, hypid = 0, score = Fin (- 1 / 2), tokenid = 2\<rparr>]\<rparr>"

text \<open>
  A beam of one over four tokens (eos 0, bos 1, pad 2, the word 3) with minimum length
  3 and self-blocking of unigrams, fed the same finite log-probabilities at every
  step: the word, then the padding token, and then nothing but the end token at minus
  infinity is left to choose.
\<close>

definition ex_trip_s0 :: tree_search where
  "ex_trip_s0 = tree_search_init 1 1 (-1) 2 1 0 3 (65 / 100)"

definition ex_trip_lp :: tensor2 where
  "ex_trip_lp = [[Fin (-1), Fin (-9), Fin (-9), Fin (-1/2)]]"

definition ex_trip_s1 :: tree_search where
  "ex_trip_s1 = \<lparr>beam_size = 1, length_penalty = 65 / 100, block_ngram = 1, min_length = 3,
            eos = 0, bos = 1, pad = 2, context_toks = None,
            context_block_ngram = - 1, block_list = None,
            scores = Some [Fin (- 1 / 2)],
            all_scores = [[Fin 0], [Fin (- 1 / 2)]],
            bookkeep = [[0]], outputs = [[1], [3]], finished = [],
            eos_top = False, eos_top_ts = None, n_best_counter = 0,
            partial_hyps = [[1, 3]]\<rparr>"

definition ex_trip_s2 :: tree_search where
  "ex_trip_s2 = ex_trip_s1\<lparr>scores := Some [Fin (- 19 / 2)],
            all_scores := [[Fin 0], [Fin (- 1 / 2)], [Fin (- 19 / 2)]],
            bookkeep := [[0], [0]], outputs := [[1], [3], [2]],
            partial_hyps := [[1, 3, 2]]\<rparr>"

definition ex_trip_s3 :: tree_search where
  "ex_trip_s3 = ex_trip_s1\<lparr>scores := Some [NegInf],
            all_scores := [[Fin 0], [Fin (- 1 / 2)], [Fin (- 19 / 2)], [NegInf]],
            bookkeep := [[0], [0], [0]], outputs := [[1], [3], [2], [0]],
            eos_top := True, eos_top_ts := Some 3,
            partial_hyps := [[1, 3, 2, 0]]\<rparr>"

definition ex_trip_s4 :: tree_search where
  "ex_trip_s4 = ex_trip_s1\<lparr>scores := Some [NegInf],
            all_scores := [[Fin 0], [Fin (- 1 / 2)], [Fin (- 19 / 2)], [NegInf], [NegInf]],
            bookkeep := [[0], [0], [0], [0]], outputs := [[1], [3], [2], [0], [0]],
            eos_top := True, eos_top_ts := Some 3,
            partial_hyps := [[1, 3, 2, 0, 0]]\<rparr>"

definition ex_trip_forced :: tree_search where
  "ex_trip_forced = ex_trip_s4\<lparr>finished := [\<lparr>timestep = 4, hypid = 0, score = NegInf, tokenid = 0\<rparr>]\<rparr>"

text \<open>The options from which the factory builds this search object.\<close>

definition ex_trip_opt :: generator_opts where
  "ex_trip_opt = \<lparr>inference = Some ''beam'', opt_beam_size = Some 1,
       opt_beam_length_penalty = None, opt_topk = None, opt_beam_delay = None,
       opt_topp = None, beam_min_length = 3, beam_block_ngram = 1,
       beam_context_block_ngram = - 1, NULL_IDX = 2, START_IDX = 1, END_IDX = 0\<rparr>"

section \<open>Lexically constrained beam search (search.py)\<close>

text \<open>
  Modelled from the spec: the classes of \<open>parlai.core.token_generation_constraints\<close>
  (\<open>ConstraintState\<close> and its ordered and unordered variants) are not among the
  sources. The stepper uses a constraint state only through \<open>next_tokens()\<close>,
  \<open>advance(token)\<close>, \<open>bank\<close>, \<open>finished\<close> and \<open>tokens\<close>, as the spec lists them;
  the five are parameters of the model, over any type of states.
\<close>

record 'st constraint_ops =
  next_tokens :: "'st \<Rightarrow> nat list"
  advance_state :: "'st \<Rightarrow> nat \<Rightarrow> 'st"
  bank :: "'st \<Rightarrow> nat"
  state_finished :: "'st \<Rightarrow> bool"
  state_tokens :: "'st \<Rightarrow> nat list"

text \<open>
  A tensor of shape (batch, beam, vocab), kept as \<open>view(batch * beam, -1)\<close> shows it:
  the list of its \<open>batch * beam\<close> rows.
\<close>

record tensor3 =
  dim_batch :: nat
  dim_beam :: nat
  dim_vocab :: nat
  rows3 :: tensor2

text \<open>\<open>t[sentno]\<close>: the rows of one sentence.\<close>

definition sentence_rows :: "tensor3 \<Rightarrow> nat \<Rightarrow> tensor2" where
  "sentence_rows t sentno = take (dim_beam t) (drop (sentno * dim_beam t) (rows3 t))"

text \<open>The fields of \<open>LexicallyConstrainedBeamSearch\<close> that the stepper reads or writes.\<close>

record 'st lcbs =
  constraint_states :: "'st list list"
  num_cands :: int
  search_eos :: nat
  search_vocab_size :: nat

text \<open>
  STEP 0 of \<open>step\<close>: the flat indices \<open>sentno * beam_size + beamno\<close> of the beam items
  whose constraint state is not finished.
\<close>

definition not_finished_indices :: "'st constraint_ops \<Rightarrow> nat \<Rightarrow> 'st list list \<Rightarrow> nat list" where
  "not_finished_indices ops bsize states =
     concat (map (\<lambda>(sentno, sent_constraints).
               map (\<lambda>(beamno, state). sentno * bsize + beamno)
                 (filter (\<lambda>(beamno, state). \<not> state_finished ops state)
                    (enumerate 0 sent_constraints)))
            (enumerate 0 states))"

text \<open>
  \<open>lprobs.view(batch_size * beam_size, -1)[not_finished_indices, self.eos] = -math.inf\<close>,
  under the guard \<open>constraint_states and step > 0\<close>; an index outside the tensor
  raises.
\<close>

definition prevent_eos ::
  "'st constraint_ops \<Rightarrow> 'st lcbs \<Rightarrow> nat \<Rightarrow> tensor3 \<Rightarrow> error + tensor3" where
  "prevent_eos ops srch step lprobs =
     (if constraint_states srch \<noteq> [] \<and> step > 0
        then (let idxs = not_finished_indices ops (dim_beam lprobs) (constraint_states srch)
              in if idxs = [] then Inr lprobs
                 else if \<forall>i\<in>set idxs. i < length (rows3 lprobs)
                                     \<and> search_eos srch < length (rows3 lprobs ! i)
                   then Inr (lprobs\<lparr>rows3 :=
                          fold (\<lambda>i t. t[i := (t ! i)[search_eos srch := NegInf]]) idxs
                            (rows3 lprobs)\<rparr>)
                 else Inl IndexError)
      else Inr lprobs)"

text \<open>
  The branch on \<open>step == 0\<close>: the first beam entry of every sentence
  (\<open>lprobs[:, ::beam_size, :]\<close>), or the sum with the previous cumulative scores
  \<open>scores[:, :, step - 1]\<close>; \<open>scores\<close> is kept by rows like the tensor.
\<close>

definition make_cumulative ::
  "nat \<Rightarrow> tensor3 \<Rightarrow> score list list option \<Rightarrow> error + tensor3" where
  "make_cumulative step lprobs scores_hist =
     (if step = 0
        then (if dim_beam lprobs = 0 then Inl ValueError
              else Inr (lprobs\<lparr>dim_beam := 1,
                         rows3 := map (\<lambda>b. rows3 lprobs ! (b * dim_beam lprobs))
                                    [0..<dim_batch lprobs]\<rparr>))
      else (case scores_hist of
              None \<Rightarrow> Inl AssertionError
            | Some sc \<Rightarrow>
                if \<exists>r\<in>set sc. length r \<le> step - 1 then Inl IndexError
                else if length sc \<noteq> length (rows3 lprobs) then Inl RuntimeError
                else Inr (lprobs\<lparr>rows3 :=
                       map (\<lambda>(row, srow). map (\<lambda>x. x + srow ! (step - 1)) row)
                         (zip (rows3 lprobs) sc)\<rparr>)))"

text \<open>\<open>torch.topk\<close> with a count that may be negative.\<close>

definition topk_int :: "score list \<Rightarrow> int \<Rightarrow> error + (score list \<times> nat list)" where
  "topk_int xs k = (if k < 0 then Inl RuntimeError else topk xs (nat k))"

text \<open>Running a fallible function over a list; the first exception wins.\<close>

fun map_err :: "('a \<Rightarrow> error + 'b) \<Rightarrow> 'a list \<Rightarrow> error + 'b list" where
  "map_err f [] = Inr []"
| "map_err f (x # xs) =
     (case f x of
        Inl e \<Rightarrow> Inl e
      | Inr y \<Rightarrow> (case map_err f xs of Inl e \<Rightarrow> Inl e | Inr ys \<Rightarrow> Inr (y # ys)))"

text \<open>\<open>xs[idxs]\<close> with a tensor or list of indices.\<close>

definition select_idx :: "'a list \<Rightarrow> nat list \<Rightarrow> error + 'a list" where
  "select_idx xs idxs =
     (if \<forall>i\<in>set idxs. i < length xs then Inr (map (\<lambda>i. xs ! i) idxs) else Inl IndexError)"

text \<open>The candidate buffers of \<open>step_sentence\<close>, kept in parallel as in the source.\<close>

record 'st cands =
  beams_buf :: "nat list"
  indices_buf :: "nat list"
  scores_buf :: "score list"
  banks :: "nat list"
  cand_states :: "'st list"

text \<open>
  STEP 2 of \<open>step_sentence\<close>: the next constraint tokens of every beam item are
  appended; at step 0 only the first item is visited. The fourth argument is
  \<open>beamno\<close>.
\<close>

fun add_constraints ::
  "'st constraint_ops \<Rightarrow> nat \<Rightarrow> tensor2 \<Rightarrow> nat \<Rightarrow> 'st list
     \<Rightarrow> nat list \<times> nat list \<times> score list \<Rightarrow> error + (nat list \<times> nat list \<times> score list)" where
  "add_constraints ops step lp beamno [] bufs = Inr bufs"
| "add_constraints ops step lp beamno (state # states) (bb, ib, sb) =
     (let nt = next_tokens ops state
      in case (if nt = [] then Inr (bb, ib, sb)
               else if beamno < length lp \<and> (\<forall>t\<in>set nt. t < length (lp ! beamno))
                 then Inr (bb @ replicate (length nt) beamno, ib @ nt,
                           sb @ map (\<lambda>t. lp ! beamno ! t) nt)
               else Inl IndexError) of
           Inl e \<Rightarrow> Inl e
         | Inr bufs' \<Rightarrow>
             if step = 0 then Inr bufs'
             else add_constraints ops step lp (Suc beamno) states bufs')"

text \<open>
  The value of the loop variable \<open>state\<close> after STEP 2, which STEP 4 reads in
  \<open>len(state.tokens)\<close>: the first item at step 0, the last one otherwise, and unbound
  without items.
\<close>

definition loop_state :: "nat \<Rightarrow> 'st list \<Rightarrow> error + 'st" where
  "loop_state step states =
     (case states of [] \<Rightarrow> Inl NameError
      | s # _ \<Rightarrow> Inr (if step = 0 then s else last states))"

text \<open>
  STEP 3: the constraint state of every candidate,
  \<open>constraint_states[beams_buf[i]].advance(indices_buf[i])\<close>, and its bank.
\<close>

definition advance_cands ::
  "'st constraint_ops \<Rightarrow> 'st list \<Rightarrow> nat list \<Rightarrow> nat list \<Rightarrow> error + 'st list" where
  "advance_cands ops states bb ib =
     (if \<forall>i<length ib. i < length bb \<and> bb ! i < length states
        then Inr (map (\<lambda>i. advance_state ops (states ! (bb ! i)) (ib ! i)) [0..<length ib])
      else Inl IndexError)"

text \<open>
  STEP 4: the composite key \<open>(num_constraint_tokens - banks) * MAX_SCORE + scores_buf\<close>
  with \<open>MAX_SCORE = -100\<close>, and the descending sort by it. \<open>sort\<close> of torch leaves the
  order among equal keys open; the model keeps the earlier candidate first.
\<close>

definition MAX_SCORE :: int where
  "MAX_SCORE = -100"

definition sort_key_of :: "nat \<Rightarrow> nat list \<Rightarrow> score list \<Rightarrow> error + score list" where
  "sort_key_of num_constraint_tokens bks sb =
     broadcast_add
       (map (\<lambda>b. Fin (real_of_int ((int num_constraint_tokens - int b) * MAX_SCORE))) bks) sb"

definition sort_cands :: "nat \<Rightarrow> 'st cands \<Rightarrow> error + 'st cands" where
  "sort_cands num_constraint_tokens c =
     (case sort_key_of num_constraint_tokens (banks c) (scores_buf c) of
        Inl e \<Rightarrow> Inl e
      | Inr keys \<Rightarrow>
          let sort_indices = sort_desc (\<lambda>i. keys ! i) [0..<length keys]
          in (case select_idx (scores_buf c) sort_indices of Inl e \<Rightarrow> Inl e | Inr sb \<Rightarrow>
             (case select_idx (indices_buf c) sort_indices of Inl e \<Rightarrow> Inl e | Inr ib \<Rightarrow>
             (case select_idx (beams_buf c) sort_indices of Inl e \<Rightarrow> Inl e | Inr bb \<Rightarrow>
             (case select_idx (banks c) sort_indices of Inl e \<Rightarrow> Inl e | Inr bk \<Rightarrow>
             (case select_idx (cand_states c) sort_indices of Inl e \<Rightarrow> Inl e | Inr cs \<Rightarrow>
                Inr \<lparr>beams_buf = bb, indices_buf = ib, scores_buf = sb, banks = bk,
                     cand_states = cs\<rparr>))))))"

text \<open>
  STEP 5: \<open>roll\<close> puts the last element in front; a candidate is kept when the key
  \<open>beam * (vocab_size + 1) + token\<close> of its left neighbour in the rolled order differs
  from its own. The tensors are cut by \<open>masked_select\<close>; the list of constraint
  states is cut by the loop that starts at position 1.
\<close>

definition roll :: "'a list \<Rightarrow> error + 'a list" where
  "roll t = (case t of [] \<Rightarrow> Inl IndexError | _ # _ \<Rightarrow> Inr (last t # butlast t))"

definition cand_key :: "nat \<Rightarrow> nat \<Rightarrow> nat \<Rightarrow> nat" where
  "cand_key vsize b i = b * (vsize + 1) + i"

definition masked_select :: "'a list \<Rightarrow> bool list \<Rightarrow> error + 'a list" where
  "masked_select xs keep =
     (if length xs = length keep then Inr (map fst (filter snd (zip xs keep)))
      else Inl RuntimeError)"

fun pop_loop :: "'a list \<Rightarrow> nat \<Rightarrow> bool list \<Rightarrow> error + 'a list" where
  "pop_loop cs i [] = Inr cs"
| "pop_loop cs i (keep # masks) =
     (if keep then pop_loop cs (Suc i) masks
      else if i < length cs then pop_loop (take i cs @ drop (Suc i) cs) i masks
      else Inl IndexError)"

definition uniques_mask_of :: "nat \<Rightarrow> nat list \<Rightarrow> nat list \<Rightarrow> error + bool list" where
  "uniques_mask_of vsize bb ib =
     (if length bb \<noteq> length ib then Inl RuntimeError
      else let u = map (\<lambda>(b, i). cand_key vsize b i) (zip bb ib)
           in (case roll u of
                 Inl e \<Rightarrow> Inl e
               | Inr ru \<Rightarrow> Inr (map (\<lambda>(x, y). x \<noteq> y) (zip ru u))))"

definition dedup_cands :: "nat \<Rightarrow> 'st cands \<Rightarrow> error + 'st cands" where
  "dedup_cands vsize c =
     (case uniques_mask_of vsize (beams_buf c) (indices_buf c) of
        Inl e \<Rightarrow> Inl e
      | Inr uniques_mask \<Rightarrow>
         (case masked_select (scores_buf c) uniques_mask of Inl e \<Rightarrow> Inl e | Inr sb \<Rightarrow>
         (case masked_select (indices_buf c) uniques_mask of Inl e \<Rightarrow> Inl e | Inr ib \<Rightarrow>
         (case masked_select (beams_buf c) uniques_mask of Inl e \<Rightarrow> Inl e | Inr bb \<Rightarrow>
         (case masked_select (banks c) uniques_mask of Inl e \<Rightarrow> Inl e | Inr bk \<Rightarrow>
         (case pop_loop (cand_states c) 1 (tl uniques_mask) of Inl e \<Rightarrow> Inl e | Inr cs \<Rightarrow>
            Inr \<lparr>beams_buf = bb, indices_buf = ib, scores_buf = sb, banks = bk,
                 cand_states = cs\<rparr>))))))"

text \<open>
  STEP 6: the stripe of a candidate is
  \<open>num_constraint_tokens - bank + stripe_offsets[cur_bank_count]\<close> with
  \<open>stripe_offsets[k] = k * (len(banks) + 1)\<close>; the fourth argument is
  \<open>cur_bank_count\<close>, the third \<open>cur_bank\<close>.
\<close>

fun stripes_loop :: "int \<Rightarrow> nat \<Rightarrow> nat \<Rightarrow> int \<Rightarrow> nat list \<Rightarrow> int list" where
  "stripes_loop nct m cur_bank cur_bank_count [] = []"
| "stripes_loop nct m cur_bank cur_bank_count (b # bs) =
     (let cnt = (if b \<noteq> cur_bank then 0 else cur_bank_count + 1)
      in (nct - int b + cnt * int m) # stripes_loop nct m b cnt bs)"

definition stripes_of :: "nat \<Rightarrow> nat list \<Rightarrow> error + int list" where
  "stripes_of num_constraint_tokens bks =
     (case bks of
        [] \<Rightarrow> Inl IndexError
      | b # _ \<Rightarrow> Inr (stripes_loop (int num_constraint_tokens) (length bks + 1) b (-1) bks))"

text \<open>The slice \<open>xs[:k]\<close> of Python for an integer \<open>k\<close>.\<close>

definition slice_to :: "int \<Rightarrow> 'a list \<Rightarrow> 'a list" where
  "slice_to k xs = (if k \<ge> 0 then take (nat k) xs else take (length xs - nat (- k)) xs)"

text \<open>
  STEP 7 and STEP 8: the ascending sort by stripe and the cut of the three tensors
  to \<open>num_cands\<close>; the list of constraint states is reordered but not cut.
\<close>

definition stripe_cands :: "nat \<Rightarrow> int \<Rightarrow> 'st cands \<Rightarrow> error + 'st cands" where
  "stripe_cands num_constraint_tokens ncands c =
     (case stripes_of num_constraint_tokens (banks c) of
        Inl e \<Rightarrow> Inl e
      | Inr stripes \<Rightarrow>
          let sort_indices = sort_key (\<lambda>i. stripes ! i) [0..<length stripes]
          in (case select_idx (scores_buf c) sort_indices of Inl e \<Rightarrow> Inl e | Inr sb \<Rightarrow>
             (case select_idx (indices_buf c) sort_indices of Inl e \<Rightarrow> Inl e | Inr ib \<Rightarrow>
             (case select_idx (beams_buf c) sort_indices of Inl e \<Rightarrow> Inl e | Inr bb \<Rightarrow>
             (case select_idx (cand_states c) sort_indices of Inl e \<Rightarrow> Inl e | Inr cs \<Rightarrow>
                Inr \<lparr>beams_buf = slice_to ncands bb, indices_buf = slice_to ncands ib,
                     scores_buf = slice_to ncands sb, banks = banks c,
                     cand_states = cs\<rparr>)))))"

text \<open>
  \<open>step_sentence\<close>; the result is \<open>(scores_buf, indices_buf, beams_buf,
  constraint_states)\<close>.
\<close>

definition step_sentence ::
  "'st constraint_ops \<Rightarrow> 'st lcbs \<Rightarrow> nat \<Rightarrow> nat \<Rightarrow> tensor2 \<Rightarrow> 'st list
     \<Rightarrow> nat list \<Rightarrow> nat list \<Rightarrow> score list
     \<Rightarrow> error + (score list \<times> nat list \<times> nat list \<times> 'st list)" where
  "step_sentence ops srch step sentno lp states bb0 ib0 sb0 =
     (case add_constraints ops step lp 0 states (bb0, ib0, sb0) of
        Inl e \<Rightarrow> Inl e
      | Inr (bb, ib, sb) \<Rightarrow>
     (case advance_cands ops states bb ib of
        Inl e \<Rightarrow> Inl e
      | Inr new_states \<Rightarrow>
     (case loop_state step states of
        Inl e \<Rightarrow> Inl e
      | Inr state \<Rightarrow>
          let num_constraint_tokens = length (state_tokens ops state);
              c = \<lparr>beams_buf = bb, indices_buf = ib, scores_buf = sb,
                   banks = map (bank ops) new_states, cand_states = new_states\<rparr>
          in (case sort_cands num_constraint_tokens c of
                Inl e \<Rightarrow> Inl e
              | Inr c1 \<Rightarrow>
             (case dedup_cands (search_vocab_size srch) c1 of
                Inl e \<Rightarrow> Inl e
              | Inr c2 \<Rightarrow>
             (case stripe_cands num_constraint_tokens (num_cands srch) c2 of
                Inl e \<Rightarrow> Inl e
              | Inr c3 \<Rightarrow>
                  Inr (scores_buf c3, indices_buf c3, beams_buf c3, cand_states c3)))))))"

text \<open>
  \<open>self.num_cands = min(beam_size * 2, lprobs.view(batch_size, -1).size(1) - 1)\<close>.
\<close>

definition num_cands_of :: "tensor3 \<Rightarrow> int" where
  "num_cands_of lprobs =
     min (int (dim_beam lprobs) * 2) (int (dim_beam lprobs * dim_vocab lprobs) - 1)"

text \<open>
  \<open>torch.topk(lprobs.view(batch_size, -1), self.num_cands)\<close>, one row per sentence.
\<close>

definition top_prediction :: "tensor3 \<Rightarrow> int \<Rightarrow> error + (score list \<times> nat list) list" where
  "top_prediction lp k =
     map_err (\<lambda>sentno. topk_int (concat (sentence_rows lp sentno)) k) [0..<dim_batch lp]"

text \<open>
  STEP 1 of \<open>step\<close>: the best token of every beam item is appended to the buffers of
  its sentence. A buffer entry is \<open>(scores_buf, indices_buf, beams_buf)\<close>.
\<close>

definition add_top1 ::
  "tensor3 \<Rightarrow> nat \<Rightarrow> (score list \<times> nat list \<times> nat list) list
     \<Rightarrow> error + (score list \<times> nat list \<times> nat list) list" where
  "add_top1 lp bsize bufs =
     (case rows_max (rows3 lp) of
        Inl e \<Rightarrow> Inl e
      | Inr (top_scores, top_indices) \<Rightarrow>
          Inr (map (\<lambda>(sentno, (sb, ib, bb)).
                 (sb @ take bsize (drop (sentno * bsize) top_scores),
                  ib @ take bsize (drop (sentno * bsize) top_indices),
                  bb @ [0..<bsize]))
               (enumerate 0 bufs)))"

text \<open>
  \<open>new_buf[sentno] = xs\<close> into a row of width \<open>2 * beam_size\<close>: the lengths agree, or
  a single element is broadcast.
\<close>

definition assign_row :: "nat \<Rightarrow> 'a list \<Rightarrow> error + 'a list" where
  "assign_row width xs =
     (if length xs = width then Inr xs
      else if length xs = 1 then Inr (replicate width (hd xs))
      else Inl RuntimeError)"

text \<open>The loop of \<open>step\<close> over the sentences that have constraint states.\<close>

fun sentences_loop ::
  "'st constraint_ops \<Rightarrow> nat \<Rightarrow> tensor3 \<Rightarrow> nat \<Rightarrow> (score list \<times> nat list \<times> nat list) list
     \<Rightarrow> nat list \<Rightarrow> 'st lcbs \<times> (score list \<times> nat list \<times> nat list) list
     \<Rightarrow> error + ('st lcbs \<times> (score list \<times> nat list \<times> nat list) list)" where
  "sentences_loop ops step_no lp width bufs [] acc = Inr acc"
| "sentences_loop ops step_no lp width bufs (sentno # rest) (srch, out) =
     (if sentno < dim_batch lp
        then (case bufs ! sentno of
                (sb, ib, bb) \<Rightarrow>
                  (case step_sentence ops srch step_no sentno (sentence_rows lp sentno)
                          (constraint_states srch ! sentno) bb ib sb of
                     Inl e \<Rightarrow> Inl e
                   | Inr (scores_new, indices_new, beams_new, new_states) \<Rightarrow>
                      (case assign_row width scores_new of Inl e \<Rightarrow> Inl e | Inr r1 \<Rightarrow>
                      (case assign_row width indices_new of Inl e \<Rightarrow> Inl e | Inr r2 \<Rightarrow>
                      (case assign_row width beams_new of Inl e \<Rightarrow> Inl e | Inr r3 \<Rightarrow>
                         sentences_loop ops step_no lp width bufs rest
                           (srch\<lparr>constraint_states :=
                                   (constraint_states srch)[sentno := new_states]\<rparr>,
                            out[sentno := (r1, r2, r3)]))))))
      else Inl IndexError)"

text \<open>
  The cumulative scores from which every candidate of a step is drawn: STEP 0
  followed by the branch on \<open>step == 0\<close>. The first component is the caller's tensor
  after the write of STEP 0.
\<close>

definition step_scores ::
  "'st constraint_ops \<Rightarrow> 'st lcbs \<Rightarrow> nat \<Rightarrow> tensor3 \<Rightarrow> score list list option
     \<Rightarrow> error + (tensor3 \<times> tensor3)" where
  "step_scores ops srch step_no lprobs scores_hist =
     (case prevent_eos ops srch step_no lprobs of
        Inl e \<Rightarrow> Inl e
      | Inr lprobs' \<Rightarrow>
          (case make_cumulative step_no lprobs' scores_hist of
             Inl e \<Rightarrow> Inl e
           | Inr lp \<Rightarrow> Inr (lprobs', lp)))"

text \<open>
  \<open>LexicallyConstrainedBeamSearch.step\<close>. The result holds the stepper with its new
  constraint states, the caller's \<open>lprobs\<close> as the call leaves it, and per sentence
  \<open>(scores, indices, beams)\<close>.
\<close>

definition step ::
  "'st constraint_ops \<Rightarrow> 'st lcbs \<Rightarrow> nat \<Rightarrow> tensor3 \<Rightarrow> score list list option
     \<Rightarrow> error + ('st lcbs \<times> tensor3 \<times> (score list \<times> nat list \<times> nat list) list)" where
  "step ops srch0 step_no lprobs scores_hist =
     (if dim_batch lprobs = 0 then Inl RuntimeError
      else
        let bsize = dim_beam lprobs;
            vsize = dim_vocab lprobs;
            srch = srch0\<lparr>num_cands := num_cands_of lprobs\<rparr>
        in (case step_scores ops srch step_no lprobs scores_hist of
              Inl e \<Rightarrow> Inl e
            | Inr (lprobs', lp) \<Rightarrow>
           (case top_prediction lp (num_cands srch) of
              Inl e \<Rightarrow> Inl e
            | Inr tops \<Rightarrow>
                let bufs = map (\<lambda>(sc, idx). (sc, map (\<lambda>i. i mod vsize) idx,
                                              map (\<lambda>i. i div vsize) idx)) tops
                in if constraint_states srch = [] then Inr (srch, lprobs', bufs)
                   else (case (if step_no > 0 then add_top1 lp bsize bufs else Inr bufs) of
                           Inl e \<Rightarrow> Inl e
                         | Inr bufs' \<Rightarrow>
                            (case sentences_loop ops step_no lp (2 * bsize) bufs'
                                    [0..<length (constraint_states srch)]
                                    (srch, replicate (dim_batch lprobs)
                                             (replicate (2 * bsize) (Fin 0),
                                              replicate (2 * bsize) 0,
                                              replicate (2 * bsize) 0)) of
                               Inl e \<Rightarrow> Inl e
                             | Inr (srch', out) \<Rightarrow> Inr (srch', lprobs', out))))))"

subsection \<open>A constraint state for the examples\<close>

text \<open>
  Modelled from the spec: a progress tracker over one required phrase, kept as the
  phrase and the number of its tokens matched so far. \<open>next_tokens\<close> is the token
  that continues the phrase, \<open>advance\<close> moves on when that token is taken and starts
  over otherwise, \<open>bank\<close> counts the matched tokens, \<open>finished\<close> holds once the whole
  phrase is matched, \<open>tokens\<close> is the phrase.
\<close>

definition phrase_ops :: "(nat list \<times> nat) constraint_ops" where
  "phrase_ops =
     \<lparr>next_tokens = (\<lambda>(phrase, k). if k < length phrase then [phrase ! k] else []),
      advance_state = (\<lambda>(phrase, k) tok.
         if k < length phrase then (if phrase ! k = tok then (phrase, Suc k) else (phrase, 0))
         else (phrase, k)),
      bank = (\<lambda>(phrase, k). k),
      state_finished = (\<lambda>(phrase, k). length phrase \<le> k),
      state_tokens = (\<lambda>(phrase, k). phrase)\<rparr>"


subsection \<open>Example steps of the constrained stepper\<close>

text \<open>
  One sentence, beam size 1, four tokens (0 padding, 1 end, 2 and 3 words), the
  required phrase \<open>[3]\<close> not yet matched, at step 1 with previous cumulative score 0.
  The word 2 has log-probability 0, the required word 3 has -150.
\<close>

definition ex_rank_search :: "(nat list \<times> nat) lcbs" where
  "ex_rank_search =
     \<lparr>constraint_states = [[([3], 0)]], num_cands = 0, search_eos = 1,
      search_vocab_size = 4\<rparr>"

definition ex_rank_lprobs :: tensor3 where
  "ex_rank_lprobs =
     \<lparr>dim_batch = 1, dim_beam = 1, dim_vocab = 4,
      rows3 = [[Fin (-170), Fin (-180), Fin 0, Fin (-150)]]\<rparr>"

text \<open>The candidates of that step as they enter STEP 4.\<close>

definition ex_rank_cands :: "(nat list \<times> nat) cands" where
  "ex_rank_cands =
     \<lparr>beams_buf = [0, 0, 0, 0], indices_buf = [2, 3, 2, 3],
      scores_buf = [Fin 0, Fin (-150), Fin 0, Fin (-150)], banks = [0, 1, 0, 1],
      cand_states = [([3], 0), ([3], 1), ([3], 0), ([3], 1)]\<rparr>"

text \<open>
  The same sentence with the phrase already matched, the words 2 and 3 both at
  log-probability -1.
\<close>

definition ex_dup_search :: "(nat list \<times> nat) lcbs" where
  "ex_dup_search =
     \<lparr>constraint_states = [[([3], 1)]], num_cands = 0, search_eos = 1,
      search_vocab_size = 4\<rparr>"

definition ex_dup_lprobs :: tensor3 where
  "ex_dup_lprobs =
     \<lparr>dim_batch = 1, dim_beam = 1, dim_vocab = 4,
      rows3 = [[Fin (-5), Fin (-6), Fin (-1), Fin (-1)]]\<rparr>"

text \<open>The candidates of that step as they leave STEP 4.\<close>

definition ex_dup_cands :: "(nat list \<times> nat) cands" where
  "ex_dup_cands =
     \<lparr>beams_buf = [0, 0, 0], indices_buf = [2, 3, 2],
      scores_buf = [Fin (-1), Fin (-1), Fin (-1)], banks = [1, 1, 1],
      cand_states = [([3], 1), ([3], 1), ([3], 1)]\<rparr>"


subsection \<open>Shapes of the stepper's data\<close>

text \<open>
  A tensor of shape (batch, beam, vocab) has \<open>batch * beam\<close> rows of \<open>vocab\<close> entries.
\<close>

definition wf_tensor3 :: "tensor3 \<Rightarrow> bool" where
  "wf_tensor3 t \<longleftrightarrow>
     length (rows3 t) = dim_batch t * dim_beam t
       \<and> (\<forall>r\<in>set (rows3 t). length r = dim_vocab t)"

text \<open>
  Parallel buffers of beams, tokens and scores are drawn from the score rows \<open>L\<close> of a
  sentence when every score is the entry of \<open>L\<close> at its beam and token.
\<close>

definition drawn_from :: "tensor2 \<Rightarrow> nat list \<Rightarrow> nat list \<Rightarrow> score list \<Rightarrow> bool" where
  "drawn_from L bb ib sb \<longleftrightarrow>
     length bb = length ib \<and> length sb = length ib
       \<and> (\<forall>i<length ib. sb ! i = L ! (bb ! i) ! (ib ! i))"

text \<open>
  The example sentence at step 0, with the end token 1 as the most probable token.
\<close>

definition ex_eos_lprobs :: tensor3 where
  "ex_eos_lprobs =
     \<lparr>dim_batch = 1, dim_beam = 1, dim_vocab = 4,
      rows3 = [[Fin (-5), Fin 0, Fin (-6), Fin (-7)]]\<rparr>"

text \<open>
  A sentence with three tokens (0 end, 1 padding, 2 a word), beam size 1, the
  required phrase \<open>[2]\<close> not yet matched, at step 1.
\<close>

definition ex_sup_search :: "(nat list \<times> nat) lcbs" where
  "ex_sup_search =
     \<lparr>constraint_states = [[([2], 0)]], num_cands = 0, search_eos = 0,
      search_vocab_size = 3\<rparr>"

definition ex_sup_lprobs :: tensor3 where
  "ex_sup_lprobs =
     \<lparr>dim_batch = 1, dim_beam = 1, dim_vocab = 3,
      rows3 = [[Fin (-1), NegInf, Fin (-2)]]\<rparr>"


section \<open>The constrained adapter (torch\_generator\_agent.py)\<close>

text \<open>
  An entry of \<open>cbs_finalized\<close>. The source stores a dictionary with the tokens and the
  score of the hypothesis and with its attention, alignment and positional scores;
  the last three are written once and never read by the adapter, and are left out.
\<close>

record hypo =
  hyp_tokens :: "nat list"
  hyp_score :: score

text \<open>
  \<open>ConstrainedBeamSearch\<close> extends \<open>TreeSearch\<close> by the stepper and the buffers of its
  \<open>__init__\<close>. The batch size is the constant 1 in the source (\<open>bsz = 1\<close>): a tensor of
  shape (bsz, k) is kept as its only row, \<open>bbsz_offsets\<close> is the single offset 0.
  \<open>LexicallyConstrainedBeamSearch.__init__\<close> does not create the attribute
  \<open>constraint_states\<close> of the stepper, \<open>init_constraints\<close> does:
  \<open>has_constraint_states\<close> tells whether the attribute exists, and the field
  \<open>constraint_states\<close> of \<open>search\<close> has a meaning only then.
\<close>

record 'st constrained_beam_search = tree_search +
  search :: "'st lcbs"
  has_constraint_states :: bool
  max_len :: nat
  normalize_scores :: bool
  len_penalty :: real
  match_source_len :: bool
  cbs_scores :: "score list list"
  tokens :: "nat list list"
  cands_to_ignore :: "bool list"
  cand_size :: nat
  bbsz_offsets :: nat
  cand_offsets :: "nat list"
  eos_bbsz_idx :: "nat list"
  eos_scores :: "score list"
  cbs_finalized :: "hypo list list"
  cbs_finished :: "bool list"
  num_remaining_sent :: int
  eos_mask :: "bool list"
  active_hypos_global :: "nat list"

text \<open>
  \<open>ConstrainedBeamSearch.__init__\<close> on top of an initialised \<open>TreeSearch\<close>; the
  dictionary enters through the size of the vocabulary. The first column of \<open>tokens\<close>
  is \<open>bos\<close>, which is always a token in the model of \<open>TreeSearch\<close>.
\<close>

definition constrained_beam_search_init ::
  "nat \<Rightarrow> tree_search \<Rightarrow> 'st constrained_beam_search" where
  "constrained_beam_search_init vsize ts =
     tree_search.extend ts
       (constrained_beam_search.fields
          \<lparr>constraint_states = [], num_cands = 0, search_eos = eos ts,
           search_vocab_size = vsize\<rparr>
          False
          127 True 1 False
          (replicate (beam_size ts) (replicate (127 + 1) (Fin 0)))
          (replicate (beam_size ts)
             (bos ts # replicate (127 + 1) (pad ts)))
          (replicate (beam_size ts) False)
          (2 * beam_size ts)
          0
          [0..<2 * beam_size ts]
          [] []
          [[]] [False] 1 [] [])"

text \<open>\<open>Search.init_constraints\<close>: every beam item starts from the state of its sentence.\<close>

definition init_constraints :: "'st list \<Rightarrow> nat \<Rightarrow> 'st lcbs \<Rightarrow> 'st lcbs" where
  "init_constraints batch_constraints bsize srch =
     srch\<lparr>constraint_states := map (\<lambda>constraint_state. replicate bsize constraint_state)
                                    batch_constraints\<rparr>"

text \<open>
  The call \<open>b.search.init_constraints(batch['constraints'], beam_size)\<close> of
  \<open>_generate\<close>, which creates the attribute.
\<close>

definition search_init_constraints ::
  "'st list \<Rightarrow> nat \<Rightarrow> 'st constrained_beam_search \<Rightarrow> 'st constrained_beam_search" where
  "search_init_constraints batch_constraints bsize st =
     st\<lparr>search := init_constraints batch_constraints bsize (search st),
        has_constraint_states := True\<rparr>"

text \<open>\<open>LexicallyConstrainedBeamSearch.update_constraints\<close> for the one sentence.\<close>

definition update_constraints :: "nat list \<Rightarrow> 'st lcbs \<Rightarrow> error + 'st lcbs" where
  "update_constraints active_hypos srch =
     (case constraint_states srch of
        [] \<Rightarrow> Inr srch
      | sent # rest \<Rightarrow>
          (case select_idx sent active_hypos of
             Inl e \<Rightarrow> Inl e
           | Inr sent' \<Rightarrow> Inr (srch\<lparr>constraint_states := sent' # rest\<rparr>)))"

text \<open>
  \<open>ConstrainedBeamSearch.is_finished\<close>: the assertion, then the test on the number of
  finalized hypotheses and on the step.
\<close>

definition is_finished :: "nat \<Rightarrow> nat \<Rightarrow> nat \<Rightarrow> nat \<Rightarrow> nat \<Rightarrow> error + bool" where
  "is_finished step_no unfin_idx maxlen finalized_sent_len bsize =
     (if \<not> finalized_sent_len \<le> bsize then Inl AssertionError
      else if finalized_sent_len = bsize \<or> step_no = maxlen then Inr True
      else Inr False)"

text \<open>The loop of \<open>finalize_hypos\<close> that computes \<open>cum_unfin\<close>.\<close>

fun cum_unfin_loop :: "nat \<Rightarrow> bool list \<Rightarrow> nat list" where
  "cum_unfin_loop prev [] = []"
| "cum_unfin_loop prev (f # fs) =
     (if f then cum_unfin_loop (prev + 1) fs else prev # cum_unfin_loop prev fs)"

text \<open>
  The loop of \<open>finalize_hypos\<close> over the finished beam items. It threads the keys
  \<open>sents_seen\<close> (pairs of the sentence and its index among the unfinished ones, in
  order of insertion) and \<open>finalized\<close>; the entries of the list are the index, the
  score and the cloned tokens of each item.
\<close>

fun finalize_items ::
  "bool \<Rightarrow> nat \<Rightarrow> nat list \<Rightarrow> (nat \<times> score \<times> nat list) list
     \<Rightarrow> (nat \<times> nat) list \<times> hypo list list
     \<Rightarrow> error + ((nat \<times> nat) list \<times> hypo list list)" where
  "finalize_items msl bsize cum_unfin [] acc = Inr acc"
| "finalize_items msl bsize cum_unfin ((idx, sc, toks) # items) (sents_seen, finalized) =
     (let unfin_idx = idx div bsize
      in if bsize = 0 then Inl RuntimeError
         else if \<not> unfin_idx < length cum_unfin then Inl IndexError
         else
           let sent = unfin_idx + cum_unfin ! unfin_idx;
               sents_seen' = (if (sent, unfin_idx) \<in> set sents_seen then sents_seen
                              else sents_seen @ [(sent, unfin_idx)])
           in if msl then Inl TypeError
              else if \<not> sent < length finalized then Inl IndexError
              else finalize_items msl bsize cum_unfin items
                     (sents_seen',
                      if length (finalized ! sent) < bsize
                        then finalized[sent := finalized ! sent
                                                 @ [\<lparr>hyp_tokens = toks, hyp_score = sc\<rparr>]]
                      else finalized))"

text \<open>
  The loop of \<open>finalize_hypos\<close> over \<open>sents_seen\<close>; it threads \<open>finished\<close> and
  \<open>newly_finished\<close>.
\<close>

fun finish_sentences ::
  "nat \<Rightarrow> nat \<Rightarrow> nat \<Rightarrow> hypo list list \<Rightarrow> (nat \<times> nat) list \<Rightarrow> bool list \<times> nat list
     \<Rightarrow> error + (bool list \<times> nat list)" where
  "finish_sentences step_no maxlen bsize finalized [] acc = Inr acc"
| "finish_sentences step_no maxlen bsize finalized ((sent, unfin_idx) # seen)
       (finished_flags, newly_finished) =
     (if \<not> sent < length finished_flags then Inl IndexError
      else if finished_flags ! sent
        then finish_sentences step_no maxlen bsize finalized seen (finished_flags, newly_finished)
      else (case is_finished step_no unfin_idx maxlen (length (finalized ! sent)) bsize of
              Inl e \<Rightarrow> Inl e
            | Inr True \<Rightarrow>
                finish_sentences step_no maxlen bsize finalized seen
                  (finished_flags[sent := True], newly_finished @ [unfin_idx])
            | Inr False \<Rightarrow>
                finish_sentences step_no maxlen bsize finalized seen
                  (finished_flags, newly_finished)))"

text \<open>
  \<open>finalize_hypos\<close>. The result holds \<open>eos_scores\<close> as the in-place division leaves
  them, \<open>finalized\<close>, \<open>finished\<close> and the returned \<open>newly_finished\<close>. The call of
  the source passes \<open>src_lengths = 0\<close>, which \<open>match_source_len\<close> would subscript.
\<close>

definition finalize_hypos ::
  "'st constrained_beam_search \<Rightarrow> nat \<Rightarrow> nat list \<Rightarrow> score list \<Rightarrow> nat list list
     \<Rightarrow> hypo list list \<Rightarrow> bool list \<Rightarrow> nat \<Rightarrow> nat
     \<Rightarrow> error + (score list \<times> hypo list list \<times> bool list \<times> nat list)" where
  "finalize_hypos st step_no bbsz_idx escores toks finalized finished_flags bsize maxlen =
     (if length bbsz_idx \<noteq> length escores then Inl AssertionError
      else
        (case select_idx toks bbsz_idx of
           Inl e \<Rightarrow> Inl e
         | Inr rows \<Rightarrow>
             let width = min (step_no + 1) (ncols toks - 1)
             in if \<not> step_no < width then Inl IndexError
                else
                  let tokens_clone = map (\<lambda>row. (take (step_no + 1) (drop 1 row))
                                                   [step_no := eos st]) rows;
                      escores' = (if normalize_scores st
                                  then map (\<lambda>s. score_div s
                                                (real (step_no + 1) powr len_penalty st)) escores
                                  else escores);
                      cum_unfin = cum_unfin_loop 0 finished_flags
                  in (case finalize_items (match_source_len st) bsize cum_unfin
                             (zip bbsz_idx (zip escores' tokens_clone)) ([], finalized) of
                        Inl e \<Rightarrow> Inl e
                      | Inr (sents_seen, finalized') \<Rightarrow>
                          (case finish_sentences step_no maxlen bsize finalized' sents_seen
                                  (finished_flags, []) of
                             Inl e \<Rightarrow> Inl e
                           | Inr (finished', newly_finished) \<Rightarrow>
                               Inr (escores', finalized', finished', newly_finished)))))"

text \<open>
  The first part of \<open>select_paths\<close>, up to its two assertions: the call of the stepper
  on the view (1, beam, vocab) of \<open>logprobs\<close> with the history
  \<open>cbs_scores[:, :, :step]\<close>, the mask of the end-token candidates of finite score
  among the first \<open>beam_size\<close> candidates that are not ignored, and the finalization
  of the hypotheses that it selects. \<open>beam_size\<close> is the number of rows of \<open>logprobs\<close>,
  which is taken to be the number of rows of \<open>cbs_scores\<close>. The stepper reads
  \<open>self.constraint_states\<close> right after the sizes of \<open>lprobs\<close>: an AttributeError
  when \<open>init_constraints\<close> has not been called. The result holds the
  adapter, \<open>logprobs\<close> as the stepper leaves it, and \<open>cand_scores\<close>, \<open>cand_indices\<close>,
  \<open>cand_bbsz_idx\<close>.
\<close>

definition select_candidates ::
  "'st constraint_ops \<Rightarrow> 'st constrained_beam_search \<Rightarrow> tensor2 \<Rightarrow> nat
     \<Rightarrow> error + ('st constrained_beam_search \<times> tensor2 \<times> score list \<times> nat list \<times> nat list)" where
  "select_candidates ops st logprobs step_no =
     (let bsize = length logprobs;
          vsize = ncols logprobs;
          lprobs = \<lparr>dim_batch = 1, dim_beam = bsize, dim_vocab = vsize, rows3 = logprobs\<rparr>
      in if length (cbs_scores st) \<noteq> bsize then Inl RuntimeError
         else if \<not> has_constraint_states st then Inl AttributeError
         else
          (case step ops (search st) step_no lprobs
                  (Some (map (take step_no) (cbs_scores st))) of
             Inl e \<Rightarrow> Inl e
           | Inr (srch', lprobs', out) \<Rightarrow>
              (case out of
                 [(cand_scores, cand_indices, cand_beams)] \<Rightarrow>
                   let cand_bbsz_idx = map (\<lambda>b. b + bbsz_offsets st) cand_beams;
                       mask0 = map (\<lambda>(i, s). i = eos st \<and> s \<noteq> NegInf)
                                 (zip cand_indices cand_scores)
                   in if length (take bsize mask0) \<noteq> length (cands_to_ignore st)
                        then Inl IndexError
                      else
                        let mask1 = map (\<lambda>(m, ig). m \<and> \<not> ig)
                                      (zip (take bsize mask0) (cands_to_ignore st))
                                    @ drop bsize mask0;
                            ebi = map fst (filter snd (zip (take bsize cand_bbsz_idx)
                                                            (take bsize mask1)));
                            st1 = st\<lparr>search := srch', eos_mask := mask1, eos_bbsz_idx := ebi\<rparr>
                        in if ebi = []
                             then Inr (st1, rows3 lprobs', cand_scores, cand_indices, cand_bbsz_idx)
                           else
                             let es = map fst (filter snd (zip (take bsize cand_scores)
                                                               (take bsize mask1)))
                             in (case finalize_hypos st1 step_no ebi es (tokens st1)
                                        (cbs_finalized st1) (cbs_finished st1) bsize
                                        (max_len st1) of
                                   Inl e \<Rightarrow> Inl e
                                 | Inr (es', finalized', finished', newly_finished) \<Rightarrow>
                                     Inr (st1\<lparr>eos_scores := es', cbs_finalized := finalized',
                                              cbs_finished := finished',
                                              num_remaining_sent :=
                                                num_remaining_sent st1
                                                  - int (length newly_finished)\<rparr>,
                                          rows3 lprobs', cand_scores, cand_indices,
                                          cand_bbsz_idx))
               | _ \<Rightarrow> Inl RuntimeError)))"

text \<open>
  \<open>t[:, :n] = index_select(t[:, :n], 0, idxs)\<close> and \<open>t[:, c] = vals\<close> on a tensor kept
  by rows.
\<close>

definition reorder_prefix :: "nat \<Rightarrow> nat list \<Rightarrow> 'a list list \<Rightarrow> error + 'a list list" where
  "reorder_prefix n idxs t =
     (case select_idx t idxs of
        Inl e \<Rightarrow> Inl e
      | Inr sel \<Rightarrow>
          if length sel \<noteq> length t then Inl RuntimeError
          else Inr (map (\<lambda>(new, old). take n new @ drop n old) (zip sel t)))"

definition set_column :: "nat \<Rightarrow> 'a list \<Rightarrow> 'a list list \<Rightarrow> error + 'a list list" where
  "set_column c vals t =
     (if \<not> c < ncols t then Inl IndexError
      else if length vals \<noteq> length t then Inl RuntimeError
      else Inr (map (\<lambda>(row, v). row[c := v]) (zip t vals)))"

text \<open>
  The last part of \<open>select_paths\<close>, after the assertions: the \<open>beam_size\<close> candidates
  of smallest \<open>active_mask\<close> are kept, the buffers of tokens and scores and the
  constraint states are reordered after them, and the triple
  \<open>(hyp_ids, tok_ids, best_scores)\<close> is returned.
\<close>

definition keep_active ::
  "'st constrained_beam_search \<Rightarrow> nat \<Rightarrow> nat \<Rightarrow> score list \<Rightarrow> nat list \<Rightarrow> nat list
     \<Rightarrow> error + ('st constrained_beam_search \<times> nat list \<times> nat list \<times> score list)" where
  "keep_active st step_no bsize cand_scores cand_indices cand_bbsz_idx =
     (let mask2 = map (\<lambda>(ig, m). ig \<or> m) (zip (cands_to_ignore st) (take bsize (eos_mask st)))
                  @ drop bsize (eos_mask st)
      in if length mask2 > length (cand_offsets st) then Inl RuntimeError
         else
           let active_mask = map (\<lambda>(m, off). (if m then cand_size st else 0) + off)
                               (zip mask2 (cand_offsets st))
           in if bsize > length active_mask then Inl RuntimeError
              else
                let active_hypos = take bsize (sort_key (\<lambda>i. active_mask ! i)
                                                 [0..<length active_mask]);
                    new_cands_to_ignore = map (\<lambda>i. active_mask ! i) active_hypos;
                    ignore = take bsize (map (\<lambda>v. v \<ge> cand_size st) new_cands_to_ignore)
                in if \<not> (\<exists>ig\<in>set ignore. \<not> ig) then Inl AssertionError
                   else
                    (case select_idx cand_bbsz_idx active_hypos of Inl e \<Rightarrow> Inl e
                     | Inr active_bbsz_idx \<Rightarrow>
                    (case select_idx cand_scores active_hypos of Inl e \<Rightarrow> Inl e
                     | Inr active_scores \<Rightarrow>
                    (case select_idx cand_indices active_hypos of Inl e \<Rightarrow> Inl e
                     | Inr active_tokens \<Rightarrow>
                    (case reorder_prefix (step_no + 1) active_bbsz_idx (tokens st) of
                       Inl e \<Rightarrow> Inl e
                     | Inr toks1 \<Rightarrow>
                    (case set_column (step_no + 1) active_tokens toks1 of Inl e \<Rightarrow> Inl e
                     | Inr toks2 \<Rightarrow>
                    (case (if step_no > 0
                           then reorder_prefix step_no active_bbsz_idx (cbs_scores st)
                           else Inr (cbs_scores st)) of
                       Inl e \<Rightarrow> Inl e
                     | Inr sc1 \<Rightarrow>
                    (case set_column step_no active_scores sc1 of Inl e \<Rightarrow> Inl e
                     | Inr sc2 \<Rightarrow>
                    (case (if has_constraint_states st
                           then update_constraints active_hypos (search st)
                           else Inl AttributeError) of Inl e \<Rightarrow> Inl e
                     | Inr srch' \<Rightarrow>
                        Inr (st\<lparr>search := srch', cbs_scores := sc2, tokens := toks2,
                                cands_to_ignore := ignore, eos_mask := mask2,
                                active_hypos_global := active_bbsz_idx\<rparr>,
                             active_bbsz_idx,
                             map (\<lambda>row. row ! (step_no + 1)) toks2,
                             map (\<lambda>row. row ! step_no) sc2))))))))))"

text \<open>
  \<open>ConstrainedBeamSearch.select_paths\<close>; \<open>prior_scores\<close> is not read by the source.
  The result holds the adapter, \<open>logprobs\<close> as the call leaves it and the returned
  triple.
\<close>

definition select_paths ::
  "'st constraint_ops \<Rightarrow> 'st constrained_beam_search \<Rightarrow> tensor2 \<Rightarrow> score list \<Rightarrow> nat
     \<Rightarrow> error + ('st constrained_beam_search \<times> tensor2 \<times> nat list \<times> nat list \<times> score list)" where
  "select_paths ops st logprobs prior_scores current_length =
     (case select_candidates ops st logprobs current_length of
        Inl e \<Rightarrow> Inl e
      | Inr (st1, logprobs', cand_scores, cand_indices, cand_bbsz_idx) \<Rightarrow>
          if \<not> num_remaining_sent st1 \<ge> 0 then Inl AssertionError
          else if \<not> current_length < max_len st1 then Inl AssertionError
          else
            (case keep_active st1 current_length (length logprobs) cand_scores cand_indices
                    cand_bbsz_idx of
               Inl e \<Rightarrow> Inl e
             | Inr (st2, hyp_ids, tok_ids, best_scores) \<Rightarrow>
                 Inr (st2, logprobs', hyp_ids, tok_ids, best_scores)))"

subsection \<open>An example adapter\<close>

text \<open>
  Beam size 1 over four tokens (0 padding, 1 end, 2 and 3 words), with the required
  phrase \<open>[3]\<close>: \<open>ex_cbs_new\<close> as \<open>__init__\<close> leaves it, \<open>ex_cbs\<close> after
  \<open>init_constraints\<close>.
\<close>

definition ex_cbs_new :: "(nat list \<times> nat) constrained_beam_search" where
  "ex_cbs_new = constrained_beam_search_init 4 (tree_search_init 1 0 0 0 2 1 0 0.65)"

definition ex_cbs :: "(nat list \<times> nat) constrained_beam_search" where
  "ex_cbs =
     search_init_constraints [([3], 0)] 1 ex_cbs_new"

section \<open>Properties\<close>

subsection \<open>Sorting and top-k\<close>

lemma sort_desc_length [simp]: "length (sort_desc f xs) = length xs"
  by (simp add: sort_desc_def)

lemma sort_desc_set [simp]: "set (sort_desc f xs) = set xs"
  by (simp add: sort_desc_def)

lemma sort_desc_distinct [simp]: "distinct (sort_desc f xs) = distinct xs"
  by (simp add: sort_desc_def)

lemma sort_desc_sorted: "sorted_wrt (\<lambda>a b. f b \<le> f a) (sort_desc f xs)"
proof -
  have "sorted (map f (sort_key f (rev xs)))"
    by (rule sorted_sort_key)
  then have "sorted_wrt (\<lambda>a b. f a \<le> f b) (sort_key f (rev xs))"
    by (simp add: sorted_wrt_map)
  then show ?thesis
    by (simp add: sort_desc_def sorted_wrt_rev)
qed

lemma sorted_wrt_take_drop:
  assumes "sorted_wrt R xs" "a \<in> set (take k xs)" "b \<in> set (drop k xs)"
  shows "R a b"
proof -
  have "sorted_wrt R (take k xs @ drop k xs)"
    using assms(1) by simp
  then show ?thesis
    using assms(2,3) unfolding sorted_wrt_append by blast
qed

lemma topk_spec:
  assumes "k \<le> length xs"
  shows "\<exists>idxs. topk xs k = Inr (map (\<lambda>i. xs ! i) idxs, idxs) \<and> length idxs = k
            \<and> distinct idxs \<and> (\<forall>i\<in>set idxs. i < length xs)
            \<and> sorted_wrt (\<lambda>a b. xs ! b \<le> xs ! a) idxs
            \<and> (\<forall>j<length xs. j \<notin> set idxs \<longrightarrow> (\<forall>i\<in>set idxs. xs ! j \<le> xs ! i))"
proof -
  define srt where "srt = sort_desc (\<lambda>i. xs ! i) [0..<length xs]"
  define idxs where "idxs = take k srt"
  have srt_sorted: "sorted_wrt (\<lambda>a b. xs ! b \<le> xs ! a) srt"
    unfolding srt_def by (rule sort_desc_sorted)
  have srt_set: "set srt = {0..<length xs}" and srt_dist: "distinct srt"
    and srt_len: "length srt = length xs"
    by (simp_all add: srt_def)
  have 1: "topk xs k = Inr (map (\<lambda>i. xs ! i) idxs, idxs)"
    using assms by (simp add: topk_def idxs_def srt_def Let_def)
  have 2: "length idxs = k"
    using assms by (simp add: idxs_def srt_len)
  have 3: "distinct idxs"
    by (simp add: idxs_def srt_dist)
  have 4: "\<forall>i\<in>set idxs. i < length xs"
    using srt_set set_take_subset [of k srt] by (auto simp: idxs_def)
  have 5: "sorted_wrt (\<lambda>a b. xs ! b \<le> xs ! a) idxs"
    unfolding idxs_def using srt_sorted by (rule sorted_wrt_take)
  have 6: "\<forall>j<length xs. j \<notin> set idxs \<longrightarrow> (\<forall>i\<in>set idxs. xs ! j \<le> xs ! i)"
  proof (intro allI impI ballI)
    fix j i
    assume j: "j < length xs" "j \<notin> set idxs" and i: "i \<in> set idxs"
    have "j \<in> set (take k srt @ drop k srt)"
      using j(1) srt_set by simp
    then have "j \<in> set (drop k srt)"
      using j(2) unfolding idxs_def set_append by blast
    then show "xs ! j \<le> xs ! i"
      using sorted_wrt_take_drop [OF srt_sorted, of i k j] i by (simp add: idxs_def)
  qed
  show ?thesis
    using 1 2 3 4 5 6 by blast
qed

subsection \<open>C1: beam selection is the global top-k\<close>

lemma concat_nth_rect:
  assumes "\<forall>row\<in>set xss. length row = V" "i < length xss * V"
  shows "concat xss ! i = xss ! (i div V) ! (i mod V)"
  using assms
proof (induction xss arbitrary: i)
  case Nil
  then show ?case by simp
next
  case (Cons row xss)
  have len: "length row = V" using Cons.prems(1) by simp
  have Vpos: "0 < V" using Cons.prems(2) by (cases V) auto
  show ?case
  proof (cases "i < V")
    case True
    then show ?thesis by (simp add: nth_append len)
  next
    case False
    then have ge: "V \<le> i" by simp
    have "i - V < length xss * V" using Cons.prems(2) ge by simp
    then have IH: "concat xss ! (i - V) = xss ! ((i - V) div V) ! ((i - V) mod V)"
      using Cons.IH Cons.prems(1) by simp
    have d: "i div V = Suc ((i - V) div V)"
      using ge Vpos by (simp add: le_div_geq)
    have m: "i mod V = (i - V) mod V"
      using ge by (simp add: le_mod_geq)
    show ?thesis
      using False IH by (simp add: nth_append len d m)
  qed
qed

lemma length_concat_rect:
  "\<forall>row\<in>set xss. length row = V \<Longrightarrow> length (concat xss) = length xss * V"
  by (induction xss) simp_all

lemma add_prior_spec:
  assumes rect: "\<forall>row\<in>set logprobs. length row = V"
    and shape: "length prior_scores = 1 \<or> length prior_scores = length logprobs"
  shows "\<exists>bs. add_prior logprobs prior_scores = Inr bs \<and> length bs = length logprobs
           \<and> (\<forall>row\<in>set bs. length row = V)
           \<and> (\<forall>r<length logprobs. \<forall>t<V. bs ! r ! t =
                 logprobs ! r ! t + prior_scores ! (if length prior_scores = 1 then 0 else r))"
proof (cases "length prior_scores = 1")
  case True
  then show ?thesis using rect by (simp add: add_prior_def)
next
  case False
  then have eq: "length prior_scores = length logprobs" using shape by simp
  define bs where "bs = map (\<lambda>(row, p). map (\<lambda>x. x + p) row) (zip logprobs prior_scores)"
  have 1: "add_prior logprobs prior_scores = Inr bs"
    using False eq by (simp add: add_prior_def bs_def)
  have 2: "length bs = length logprobs"
    by (simp add: bs_def eq)
  have 3: "\<forall>row\<in>set bs. length row = V"
    using rect by (auto simp: bs_def dest: set_zip_leftD)
  have 4: "\<forall>r<length logprobs. \<forall>t<V. bs ! r ! t = logprobs ! r ! t + prior_scores ! r"
    using rect eq by (simp add: bs_def)
  show ?thesis using 1 2 3 4 False by auto
qed

lemma sort_desc_single [simp]: "sort_desc f [x] = [x]"
  by (simp add: sort_desc_def)

lemma beam_select_paths_flat:
  assumes rect: "\<forall>row\<in>set logprobs. length row = V"
    and shape: "length prior_scores = 1 \<or> length prior_scores = length logprobs"
    and fits: "B \<le> beam_rows logprobs prior_scores * V"
  shows "\<exists>idxs. beam_select_paths B logprobs prior_scores current_length =
             Inr (map (\<lambda>i. i div V) idxs, map (\<lambda>i. i mod V) idxs,
                  map (flat_score logprobs prior_scores V) idxs)
           \<and> length idxs = B \<and> distinct idxs
           \<and> (\<forall>i\<in>set idxs. i < beam_rows logprobs prior_scores * V)
           \<and> sorted_wrt (\<lambda>a b. flat_score logprobs prior_scores V b
                                \<le> flat_score logprobs prior_scores V a) idxs
           \<and> (\<forall>j<beam_rows logprobs prior_scores * V. j \<notin> set idxs \<longrightarrow>
                 (\<forall>i\<in>set idxs. flat_score logprobs prior_scores V j
                                 \<le> flat_score logprobs prior_scores V i))
           \<and> (length prior_scores = 1 \<longrightarrow> (\<forall>i\<in>set idxs. i div V = 0))"
proof -
  define lp1 where "lp1 = (if length prior_scores = 1 then take 1 logprobs else logprobs)"
  define R where "R = beam_rows logprobs prior_scores"
  have R_len: "length lp1 = R"
    by (auto simp: lp1_def R_def beam_rows_def min_def)
  have rect1: "\<forall>row\<in>set lp1. length row = V"
    using rect by (auto simp: lp1_def dest: in_set_takeD)
  have shape1: "length prior_scores = 1 \<or> length prior_scores = length lp1"
    using shape by (auto simp: lp1_def)
  have row_eq: "\<And>r. r < R \<Longrightarrow> lp1 ! r = logprobs ! r"
    by (auto simp: lp1_def R_def beam_rows_def)
  have prior_ix: "\<And>r. r < R \<Longrightarrow>
      prior_scores ! (if length prior_scores = 1 then 0 else r) = prior_scores ! r"
    by (auto simp: R_def beam_rows_def)
  obtain bs where bs: "add_prior lp1 prior_scores = Inr bs" "length bs = R"
      "\<forall>row\<in>set bs. length row = V"
      "\<forall>r<R. \<forall>t<V. bs ! r ! t =
           lp1 ! r ! t + prior_scores ! (if length prior_scores = 1 then 0 else r)"
    using add_prior_spec [OF rect1 shape1] R_len by auto
  have flat_len: "length (concat bs) = R * V"
    using length_concat_rect [OF bs(3)] bs(2) by simp
  have flat: "concat bs ! i = flat_score logprobs prior_scores V i" if "i < R * V" for i
  proof -
    have Vpos: "0 < V" using that by (cases V) auto
    have r: "i div V < R" using that Vpos by (simp add: less_mult_imp_div_less)
    have t: "i mod V < V" using Vpos by simp
    have "concat bs ! i = bs ! (i div V) ! (i mod V)"
      using concat_nth_rect [OF bs(3)] that bs(2) by simp
    also have "\<dots> = lp1 ! (i div V) ! (i mod V)
                    + prior_scores ! (if length prior_scores = 1 then 0 else i div V)"
      using bs(4) r t by blast
    also have "\<dots> = flat_score logprobs prior_scores V i"
      using row_eq [OF r] prior_ix [OF r] by (simp add: flat_score_def)
    finally show ?thesis .
  qed
  have k: "B \<le> length (concat bs)"
    using fits flat_len by (simp add: R_def)
  obtain idxs where ix: "topk (concat bs) B = Inr (map (\<lambda>i. concat bs ! i) idxs, idxs)"
      "length idxs = B" "distinct idxs" "\<forall>i\<in>set idxs. i < length (concat bs)"
      "sorted_wrt (\<lambda>a b. concat bs ! b \<le> concat bs ! a) idxs"
      "\<forall>j<length (concat bs). j \<notin> set idxs \<longrightarrow> (\<forall>i\<in>set idxs. concat bs ! j \<le> concat bs ! i)"
    using topk_spec [OF k] by blast
  have in_range: "\<forall>i\<in>set idxs. i < R * V"
    using ix(4) flat_len by simp
  have map_eq: "map (\<lambda>i. concat bs ! i) idxs = map (flat_score logprobs prior_scores V) idxs"
    using in_range flat by (simp cong: map_cong)
  have voc: "idxs \<noteq> [] \<Longrightarrow> ncols lp1 = V"
  proof -
    assume "idxs \<noteq> []"
    then obtain i where "i \<in> set idxs" by (cases idxs) auto
    then have "i < R * V" using in_range by blast
    then have "0 < R * V" by linarith
    then have "lp1 \<noteq> []" using R_len by auto
    then show "ncols lp1 = V"
      using rect1 by (cases lp1) (simp_all add: ncols_def)
  qed
  have unf: "beam_select_paths B logprobs prior_scores current_length =
      (case add_prior lp1 prior_scores of
         Inl e \<Rightarrow> Inl e
       | Inr beam_scores \<Rightarrow>
           (case topk (concat beam_scores) B of
              Inl e \<Rightarrow> Inl e
            | Inr (best_scores, best_idxs) \<Rightarrow>
                Inr (map (\<lambda>i. i div ncols lp1) best_idxs,
                     map (\<lambda>i. i mod ncols lp1) best_idxs, best_scores)))"
    unfolding beam_select_paths_def Let_def lp1_def by (rule refl)
  have res: "beam_select_paths B logprobs prior_scores current_length =
      Inr (map (\<lambda>i. i div V) idxs, map (\<lambda>i. i mod V) idxs,
           map (flat_score logprobs prior_scores V) idxs)"
  proof (cases "idxs = []")
    case True
    show ?thesis
      unfolding unf using bs(1) ix(1) True by simp
  next
    case False
    show ?thesis
      unfolding unf using bs(1) ix(1) voc [OF False] map_eq by simp
  qed
  have srt: "sorted_wrt (\<lambda>a b. flat_score logprobs prior_scores V b
                               \<le> flat_score logprobs prior_scores V a) idxs"
  proof (rule sorted_wrt_mono_rel [OF _ ix(5)])
    fix a b
    assume "a \<in> set idxs" "b \<in> set idxs" "concat bs ! b \<le> concat bs ! a"
    then show "flat_score logprobs prior_scores V b \<le> flat_score logprobs prior_scores V a"
      using in_range flat by simp
  qed
  have rest: "\<forall>j<R * V. j \<notin> set idxs \<longrightarrow>
      (\<forall>i\<in>set idxs. flat_score logprobs prior_scores V j \<le> flat_score logprobs prior_scores V i)"
    using ix(6) flat in_range flat_len by simp
  have row0: "length prior_scores = 1 \<longrightarrow> (\<forall>i\<in>set idxs. i div V = 0)"
  proof (intro impI ballI)
    fix i
    assume one: "length prior_scores = 1" and i: "i \<in> set idxs"
    have "R \<le> 1" using one by (simp add: R_def beam_rows_def)
    have "i < R * V" using in_range i by blast
    also have "R * V \<le> 1 * V" using \<open>R \<le> 1\<close> by (rule mult_le_mono1)
    finally have "i < V" by simp
    then show "i div V = 0" by simp
  qed
  show ?thesis
    using res ix(2,3) in_range srt rest row0 unfolding R_def by blast
qed

text \<open>
  C1. \<open>BeamSearch.select_paths\<close> on a rectangular (rows x V) tensor, with one prior per
  row or a single prior, and a beam that fits into the flattened score space: the call
  returns, and its three results are read off \<open>B\<close> pairwise different flat
  indices \<open>idxs\<close> of the score space \<open>flat_score\<close> (source slot \<open>i div V\<close>, token
  \<open>i mod V\<close>, score \<open>flat_score i\<close>), in descending order of score, such that no
  flat index left out has a score above a selected one: the global top \<open>B\<close>.
  With a single prior score only row 0 takes part, and every source slot is 0.
\<close>

theorem beam_select_paths_global_topk:
  assumes rect: "\<forall>row\<in>set logprobs. length row = V"
    and shape: "length prior_scores = 1 \<or> length prior_scores = length logprobs"
    and fits: "B \<le> beam_rows logprobs prior_scores * V"
  shows "\<exists>idxs. beam_select_paths B logprobs prior_scores current_length =
             Inr (map (\<lambda>i. i div V) idxs, map (\<lambda>i. i mod V) idxs,
                  map (flat_score logprobs prior_scores V) idxs)
           \<and> length idxs = B \<and> distinct idxs
           \<and> (\<forall>i\<in>set idxs. i < beam_rows logprobs prior_scores * V)
           \<and> sorted_wrt (\<lambda>a b. flat_score logprobs prior_scores V b
                                \<le> flat_score logprobs prior_scores V a) idxs
           \<and> (\<forall>j<beam_rows logprobs prior_scores * V. j \<notin> set idxs \<longrightarrow>
                 (\<forall>i\<in>set idxs. flat_score logprobs prior_scores V j
                                 \<le> flat_score logprobs prior_scores V i))
           \<and> (length prior_scores = 1 \<longrightarrow> (\<forall>i\<in>set idxs. i div V = 0))"
  using assms by (rule beam_select_paths_flat)

theorem beam_select_paths_global_topk_witness:
  "\<exists>idxs. beam_select_paths 2 toy_logprobs toy_prior 1 =
             Inr (map (\<lambda>i. i div 3) idxs, map (\<lambda>i. i mod 3) idxs,
                  map (flat_score toy_logprobs toy_prior 3) idxs)
           \<and> length idxs = 2 \<and> distinct idxs
           \<and> (\<forall>i\<in>set idxs. i < beam_rows toy_logprobs toy_prior * 3)
           \<and> sorted_wrt (\<lambda>a b. flat_score toy_logprobs toy_prior 3 b
                                \<le> flat_score toy_logprobs toy_prior 3 a) idxs
           \<and> (\<forall>j<beam_rows toy_logprobs toy_prior * 3. j \<notin> set idxs \<longrightarrow>
                 (\<forall>i\<in>set idxs. flat_score toy_logprobs toy_prior 3 j
                                 \<le> flat_score toy_logprobs toy_prior 3 i))
           \<and> (length toy_prior = 1 \<longrightarrow> (\<forall>i\<in>set idxs. i div 3 = 0))"
proof -
  have rect: "\<forall>row\<in>set toy_logprobs. length row = 3"
    by (simp add: toy_logprobs_def)
  have shape: "length toy_prior = 1 \<or> length toy_prior = length toy_logprobs"
    by (simp add: toy_prior_def toy_logprobs_def)
  have fits: "2 \<le> beam_rows toy_logprobs toy_prior * 3"
    by (simp add: beam_rows_def toy_prior_def toy_logprobs_def)
  show ?thesis
    by (rule beam_select_paths_global_topk [OF rect shape fits])
qed

lemma upt_2 [simp]: "[0..<2] = [0, 1]" and upt_3: "[0..<3] = [0, 1, 2]"
  and upt_6: "[0..<6] = [0, 1, 2, 3, 4, 5]"
  by (simp_all add: upt_rec)

lemma beam_toy_brute_force:
  "beam_select_paths 2 toy_logprobs toy_prior 1 = Inr ([0, 0], [0, 1], [Fin (-2), Fin (-3)])"
  by (simp add: beam_select_paths_def add_prior_def topk_def sort_desc_def ncols_def
      toy_logprobs_def toy_prior_def upt_6)

subsection \<open>Masking only lowers entries to minus infinity\<close>

lemma masked_refl [simp]: "masked t t"
  by (simp add: masked_def)

lemma masked_trans: "masked t t1 \<Longrightarrow> masked t1 t2 \<Longrightarrow> masked t t2"
  unfolding masked_def by (metis (no_types, lifting))

lemma masked_length: "masked t t' \<Longrightarrow> length t' = length t"
  by (simp add: masked_def)

lemma masked_row_length: "masked t t' \<Longrightarrow> r < length t \<Longrightarrow> length (t' ! r) = length (t ! r)"
  by (simp add: masked_def)

lemma masked_neginf:
  "masked t t' \<Longrightarrow> r < length t \<Longrightarrow> c < length (t ! r) \<Longrightarrow> t ! r ! c = NegInf
    \<Longrightarrow> t' ! r ! c = NegInf"
  unfolding masked_def by metis

lemma masked_rect: "masked t t' \<Longrightarrow> rect V t \<Longrightarrow> rect V t'"
  unfolding masked_def rect_def by (metis in_set_conv_nth)

lemma set_neginf_masked:
  assumes "set_neginf t r c = Inr t'"
  shows "masked t t'" and "r < length t" and "c < length (t ! r)" and "t' ! r ! c = NegInf"
proof -
  have rc: "r < length t \<and> c < length (t ! r)" and t': "t' = t[r := (t ! r)[c := NegInf]]"
    using assms by (auto simp: set_neginf_def split: if_splits)
  show "r < length t" "c < length (t ! r)" using rc by simp_all
  show "t' ! r ! c = NegInf" using rc t' by simp
  show "masked t t'"
    unfolding masked_def t' using rc by (auto simp: nth_list_update)
qed

lemma mask_tokens_masked: "mask_tokens t r cs = Inr t' \<Longrightarrow> masked t t'"
proof (induction cs arbitrary: t)
  case Nil
  then show ?case by simp
next
  case (Cons c cs)
  then obtain t1 where 1: "set_neginf t r c = Inr t1" and 2: "mask_tokens t1 r cs = Inr t'"
    by (auto split: sum.splits)
  show ?case
    using masked_trans [OF set_neginf_masked(1) [OF 1] Cons.IH [OF 2]] .
qed

lemma penalize_eos_rows_spec:
  "penalize_eos_rows t e rs = Inr t' \<Longrightarrow>
     masked t t' \<and> (\<forall>r\<in>set rs. r < length t \<and> e < length (t ! r) \<and> t' ! r ! e = NegInf)"
proof (induction rs arbitrary: t)
  case Nil
  then show ?case by simp
next
  case (Cons r rs)
  then obtain t1 where 1: "set_neginf t r e = Inr t1" and 2: "penalize_eos_rows t1 e rs = Inr t'"
    by (auto split: sum.splits)
  note m1 = set_neginf_masked [OF 1]
  have IH: "masked t1 t'" "\<forall>r\<in>set rs. r < length t1 \<and> e < length (t1 ! r) \<and> t' ! r ! e = NegInf"
    using Cons.IH [OF 2] by simp_all
  have len: "length t1 = length t" using m1(1) by (rule masked_length)
  have "t' ! r ! e = NegInf"
    using masked_neginf [OF IH(1), of r e] m1 len masked_row_length [OF m1(1), of r] by simp
  moreover have "\<forall>r'\<in>set rs. r' < length t \<and> e < length (t ! r') \<and> t' ! r' ! e = NegInf"
    using IH(2) len masked_row_length [OF m1(1)] by auto
  ultimately show ?case
    using m1 masked_trans [OF m1(1) IH(1)] by simp
qed

lemma min_length_guard_spec:
  assumes "min_length_guard s t = Inr t'"
  shows "masked t t'"
    and "current_length_of s < min_length s \<Longrightarrow>
           \<forall>r<length t. eos s < length (t ! r) \<and> t' ! r ! eos s = NegInf"
    and "\<not> current_length_of s < min_length s \<Longrightarrow> t' = t"
  using assms penalize_eos_rows_spec [of t "eos s" "[0..<length t]" t']
  by (auto simp: min_length_guard_def split: if_splits)

lemma block_ngrams_loop_masked:
  "block_ngrams_loop n src t b hyps = Inr t' \<Longrightarrow> masked t t'"
proof (induction hyps arbitrary: t b)
  case Nil
  then show ?case by simp
next
  case (Cons hyp hyps)
  show ?case
  proof (cases "int (length hyp) < int n - 1")
    case True
    then show ?thesis using Cons by simp
  next
    case False
    then obtain ts t1 where 1: "mask_tokens t b ts = Inr t1"
      and 2: "block_ngrams_loop n src t1 (Suc b) hyps = Inr t'"
      using Cons.prems by (auto simp: Let_def split: sum.splits)
    show ?thesis
      using masked_trans [OF mask_tokens_masked [OF 1] Cons.IH [OF 2]] .
  qed
qed

lemma block_list_items_masked:
  "block_list_items t b hyp items = Inr t' \<Longrightarrow> masked t t'"
proof (induction items arbitrary: t)
  case Nil
  then show ?case by simp
next
  case (Cons item items)
  obtain n bad where item: "item = (n, bad)" by (cases item)
  obtain ts t1 where 1: "mask_tokens t b ts = Inr t1"
    and 2: "block_list_items t1 b hyp items = Inr t'"
    using Cons.prems unfolding item by (auto simp: Let_def split: sum.splits)
  show ?case
    using masked_trans [OF mask_tokens_masked [OF 1] Cons.IH [OF 2]] .
qed

lemma block_list_loop_masked:
  "block_list_loop items t b hyps = Inr t' \<Longrightarrow> masked t t'"
proof (induction hyps arbitrary: t b)
  case Nil
  then show ?case by simp
next
  case (Cons hyp hyps)
  then obtain t1 where 1: "block_list_items t b hyp items = Inr t1"
    and 2: "block_list_loop items t1 (Suc b) hyps = Inr t'"
    by (auto split: sum.splits)
  show ?case
    using masked_trans [OF block_list_items_masked [OF 1] Cons.IH [OF 2]] .
qed

lemma block_all_masked:
  assumes "block_all s t = Inr t'"
  shows "masked t t'"
proof -
  obtain t1 t2 where 1: "(if block_ngram s > 0 then block_ngrams s (nat (block_ngram s)) t None
                          else Inr t) = Inr t1"
    and 2: "block_block_list s t1 = Inr t2"
    and 3: "(if context_block_ngram s > 0
               then (case context_toks s of None \<Rightarrow> Inl ValueError
                     | Some c \<Rightarrow> block_ngrams s (nat (context_block_ngram s)) t2 (Some c))
             else Inr t2) = Inr t'"
    using assms unfolding block_all_def by (auto split: sum.splits)
  have m1: "masked t t1"
    using 1 block_ngrams_loop_masked by (auto simp: block_ngrams_def split: if_splits)
  have m2: "masked t1 t2"
    using 2 block_list_loop_masked by (auto simp: block_block_list_def split: option.splits)
  have m3: "masked t2 t'"
    using 3 block_ngrams_loop_masked
    by (auto simp: block_ngrams_def split: if_splits option.splits)
  show ?thesis
    using masked_trans [OF masked_trans [OF m1 m2] m3] .
qed

subsection \<open>The stages of advance\<close>

lemma advanceE:
  assumes "advance sel s lp = Inr (s', t)"
  obtains t0 prior hyp_ids tok_ids sc hyps fin where
    "min_length_guard s lp = Inr t0"
    "outputs s \<noteq> []"
    "penalize_scores (eos s) 0 (last (outputs s))
       (case scores s of None \<Rightarrow> [Fin 0] | Some sc0 \<Rightarrow> sc0) = Inr prior"
    "block_all s t0 = Inr t"
    "sel t prior (current_length_of s) = Inr (hyp_ids, tok_ids, sc)"
    "extend_hyps (partial_hyps s) hyp_ids tok_ids [0..<beam_size s] = Inr hyps"
    "collect_finished (eos s) (length (outputs s)) tok_ids sc [0..<beam_size s] (finished s)
       = Inr fin"
    "tok_ids \<noteq> []"
    "s' = s\<lparr> scores := Some sc,
             all_scores := all_scores s @ [sc],
             outputs := outputs s @ [tok_ids],
             bookkeep := bookkeep s @ [hyp_ids],
             partial_hyps := hyps,
             finished := fin,
             n_best_counter := n_best_counter s + (length fin - length (finished s)),
             eos_top := (eos_top s \<or> tok_ids ! 0 = eos s),
             eos_top_ts := (if tok_ids ! 0 = eos s \<and> eos_top_ts s = None
                            then Some (length (outputs s)) else eos_top_ts s) \<rparr>"
  using assms unfolding advance_def Let_def
  by (auto split: sum.splits list.splits prod.splits if_splits)

lemma advance_frame:
  assumes "advance sel s lp = Inr (s', t)"
  shows "beam_size s' = beam_size s" "min_length s' = min_length s" "eos s' = eos s"
    "bos s' = bos s" "length_penalty s' = length_penalty s" "block_ngram s' = block_ngram s"
    "context_block_ngram s' = context_block_ngram s" "context_toks s' = context_toks s"
    "block_list s' = block_list s" "pad s' = pad s"
  using assms by (auto elim!: advanceE)

lemma advance_histories:
  assumes "advance sel s lp = Inr (s', t)"
  shows "length (all_scores s') = Suc (length (all_scores s))"
    "length (outputs s') = Suc (length (outputs s))"
    "length (bookkeep s') = Suc (length (bookkeep s))"
    "butlast (outputs s') = outputs s" "butlast (all_scores s') = all_scores s"
    "butlast (bookkeep s') = bookkeep s" "scores s' = Some (last (all_scores s'))"
  using assms by (auto elim!: advanceE)

lemma advance_masked:
  assumes "advance sel s lp = Inr (s', t)"
  shows "masked lp t"
proof -
  from assms obtain t0 where "min_length_guard s lp = Inr t0" "block_all s t0 = Inr t"
    by (auto elim!: advanceE)
  then show ?thesis
    using masked_trans [OF min_length_guard_spec(1) block_all_masked] by blast
qed

lemma advance_all_frame:
  "advance_all sel s lps = Inr s' \<Longrightarrow>
     beam_size s' = beam_size s \<and> min_length s' = min_length s \<and> eos s' = eos s
     \<and> bos s' = bos s \<and> length_penalty s' = length_penalty s
     \<and> length (all_scores s') = length (all_scores s) + length lps
     \<and> length (bookkeep s') = length (bookkeep s) + length lps"
proof (induction lps arbitrary: s)
  case Nil
  then show ?case by simp
next
  case (Cons lp lps)
  then obtain s1 t where 1: "advance sel s lp = Inr (s1, t)" and 2: "advance_all sel s1 lps = Inr s'"
    by (auto split: sum.splits)
  show ?case
    using Cons.IH [OF 2] advance_frame [OF 1] advance_histories(1,3) [OF 1] by simp
qed

lemma extend_hyps_spec:
  "extend_hyps hyps hyp_ids tok_ids is = Inr res \<Longrightarrow>
     length res = length is
     \<and> (\<forall>i\<in>set is. i < length hyp_ids \<and> hyp_ids ! i < length hyps \<and> i < length tok_ids)"
  by (induction "is" arbitrary: res) (auto split: if_splits sum.splits)

subsection \<open>The beam policy meets the contract\<close>

lemma topk_Inr_length: "topk xs k = Inr r \<Longrightarrow> k \<le> length xs"
  by (auto simp: topk_def split: if_splits)

lemma add_prior_Inr_shape:
  "add_prior t prior = Inr bs \<Longrightarrow> length prior = 1 \<or> length prior = length t"
  by (auto simp: add_prior_def split: if_splits)

lemma beam_select_paths_pre:
  assumes rect: "\<forall>row\<in>set t. length row = V"
    and res: "beam_select_paths B t prior cl = Inr r"
  shows "length prior = 1 \<or> length prior = length t" and "B \<le> beam_rows t prior * V"
proof -
  define lp1 where "lp1 = (if length prior = 1 then take 1 t else t)"
  have unf: "beam_select_paths B t prior cl =
      (case add_prior lp1 prior of
         Inl e \<Rightarrow> Inl e
       | Inr beam_scores \<Rightarrow>
           (case topk (concat beam_scores) B of
              Inl e \<Rightarrow> Inl e
            | Inr (best_scores, best_idxs) \<Rightarrow>
                Inr (map (\<lambda>i. i div ncols lp1) best_idxs,
                     map (\<lambda>i. i mod ncols lp1) best_idxs, best_scores)))"
    unfolding beam_select_paths_def Let_def lp1_def by (rule refl)
  obtain bs r' where bs: "add_prior lp1 prior = Inr bs" and tk: "topk (concat bs) B = Inr r'"
    using res unfolding unf by (auto split: sum.splits)
  have shape1: "length prior = 1 \<or> length prior = length lp1"
    using add_prior_Inr_shape [OF bs] .
  then show shape: "length prior = 1 \<or> length prior = length t"
    by (auto simp: lp1_def split: if_splits)
  have rect1: "\<forall>row\<in>set lp1. length row = V"
    using rect by (auto simp: lp1_def dest: in_set_takeD)
  obtain bs' where bs': "add_prior lp1 prior = Inr bs'" "length bs' = length lp1"
      "\<forall>row\<in>set bs'. length row = V"
    using add_prior_spec [OF rect1 shape1] by blast
  have "bs' = bs" using bs bs'(1) by simp
  then have "length (concat bs) = length lp1 * V"
    using length_concat_rect [OF bs'(3)] bs'(2) by simp
  moreover have "length lp1 = beam_rows t prior"
    by (auto simp: lp1_def beam_rows_def min_def)
  ultimately show "B \<le> beam_rows t prior * V"
    using topk_Inr_length [OF tk] by simp
qed

text \<open>
  What \<open>BeamSearch.select_paths\<close> returns on a rectangular tensor: three results of
  one length, each naming a row and a token of the tensor, with the score of that
  entry plus the prior of the row.
\<close>

lemma beam_select_paths_contract:
  assumes r: "rect V t" and res: "beam_select_paths B t prior cl = Inr (hyp_ids, tok_ids, sc)"
  shows "length hyp_ids = length sc \<and> length tok_ids = length sc \<and>
        (\<forall>i<length sc.
           (length prior = 1 \<or> hyp_ids ! i < length prior) \<and>
           hyp_ids ! i < length t \<and> tok_ids ! i < V \<and>
           sc ! i = t ! (hyp_ids ! i) ! (tok_ids ! i)
                    + prior ! (if length prior = 1 then 0 else hyp_ids ! i))"
proof -
  have rect: "\<forall>row\<in>set t. length row = V" using r by (simp add: rect_def)
  note pre = beam_select_paths_pre [OF rect res]
  obtain idxs where ix:
      "beam_select_paths B t prior cl =
         Inr (map (\<lambda>i. i div V) idxs, map (\<lambda>i. i mod V) idxs, map (flat_score t prior V) idxs)"
      "\<forall>i\<in>set idxs. i < beam_rows t prior * V"
      "length prior = 1 \<longrightarrow> (\<forall>i\<in>set idxs. i div V = 0)"
    using beam_select_paths_flat [OF rect pre, of cl] by blast
  have h: "hyp_ids = map (\<lambda>i. i div V) idxs" and tk: "tok_ids = map (\<lambda>i. i mod V) idxs"
    and s: "sc = map (flat_score t prior V) idxs"
    using res ix(1) by simp_all
  have each: "(length prior = 1 \<or> hyp_ids ! i < length prior) \<and>
             hyp_ids ! i < length t \<and> tok_ids ! i < V \<and>
             sc ! i = t ! (hyp_ids ! i) ! (tok_ids ! i)
                      + prior ! (if length prior = 1 then 0 else hyp_ids ! i)"
    if i: "i < length sc" for i
  proof -
    have il: "i < length idxs" using i s by simp
    define j where "j = idxs ! i"
    have jin: "j \<in> set idxs" using il by (simp add: j_def)
    have jlt: "j < beam_rows t prior * V" using ix(2) jin by blast
    have Vpos: "0 < V" using jlt by (cases V) auto
    have row: "j div V < beam_rows t prior"
      using jlt Vpos by (simp add: less_mult_imp_div_less)
    have rows_le: "beam_rows t prior \<le> length t"
      by (simp add: beam_rows_def)
    have hi: "hyp_ids ! i = j div V" and ti: "tok_ids ! i = j mod V"
      and si: "sc ! i = flat_score t prior V j"
      using il by (simp_all add: h tk s j_def)
    have p: "length prior = 1 \<or> j div V < length prior"
      using pre(1) row rows_le by auto
    have px: "prior ! (if length prior = 1 then 0 else j div V) = prior ! (j div V)"
      using ix(3) jin by auto
    have "sc ! i = t ! (hyp_ids ! i) ! (tok_ids ! i)
                      + prior ! (if length prior = 1 then 0 else hyp_ids ! i)"
      unfolding hi ti si flat_score_def px by (rule refl)
    then show ?thesis
      using p row rows_le Vpos by (simp add: hi ti)
  qed
  show ?thesis
    using each by (simp add: h tk s)
qed

lemma beam_additive: "additive (beam_select_paths B)"
  unfolding additive_def
proof (intro allI impI)
  fix V t prior cl hyp_ids tok_ids sc i
  assume r: "rect V t" and res: "beam_select_paths B t prior cl = Inr (hyp_ids, tok_ids, sc)"
    and i: "i < length sc"
  show "(length prior = 1 \<or> hyp_ids ! i < length prior) \<and>
        hyp_ids ! i < length t \<and> tok_ids ! i < V \<and>
        sc ! i = t ! (hyp_ids ! i) ! (tok_ids ! i)
                 + prior ! (if length prior = 1 then 0 else hyp_ids ! i)"
    using beam_select_paths_contract [OF r res] i by blast
qed

subsection \<open>The contract of GreedySearch\<close>

lemma argmax_from_spec:
  "argmax_from best bi i xs = (v, j) \<Longrightarrow>
     (v = best \<and> j = bi) \<or> (i \<le> j \<and> j < i + length xs \<and> v = xs ! (j - i))"
proof (induction xs arbitrary: best bi i)
  case Nil
  then show ?case by simp
next
  case (Cons x xs)
  show ?case
  proof (cases "best < x")
    case True
    then have "argmax_from x i (Suc i) xs = (v, j)"
      using Cons.prems by simp
    from Cons.IH [OF this] show ?thesis
      by (auto simp: nth_Cons')
  next
    case False
    then have "argmax_from best bi (Suc i) xs = (v, j)"
      using Cons.prems by simp
    from Cons.IH [OF this] show ?thesis
      by (auto simp: nth_Cons')
  qed
qed

lemma row_max_spec:
  assumes "row_max row = Inr (v, j)"
  shows "v = row ! j"
proof -
  obtain x xs where row: "row = x # xs" and a: "argmax_from x 0 1 xs = (v, j)"
    using assms unfolding row_max_def by (auto split: list.splits)
  from argmax_from_spec [OF a] show ?thesis
    unfolding row by (auto simp: nth_Cons split: nat.splits)
qed

lemma rows_max_spec:
  "rows_max t = Inr (vs, js) \<Longrightarrow>
     length vs = length t \<and> length js = length t \<and> (\<forall>r<length t. vs ! r = t ! r ! (js ! r))"
proof (induction t arbitrary: vs js)
  case Nil
  then show ?case by simp
next
  case (Cons row rows)
  obtain v j vs' js' where 1: "row_max row = Inr (v, j)" and 2: "rows_max rows = Inr (vs', js')"
    and 3: "vs = v # vs'" "js = j # js'"
    using Cons.prems by (auto split: sum.splits prod.splits)
  have ih: "length vs' = length rows" "length js' = length rows"
    "\<forall>r<length rows. vs' ! r = rows ! r ! (js' ! r)"
    using Cons.IH [OF 2] by simp_all
  show ?case
    using ih row_max_spec [OF 1] by (auto simp: 3 nth_Cons split: nat.splits)
qed

lemma argmax_from_bound:
  "argmax_from best bi i xs = (v, j) \<Longrightarrow> j = bi \<or> (i \<le> j \<and> j < i + length xs)"
  using argmax_from_spec by blast

lemma row_max_bound:
  assumes "row_max row = Inr (v, j)"
  shows "j < length row"
proof -
  obtain x xs where row: "row = x # xs" and a: "argmax_from x 0 1 xs = (v, j)"
    using assms unfolding row_max_def by (auto split: list.splits)
  from argmax_from_bound [OF a] show ?thesis
    unfolding row by auto
qed

lemma rows_max_bound:
  "rows_max t = Inr (vs, js) \<Longrightarrow> \<forall>r<length t. js ! r < length (t ! r)"
proof (induction t arbitrary: vs js)
  case Nil
  then show ?case by simp
next
  case (Cons row rows)
  obtain v j vs' js' where 1: "row_max row = Inr (v, j)" and 2: "rows_max rows = Inr (vs', js')"
    and 3: "vs = v # vs'" "js = j # js'"
    using Cons.prems by (auto split: sum.splits prod.splits)
  show ?case
    using Cons.IH [OF 2] row_max_bound [OF 1] by (auto simp: 3 nth_Cons split: nat.splits)
qed

lemma greedy_additive: "additive greedy_select_paths"
  unfolding additive_def
proof (intro allI impI)
  fix V t prior cl hyp_ids tok_ids sc i
  assume r: "rect V t" and res: "greedy_select_paths t prior cl = Inr (hyp_ids, tok_ids, sc)"
    and ih: "i < length hyp_ids" and it: "i < length tok_ids" and isc: "i < length sc"
  obtain vs where rm: "rows_max t = Inr (vs, tok_ids)" and ba: "broadcast_add vs prior = Inr sc"
    and h: "hyp_ids = [0..<length t]"
    using res unfolding greedy_select_paths_def by (auto split: sum.splits prod.splits)
  have lv: "length vs = length t" and el: "\<forall>r<length t. vs ! r = t ! r ! (tok_ids ! r)"
    using rows_max_spec [OF rm] by simp_all
  have i: "i < length t"
    using ih h by simp
  have hi: "hyp_ids ! i = i"
    using i h by simp
  have tv: "tok_ids ! i < V"
    using rows_max_bound [OF rm] i r unfolding rect_def by (metis nth_mem)
  have vi: "vs ! i = t ! i ! (tok_ids ! i)"
    using el i by simp
  consider (same) "length vs = length prior"
    | (one_prior) "length vs \<noteq> length prior" "length prior = 1"
    | (one_row) "length vs \<noteq> length prior" "length prior \<noteq> 1" "length vs = 1"
    using ba unfolding broadcast_add_def by (auto split: if_splits)
  then have "(length prior = 1 \<or> i < length prior)
      \<and> sc ! i = vs ! i + prior ! (if length prior = 1 then 0 else i)"
  proof cases
    case same
    then have "sc = map (\<lambda>(x, y). x + y) (zip vs prior)"
      using ba unfolding broadcast_add_def by simp
    then have "sc ! i = vs ! i + prior ! i"
      using i lv same by simp
    moreover have "length prior = 1 \<longrightarrow> i = 0"
      using i lv same by simp
    ultimately show ?thesis
      using i lv same by auto
  next
    case one_prior
    then have "sc = map (\<lambda>x. x + prior ! 0) vs"
      using ba unfolding broadcast_add_def by simp
    then show ?thesis
      using i lv one_prior by simp
  next
    case one_row
    then have sc: "sc = map (\<lambda>y. vs ! 0 + y) prior"
      using ba unfolding broadcast_add_def by simp
    have i0: "i = 0"
      using i lv one_row by simp
    then show ?thesis
      using isc sc one_row by simp
  qed
  then show "(length prior = 1 \<or> hyp_ids ! i < length prior) \<and>
        hyp_ids ! i < length t \<and> tok_ids ! i < V \<and>
        sc ! i = t ! (hyp_ids ! i) ! (tok_ids ! i)
                 + prior ! (if length prior = 1 then 0 else hyp_ids ! i)"
    using i tv vi by (simp add: hi)
qed

subsection \<open>The entries that advance masks\<close>

lemma masked_at_none: "masked_at (\<lambda>r c. False) t t"
  by (simp add: masked_at_def)

lemma masked_at_cong:
  assumes "masked_at P t t'"
    and "\<And>r c. r < length t \<Longrightarrow> c < length (t ! r) \<Longrightarrow> P r c = Q r c"
  shows "masked_at Q t t'"
  using assms unfolding masked_at_def by simp

lemma masked_at_trans:
  assumes "masked_at P t t1" and "masked_at Q t1 t2"
  shows "masked_at (\<lambda>r c. P r c \<or> Q r c) t t2"
  using assms unfolding masked_at_def by auto

lemma masked_at_masked: "masked_at P t t' \<Longrightarrow> masked t t'"
  unfolding masked_at_def masked_def by auto

lemma set_neginf_at:
  assumes "set_neginf t r c = Inr t'"
  shows "masked_at (\<lambda>r' c'. r' = r \<and> c' = c) t t'"
proof -
  have rc: "r < length t" "c < length (t ! r)" and t': "t' = t[r := (t ! r)[c := NegInf]]"
    using assms unfolding set_neginf_def by (auto split: if_splits)
  show ?thesis
    unfolding masked_at_def t' using rc by (auto simp: nth_list_update)
qed

lemma mask_tokens_at:
  "mask_tokens t r cs = Inr t' \<Longrightarrow> masked_at (\<lambda>r' c'. r' = r \<and> c' \<in> set cs) t t'"
proof (induction cs arbitrary: t)
  case Nil
  then show ?case by (simp add: masked_at_def)
next
  case (Cons c cs)
  then obtain t1 where 1: "set_neginf t r c = Inr t1" and 2: "mask_tokens t1 r cs = Inr t'"
    by (auto split: sum.splits)
  have "masked_at (\<lambda>r' c'. (r' = r \<and> c' = c) \<or> (r' = r \<and> c' \<in> set cs)) t t'"
    using set_neginf_at [OF 1] Cons.IH [OF 2] by (rule masked_at_trans)
  then show ?case
    by (rule masked_at_cong) auto
qed

lemma penalize_eos_rows_at:
  "penalize_eos_rows t e rs = Inr t' \<Longrightarrow> masked_at (\<lambda>r c. r \<in> set rs \<and> c = e) t t'"
proof (induction rs arbitrary: t)
  case Nil
  then show ?case by (simp add: masked_at_def)
next
  case (Cons r rs)
  then obtain t1 where 1: "set_neginf t r e = Inr t1" and 2: "penalize_eos_rows t1 e rs = Inr t'"
    by (auto split: sum.splits)
  have "masked_at (\<lambda>r' c'. (r' = r \<and> c' = e) \<or> (r' \<in> set rs \<and> c' = e)) t t'"
    using set_neginf_at [OF 1] Cons.IH [OF 2] by (rule masked_at_trans)
  then show ?case
    by (rule masked_at_cong) auto
qed

lemma min_length_guard_at:
  assumes "min_length_guard s lp = Inr t0"
  shows "masked_at (\<lambda>r c. current_length_of s < min_length s \<and> c = eos s) lp t0"
proof (cases "current_length_of s < min_length s")
  case True
  then have "penalize_eos_rows lp (eos s) [0..<length lp] = Inr t0"
    using assms unfolding min_length_guard_def by simp
  from penalize_eos_rows_at [OF this] show ?thesis
    by (rule masked_at_cong) (use True in simp)
next
  case False
  then have "t0 = lp"
    using assms unfolding min_length_guard_def by simp
  then show ?thesis
    using False by (simp add: masked_at_def)
qed

lemma banned_tokens_Inr:
  "banned_tokens n prefix ngrams = Inr ts \<Longrightarrow>
     ts = map last (filter (\<lambda>g. n = 1 \<or> prefix = butlast g) ngrams)"
  by (induction ngrams arbitrary: ts) (auto split: if_splits sum.splits)

lemma block_ngrams_loop_at:
  "block_ngrams_loop n source t beam_id hyps = Inr t' \<Longrightarrow>
     masked_at (\<lambda>r c. beam_id \<le> r \<and> r < beam_id + length hyps
                      \<and> ngram_blocked n source (hyps ! (r - beam_id)) c) t t'"
proof (induction hyps arbitrary: t beam_id)
  case Nil
  then show ?case by (auto simp: masked_at_def)
next
  case (Cons hyp hyps)
  let ?Q = "\<lambda>r c. Suc beam_id \<le> r \<and> r < Suc beam_id + length hyps
                  \<and> ngram_blocked n source (hyps ! (r - Suc beam_id)) c"
  have shift: "(hyp # hyps) ! (r - beam_id) = hyps ! (r - Suc beam_id)" if "Suc beam_id \<le> r" for r
    using that by (simp add: nth_Cons' Suc_le_eq)
  show ?case
  proof (cases "int (length hyp) < int n - 1")
    case True
    then have "block_ngrams_loop n source t (Suc beam_id) hyps = Inr t'"
      using Cons.prems by simp
    from Cons.IH [OF this] show ?thesis
    proof (rule masked_at_cong)
      fix r c
      show "?Q r c = (beam_id \<le> r \<and> r < beam_id + length (hyp # hyps)
                      \<and> ngram_blocked n source ((hyp # hyps) ! (r - beam_id)) c)"
      proof (cases "r = beam_id")
        case True
        then show ?thesis
          using \<open>int (length hyp) < int n - 1\<close> by (simp add: ngram_blocked_def)
      next
        case False
        then show ?thesis
          using shift [of r] by auto
      qed
    qed
  next
    case False
    define ts where "ts = banned_by n hyp
        (find_ngrams (case source of None \<Rightarrow> hyp | Some src \<Rightarrow> src) n)"
    obtain ts' t1 where b: "banned_tokens n (slice_from_neg (int n - 1) hyp)
          (find_ngrams (case source of None \<Rightarrow> hyp | Some src \<Rightarrow> src) n) = Inr ts'"
      and m: "mask_tokens t beam_id ts' = Inr t1"
      and rest: "block_ngrams_loop n source t1 (Suc beam_id) hyps = Inr t'"
      using Cons.prems False by (auto simp: Let_def split: sum.splits)
    have ts': "ts' = ts"
      using banned_tokens_Inr [OF b] by (simp add: ts_def banned_by_def)
    have "masked_at (\<lambda>r c. (r = beam_id \<and> c \<in> set ts) \<or> ?Q r c) t t'"
      using mask_tokens_at [OF m [unfolded ts']] Cons.IH [OF rest] by (rule masked_at_trans)
    then show ?thesis
    proof (rule masked_at_cong)
      fix r c
      show "((r = beam_id \<and> c \<in> set ts) \<or> ?Q r c)
          = (beam_id \<le> r \<and> r < beam_id + length (hyp # hyps)
               \<and> ngram_blocked n source ((hyp # hyps) ! (r - beam_id)) c)"
      proof (cases "r = beam_id")
        case True
        then show ?thesis
          using False by (simp add: ngram_blocked_def ts_def)
      next
        case False
        then show ?thesis
          using shift [of r] by auto
      qed
    qed
  qed
qed

lemma block_ngrams_at:
  assumes "block_ngrams s n t source = Inr t'"
  shows "masked_at (\<lambda>r c. r < length (partial_hyps s)
                       \<and> ngram_blocked n source (partial_hyps s ! r) c) t t'"
  using block_ngrams_loop_at [OF assms [unfolded block_ngrams_def]]
  by (rule masked_at_cong) simp

lemma block_list_items_at:
  "block_list_items t beam_id hyp items = Inr t' \<Longrightarrow>
     masked_at (\<lambda>r c. r = beam_id \<and> list_blocked items hyp c) t t'"
proof (induction items arbitrary: t)
  case Nil
  then show ?case by (simp add: masked_at_def list_blocked_def)
next
  case (Cons item items)
  obtain n bad where item: "item = (n, bad)"
    by (cases item) auto
  obtain ts t1 where b: "banned_tokens n (slice_from_neg (int n - 1) hyp) bad = Inr ts"
    and m: "mask_tokens t beam_id ts = Inr t1"
    and rest: "block_list_items t1 beam_id hyp items = Inr t'"
    using Cons.prems unfolding item by (auto simp: Let_def split: sum.splits)
  have ts: "ts = banned_by n hyp bad"
    using banned_tokens_Inr [OF b] by (simp add: banned_by_def)
  have "masked_at (\<lambda>r c. (r = beam_id \<and> c \<in> set ts)
                        \<or> (r = beam_id \<and> list_blocked items hyp c)) t t'"
    using mask_tokens_at [OF m] Cons.IH [OF rest] by (rule masked_at_trans)
  then show ?case
    by (rule masked_at_cong) (auto simp: list_blocked_def item ts)
qed

lemma block_list_loop_at:
  "block_list_loop items t beam_id hyps = Inr t' \<Longrightarrow>
     masked_at (\<lambda>r c. beam_id \<le> r \<and> r < beam_id + length hyps
                      \<and> list_blocked items (hyps ! (r - beam_id)) c) t t'"
proof (induction hyps arbitrary: t beam_id)
  case Nil
  then show ?case by (auto simp: masked_at_def)
next
  case (Cons hyp hyps)
  let ?Q = "\<lambda>r c. Suc beam_id \<le> r \<and> r < Suc beam_id + length hyps
                  \<and> list_blocked items (hyps ! (r - Suc beam_id)) c"
  have shift: "(hyp # hyps) ! (r - beam_id) = hyps ! (r - Suc beam_id)" if "Suc beam_id \<le> r" for r
    using that by (simp add: nth_Cons' Suc_le_eq)
  obtain t1 where 1: "block_list_items t beam_id hyp items = Inr t1"
    and 2: "block_list_loop items t1 (Suc beam_id) hyps = Inr t'"
    using Cons.prems by (auto split: sum.splits)
  have "masked_at (\<lambda>r c. (r = beam_id \<and> list_blocked items hyp c) \<or> ?Q r c) t t'"
    using block_list_items_at [OF 1] Cons.IH [OF 2] by (rule masked_at_trans)
  then show ?case
  proof (rule masked_at_cong)
    fix r c
    show "((r = beam_id \<and> list_blocked items hyp c) \<or> ?Q r c)
        = (beam_id \<le> r \<and> r < beam_id + length (hyp # hyps)
             \<and> list_blocked items ((hyp # hyps) ! (r - beam_id)) c)"
    proof (cases "r = beam_id")
      case True
      then show ?thesis by simp
    next
      case False
      then show ?thesis
        using shift [of r] by auto
    qed
  qed
qed

lemma block_block_list_at:
  assumes "block_block_list s t = Inr t'"
  shows "masked_at (\<lambda>r c. r < length (partial_hyps s)
            \<and> (case block_list s of None \<Rightarrow> False
                | Some items \<Rightarrow> list_blocked items (partial_hyps s ! r) c)) t t'"
proof (cases "block_list s")
  case None
  then have "t' = t"
    using assms unfolding block_block_list_def by simp
  then show ?thesis
    using None by (simp add: masked_at_def)
next
  case (Some items)
  then have "block_list_loop items t 0 (partial_hyps s) = Inr t'"
    using assms unfolding block_block_list_def by simp
  from block_list_loop_at [OF this] show ?thesis
    by (rule masked_at_cong) (simp add: Some)
qed

lemma block_all_at:
  assumes "block_all s t0 = Inr t"
  shows "masked_at (\<lambda>r c. r < length (partial_hyps s) \<and>
         ((0 < block_ngram s
             \<and> ngram_blocked (nat (block_ngram s)) None (partial_hyps s ! r) c)
          \<or> (case block_list s of
                None \<Rightarrow> False
              | Some items \<Rightarrow> list_blocked items (partial_hyps s ! r) c)
          \<or> (0 < context_block_ngram s
               \<and> (case context_toks s of
                     None \<Rightarrow> False
                   | Some src \<Rightarrow> ngram_blocked (nat (context_block_ngram s)) (Some src)
                                   (partial_hyps s ! r) c)))) t0 t"
proof -
  obtain t1 t2 where
    1: "(if block_ngram s > 0 then block_ngrams s (nat (block_ngram s)) t0 None else Inr t0)
          = Inr t1"
    and 2: "block_block_list s t1 = Inr t2"
    and 3: "(if context_block_ngram s > 0
             then (case context_toks s of None \<Rightarrow> Inl ValueError
                   | Some c \<Rightarrow> block_ngrams s (nat (context_block_ngram s)) t2 (Some c))
             else Inr t2) = Inr t"
    using assms unfolding block_all_def by (auto split: sum.splits)
  have a: "masked_at (\<lambda>r c. r < length (partial_hyps s) \<and> 0 < block_ngram s
             \<and> ngram_blocked (nat (block_ngram s)) None (partial_hyps s ! r) c) t0 t1"
  proof (cases "0 < block_ngram s")
    case True
    then have "block_ngrams s (nat (block_ngram s)) t0 None = Inr t1"
      using 1 by simp
    from block_ngrams_at [OF this] show ?thesis
      by (rule masked_at_cong) (use True in simp)
  next
    case False
    then show ?thesis
      using 1 by (simp add: masked_at_def)
  qed
  note b = block_block_list_at [OF 2]
  have c: "masked_at (\<lambda>r c. r < length (partial_hyps s) \<and> 0 < context_block_ngram s
               \<and> (case context_toks s of
                     None \<Rightarrow> False
                   | Some src \<Rightarrow> ngram_blocked (nat (context_block_ngram s)) (Some src)
                                   (partial_hyps s ! r) c)) t2 t"
  proof (cases "0 < context_block_ngram s")
    case True
    then obtain src where src: "context_toks s = Some src"
      and "block_ngrams s (nat (context_block_ngram s)) t2 (Some src) = Inr t"
      using 3 by (auto split: option.splits)
    from block_ngrams_at [OF this(2)] show ?thesis
      by (rule masked_at_cong) (use True src in simp)
  next
    case False
    then show ?thesis
      using 3 by (simp add: masked_at_def)
  qed
  show ?thesis
    using masked_at_trans [OF masked_at_trans [OF a b] c]
    by (rule masked_at_cong) auto
qed

lemma advance_at:
  assumes "advance sel s lp = Inr (s', t)"
  shows "masked_at (advance_mask s) lp t"
proof -
  from assms obtain t0 where g: "min_length_guard s lp = Inr t0" and b: "block_all s t0 = Inr t"
    by (auto elim!: advanceE)
  show ?thesis
    using masked_at_trans [OF min_length_guard_at [OF g] block_all_at [OF b]]
    by (rule masked_at_cong) (auto simp: advance_mask_def)
qed

lemma masked_at_changed:
  assumes "masked_at P t t'"
  shows "t' \<noteq> t \<longleftrightarrow> (\<exists>r<length t. \<exists>c<length (t ! r). P r c \<and> t ! r ! c \<noteq> NegInf)"
proof
  assume "t' \<noteq> t"
  then obtain r where r: "r < length t" "t' ! r \<noteq> t ! r"
    using assms unfolding masked_at_def by (metis nth_equalityI)
  then obtain c where c: "c < length (t ! r)" "t' ! r ! c \<noteq> t ! r ! c"
    using assms unfolding masked_at_def by (metis nth_equalityI)
  then have "P r c \<and> t ! r ! c \<noteq> NegInf"
    using assms r(1) unfolding masked_at_def by (metis (full_types))
  then show "\<exists>r<length t. \<exists>c<length (t ! r). P r c \<and> t ! r ! c \<noteq> NegInf"
    using r(1) c(1) by blast
next
  assume "\<exists>r<length t. \<exists>c<length (t ! r). P r c \<and> t ! r ! c \<noteq> NegInf"
  then obtain r c where rc: "r < length t" "c < length (t ! r)" "P r c" "t ! r ! c \<noteq> NegInf"
    by blast
  then have "t' ! r ! c = NegInf"
    using assms unfolding masked_at_def by simp
  then show "t' \<noteq> t"
    using rc(4) by auto
qed

subsection \<open>C10: the factory builds greedy search with minimum length 0\<close>

lemma tree_search_init_min_length [simp]:
  "min_length (tree_search_init b blk cblk p bo e m lp) = m"
  by (simp add: tree_search_init_def)

text \<open>
  C10. When the inference method is 'greedy' (also by default, when the option is
  absent), the factory builds a GreedySearch whose minimum length is 0 whatever the
  option \<open>beam_min_length\<close> holds. The minimum length stays 0 over every sequence of
  advance calls, so the minimum-length guard leaves every tensor as it is.
\<close>

theorem greedy_factory_ignores_min_length:
  assumes "inference opt = None \<or> inference opt = Some ''greedy''"
    and "treesearch_factory opt = Inr (pol, s0)"
    and "advance_all sel s0 lps = Inr s"
  shows "pol = GreedySearch
       \<and> treesearch_factory (opt\<lparr>beam_min_length := m\<rparr>) = Inr (pol, s0)
       \<and> min_length s0 = 0 \<and> min_length s = 0
       \<and> \<not> current_length_of s < min_length s
       \<and> min_length_guard s logprobs = Inr logprobs"
proof -
  have f: "pol = GreedySearch \<and> min_length s0 = 0
         \<and> treesearch_factory (opt\<lparr>beam_min_length := m\<rparr>) = Inr (pol, s0)"
    using assms(1,2) by (auto simp: treesearch_factory_def Let_def split: if_splits)
  have l: "length (all_scores s0) = 1"
    using assms(1,2)
    by (auto simp: treesearch_factory_def tree_search_init_def Let_def split: if_splits)
  have m: "min_length s = 0"
    using advance_all_frame [OF assms(3)] f by simp
  have c: "\<not> current_length_of s < min_length s"
    using m advance_all_frame [OF assms(3)] l by (simp add: current_length_of_def)
  show ?thesis
    using f m c by (simp add: min_length_guard_def)
qed

lemma ex_greedy_s0_eq:
  "ex_greedy_s0 = \<lparr>beam_size = 1, length_penalty = 65 / 100, block_ngram = - 1, min_length = 0,
            eos = 2, bos = 1, pad = 0, context_toks = None,
            context_block_ngram = - 1, block_list = None, scores = None,
            all_scores = [[Fin 0]], bookkeep = [], outputs = [[1]], finished = [],
            eos_top = False, eos_top_ts = None, n_best_counter = 0,
            partial_hyps = [[1]]\<rparr>"
  by (simp add: ex_greedy_s0_def tree_search_init_def)

lemma ex_greedy_factory: "treesearch_factory ex_greedy_opt = Inr (GreedySearch, ex_greedy_s0)"
  by (simp add: treesearch_factory_def ex_greedy_opt_def ex_greedy_s0_def)

lemmas advance_eval = advance_def min_length_guard_def current_length_of_def set_neginf_def
  block_all_def block_block_list_def block_ngrams_def

lemma ex_greedy_advance:
  "advance greedy_select_paths ex_greedy_s0 ex_free_lp = Inr (ex_greedy_s1, ex_free_lp)"
  by (simp add: advance_eval greedy_select_paths_def row_max_def broadcast_add_def
      ex_greedy_s0_eq ex_greedy_s1_def ex_free_lp_def less_score_def)

theorem greedy_factory_ignores_min_length_witness:
  "GreedySearch = GreedySearch
       \<and> treesearch_factory (ex_greedy_opt\<lparr>beam_min_length := 7\<rparr>) = Inr (GreedySearch, ex_greedy_s0)
       \<and> min_length ex_greedy_s0 = 0 \<and> min_length ex_greedy_s1 = 0
       \<and> \<not> current_length_of ex_greedy_s1 < min_length ex_greedy_s1
       \<and> min_length_guard ex_greedy_s1 ex_free_lp = Inr ex_free_lp"
proof -
  have 1: "inference ex_greedy_opt = None \<or> inference ex_greedy_opt = Some ''greedy''"
    by (simp add: ex_greedy_opt_def)
  have 3: "advance_all greedy_select_paths ex_greedy_s0 [ex_free_lp] = Inr ex_greedy_s1"
    by (simp add: ex_greedy_advance)
  show ?thesis
    by (rule greedy_factory_ignores_min_length [OF 1 ex_greedy_factory 3])
qed

subsection \<open>C7: the minimum-length guard\<close>

lemma plus_NegInf_left [simp]: "NegInf + x = NegInf"
  by simp

lemma plus_NegInf_right [simp]: "x + NegInf = NegInf"
  by (cases x) simp_all

lemma le_NegInf_iff [simp]: "x \<le> NegInf \<longleftrightarrow> x = NegInf"
  by (cases x) simp_all

lemma advance_selected:
  assumes "advance sel s lp = Inr (s', t)"
  shows "\<exists>prior. sel t prior (current_length_of s)
           = Inr (last (bookkeep s'), last (outputs s'), last (all_scores s'))"
  using assms by (auto elim!: advanceE)

lemma advance_eos_masked:
  assumes adv: "advance sel s lp = Inr (s', t)"
    and guard: "current_length_of s < min_length s"
  shows "\<forall>r<length t. eos s < length (t ! r) \<and> t ! r ! eos s = NegInf"
proof -
  from adv obtain t0 where g: "min_length_guard s lp = Inr t0" and b: "block_all s t0 = Inr t"
    by (auto elim!: advanceE)
  note m0 = min_length_guard_spec(1) [OF g]
  note e0 = min_length_guard_spec(2) [OF g guard]
  note m1 = block_all_masked [OF b]
  show ?thesis
  proof (intro allI impI)
    fix r
    assume "r < length t"
    then have r0: "r < length t0" and r: "r < length lp"
      using masked_length [OF m1] masked_length [OF m0] by simp_all
    have len0: "length (t0 ! r) = length (lp ! r)"
      using masked_row_length [OF m0 r] .
    have len1: "length (t ! r) = length (t0 ! r)"
      using masked_row_length [OF m1 r0] .
    have e: "eos s < length (lp ! r)" "t0 ! r ! eos s = NegInf"
      using e0 r by simp_all
    have "t ! r ! eos s = NegInf"
      using masked_neginf [OF m1 r0 _ e(2)] e(1) len0 by simp
    then show "eos s < length (t ! r) \<and> t ! r ! eos s = NegInf"
      using e(1) len0 len1 by simp
  qed
qed

lemma collect_finished_none:
  assumes "collect_finished e ts toks sc hs fin = Inr fin'"
    and "\<forall>h\<in>set hs. toks ! h = e \<longrightarrow> sc ! h = NegInf"
  shows "fin' = fin"
  using assms
  by (induction hs arbitrary: fin) (auto split: if_splits)

text \<open>
  C7 (amended). For every advance call while the current length is below the minimum
  length, the tensor handed to \<open>select_paths\<close> holds minus infinity at the end token
  in every row. For a policy that meets the contract \<open>additive\<close>, as \<open>BeamSearch\<close> and
  \<open>GreedySearch\<close> do, every position of the result that still selects the end token
  has the score minus infinity, so has every slot of the beam that selects it, and no
  hypothesis is recorded as finished. With minimum length 3 this covers the steps 0,
  1 and 2.
\<close>

theorem min_length_guard_suppresses_eos:
  assumes adv: "advance sel s lp = Inr (s', t)"
    and guard: "current_length_of s < min_length s"
    and r: "rect V lp"
    and add: "additive sel"
  shows "(\<forall>row\<in>set t. eos s < length row \<and> row ! eos s = NegInf)
       \<and> (\<exists>prior. sel t prior (current_length_of s)
             = Inr (last (bookkeep s'), last (outputs s'), last (all_scores s')))
       \<and> (\<forall>i. i < length (last (bookkeep s')) \<longrightarrow> i < length (last (outputs s'))
             \<longrightarrow> i < length (last (all_scores s'))
             \<longrightarrow> last (outputs s') ! i = eos s \<longrightarrow> last (all_scores s') ! i = NegInf)
       \<and> (\<forall>h<beam_size s. last (outputs s') ! h = eos s
             \<longrightarrow> h < length (last (all_scores s')) \<and> last (all_scores s') ! h = NegInf)
       \<and> finished s' = finished s"
proof -
  note em = advance_eos_masked [OF adv guard]
  have 1: "\<forall>row\<in>set t. eos s < length row \<and> row ! eos s = NegInf"
    using em by (auto simp: in_set_conv_nth)
  from adv obtain prior hyp_ids tok_ids sc hyps fin where
      sel: "sel t prior (current_length_of s) = Inr (hyp_ids, tok_ids, sc)"
      and ext: "extend_hyps (partial_hyps s) hyp_ids tok_ids [0..<beam_size s] = Inr hyps"
      and col: "collect_finished (eos s) (length (outputs s)) tok_ids sc [0..<beam_size s]
                  (finished s) = Inr fin"
      and outs: "last (outputs s') = tok_ids" "last (all_scores s') = sc" "finished s' = fin"
        "last (bookkeep s') = hyp_ids"
    by (auto elim!: advanceE)
  have rt: "rect V t"
    using masked_rect [OF advance_masked [OF adv] r] .
  have c: "\<And>i. i < length hyp_ids \<Longrightarrow> i < length tok_ids \<Longrightarrow> i < length sc \<Longrightarrow>
         hyp_ids ! i < length t \<and>
         sc ! i = t ! (hyp_ids ! i) ! (tok_ids ! i)
                  + prior ! (if length prior = 1 then 0 else hyp_ids ! i)"
    using add rt sel unfolding additive_def by blast
  have 3: "sc ! i = NegInf"
    if "i < length hyp_ids" "i < length tok_ids" "i < length sc" "tok_ids ! i = eos s" for i
  proof -
    have "hyp_ids ! i < length t" and
      "sc ! i = t ! (hyp_ids ! i) ! (tok_ids ! i)
                + prior ! (if length prior = 1 then 0 else hyp_ids ! i)"
      using c that by simp_all
    then show "sc ! i = NegInf"
      using em that(4) by simp
  qed
  have slots: "\<forall>h<beam_size s. h < length hyp_ids \<and> h < length tok_ids"
    using extend_hyps_spec [OF ext] by simp
  have reads: "h < length sc"
    if "h \<in> set hs" "tok_ids ! h = eos s"
      "collect_finished (eos s) (length (outputs s)) tok_ids sc hs x = Inr y" for h hs x y
    using that by (induction hs arbitrary: x) (auto split: if_splits)
  have 4: "\<forall>h<beam_size s. tok_ids ! h = eos s \<longrightarrow> h < length sc \<and> sc ! h = NegInf"
  proof (intro allI impI)
    fix h
    assume h: "h < beam_size s" and e: "tok_ids ! h = eos s"
    have "h \<in> set [0..<beam_size s]"
      using h by simp
    then have l: "h < length sc"
      using e col by (rule reads)
    then show "h < length sc \<and> sc ! h = NegInf"
      using 3 slots h e by simp
  qed
  have "\<forall>h\<in>set [0..<beam_size s]. tok_ids ! h = eos s \<longrightarrow> sc ! h = NegInf"
    using 4 by simp
  then have 5: "fin = finished s"
    using collect_finished_none [OF col] by blast
  have c3: "\<forall>i. i < length (last (bookkeep s')) \<longrightarrow> i < length (last (outputs s'))
             \<longrightarrow> i < length (last (all_scores s'))
             \<longrightarrow> last (outputs s') ! i = eos s \<longrightarrow> last (all_scores s') ! i = NegInf"
    using 3 outs by simp
  have c4: "\<forall>h<beam_size s. last (outputs s') ! h = eos s
             \<longrightarrow> h < length (last (all_scores s')) \<and> last (all_scores s') ! h = NegInf"
    using 4 outs by simp
  have c5: "finished s' = finished s"
    using 5 outs by simp
  show ?thesis
    using 1 advance_selected [OF adv] c3 c4 c5 by blast
qed

lemma ex_s0_eq:
  "ex_s0 = \<lparr>beam_size = 2, length_penalty = 65 / 100, block_ngram = - 1, min_length = 3,
            eos = 2, bos = 1, pad = 0, context_toks = None,
            context_block_ngram = - 1, block_list = None, scores = None,
            all_scores = [[Fin 0, Fin 0]], bookkeep = [], outputs = [[1, 1]], finished = [],
            eos_top = False, eos_top_ts = None, n_best_counter = 0,
            partial_hyps = [[1], [1]]\<rparr>"
  by (simp add: ex_s0_def tree_search_init_def numeral_2_eq_2)

lemma upt_4: "[0..<4] = [0, 1, 2, 3]"
  by (simp add: upt_rec)

lemmas beam_eval = beam_select_paths_def add_prior_def topk_def sort_desc_def ncols_def

lemma ex_s0_advance: "advance (beam_select_paths 2) ex_s0 ex_lp = Inr (ex_s1, ex_lp_masked)"
  by (simp add: advance_eval beam_eval ex_s0_eq ex_s1_def ex_lp_def ex_lp_masked_def upt_4)

lemma ex_gmin_s0_eq:
  "ex_gmin_s0 = \<lparr>beam_size = 1, length_penalty = 65 / 100, block_ngram = - 1, min_length = 3,
            eos = 2, bos = 1, pad = 0, context_toks = None,
            context_block_ngram = - 1, block_list = None, scores = None,
            all_scores = [[Fin 0]], bookkeep = [], outputs = [[1]], finished = [],
            eos_top = False, eos_top_ts = None, n_best_counter = 0,
            partial_hyps = [[1]]\<rparr>"
  by (simp add: ex_gmin_s0_def tree_search_init_def)

lemma ex_gmin_advance:
  "advance greedy_select_paths ex_gmin_s0 ex_gmin_lp
     = Inr (ex_gmin_s1, [[Fin (-5), Fin (-6), NegInf, Fin (-2)]])"
  by (simp add: advance_eval greedy_select_paths_def row_max_def broadcast_add_def
      ex_gmin_s0_eq ex_gmin_s1_def ex_gmin_lp_def less_score_def)

theorem min_length_guard_suppresses_eos_witness:
  "current_length_of ex_s0 < min_length ex_s0 \<and> rect 4 ex_lp
     \<and> advance (beam_select_paths 2) ex_s0 ex_lp = Inr (ex_s1, ex_lp_masked)
     \<and> ex_lp_masked ! 0 ! eos ex_s0 = NegInf \<and> ex_lp_masked ! 1 ! eos ex_s0 = NegInf
     \<and> finished ex_s1 = finished ex_s0
     \<and> current_length_of ex_gmin_s0 < min_length ex_gmin_s0 \<and> rect 4 ex_gmin_lp
     \<and> advance greedy_select_paths ex_gmin_s0 ex_gmin_lp
           = Inr (ex_gmin_s1, [[Fin (-5), Fin (-6), NegInf, Fin (-2)]])
     \<and> [[Fin (-5), Fin (-6), NegInf, Fin (-2)]] ! 0 ! eos ex_gmin_s0 = NegInf
     \<and> finished ex_gmin_s1 = finished ex_gmin_s0"
proof -
  have guard: "current_length_of ex_s0 < min_length ex_s0"
    by (simp add: current_length_of_def ex_s0_eq)
  have r: "rect 4 ex_lp"
    by (simp add: rect_def ex_lp_def)
  have rows: "ex_lp_masked ! 0 \<in> set ex_lp_masked" "ex_lp_masked ! 1 \<in> set ex_lp_masked"
    by (simp_all add: ex_lp_masked_def)
  have guard': "current_length_of ex_gmin_s0 < min_length ex_gmin_s0"
    by (simp add: current_length_of_def ex_gmin_s0_eq)
  have r': "rect 4 ex_gmin_lp"
    by (simp add: rect_def ex_gmin_lp_def)
  have beam: "ex_lp_masked ! 0 ! eos ex_s0 = NegInf \<and> ex_lp_masked ! 1 ! eos ex_s0 = NegInf
     \<and> finished ex_s1 = finished ex_s0"
    using min_length_guard_suppresses_eos [OF ex_s0_advance guard r beam_additive] rows
    by blast
  have greedy: "[[Fin (-5), Fin (-6), NegInf, Fin (-2)]] ! 0 ! eos ex_gmin_s0 = NegInf
     \<and> finished ex_gmin_s1 = finished ex_gmin_s0"
    using min_length_guard_suppresses_eos [OF ex_gmin_advance guard' r' greedy_additive]
    by simp
  show ?thesis
    using beam greedy guard r ex_s0_advance guard' r' ex_gmin_advance by blast
qed

lemma ex_wide_s0_eq:
  "ex_wide_s0 = \<lparr>beam_size = 3, length_penalty = 65 / 100, block_ngram = - 1, min_length = 3,
            eos = 2, bos = 1, pad = 0, context_toks = None,
            context_block_ngram = - 1, block_list = None, scores = None,
            all_scores = [[Fin 0, Fin 0, Fin 0]], bookkeep = [], outputs = [[1, 1, 1]],
            finished = [], eos_top = False, eos_top_ts = None, n_best_counter = 0,
            partial_hyps = [[1], [1], [1]]\<rparr>"
  by (simp add: ex_wide_s0_def tree_search_init_def numeral_3_eq_3)

text \<open>
  The claim as stated fails when the beam is as wide as the score space: with minimum
  length 3, beam size 3 and three tokens, the first advance selects all three tokens,
  the end token 2 among them (with score minus infinity).
\<close>

theorem min_length_guard_eos_selected_counterexample:
  "current_length_of ex_wide_s0 = 0 \<and> min_length ex_wide_s0 = 3 \<and> eos ex_wide_s0 = 2
     \<and> map_sum id (last \<circ> outputs \<circ> fst) (advance (beam_select_paths 3) ex_wide_s0 ex_wide_lp)
         = Inr [0, 1, 2]"
  by (simp add: advance_eval beam_eval ex_wide_s0_eq ex_wide_lp_def upt_3)

subsection \<open>C9: advance writes into the caller's tensor\<close>

lemma advance_guard_changes:
  assumes adv: "advance sel s lp = Inr (s', t)"
    and guard: "current_length_of s < min_length s"
    and fin: "\<exists>row\<in>set lp. row ! eos s \<noteq> NegInf"
  shows "t \<noteq> lp"
proof
  assume eq: "t = lp"
  obtain r where r: "r < length lp" "lp ! r ! eos s \<noteq> NegInf"
    using fin by (auto simp: in_set_conv_nth)
  have "t ! r ! eos s = NegInf"
    using advance_eos_masked [OF adv guard] r(1) eq by simp
  then show False
    using r(2) eq by simp
qed

text \<open>
  C9 (amended). \<open>advance\<close> writes into the tensor it is given: after
  \<open>b.advance(score[i])\<close> the caller's \<open>score[i]\<close> is the tensor \<open>t\<close> that was handed to
  \<open>select_paths\<close>. It has the shape of the original, holds minus infinity at every
  entry that the minimum-length guard, self n-gram blocking, the block list or context
  n-gram blocking names (\<open>advance_mask\<close>) and the original value at every other entry;
  the other tensors of \<open>score\<close> are untouched. The caller's tensor has changed exactly
  when one of the named entries held another value than minus infinity, so a call in
  which no mask applies leaves it as it was.
\<close>

theorem advance_mutates_logprobs:
  assumes "call_advance sel b score_t i = Inr (b', score_t')"
  shows "\<exists>t. advance sel b (score_t ! i) = Inr (b', t)
           \<and> i < length score_t \<and> score_t' = score_t[i := t]
           \<and> masked_at (advance_mask b) (score_t ! i) t
           \<and> masked (score_t ! i) t
           \<and> (\<exists>prior. sel t prior (current_length_of b)
                 = Inr (last (bookkeep b'), last (outputs b'), last (all_scores b')))
           \<and> (score_t' \<noteq> score_t \<longleftrightarrow>
                (\<exists>r<length (score_t ! i). \<exists>c<length (score_t ! i ! r).
                   advance_mask b r c \<and> score_t ! i ! r ! c \<noteq> NegInf))
           \<and> (current_length_of b < min_length b \<longrightarrow>
                (\<exists>row\<in>set (score_t ! i). row ! eos b \<noteq> NegInf) \<longrightarrow> score_t' \<noteq> score_t)"
proof -
  from assms obtain t where i: "i < length score_t"
    and adv: "advance sel b (score_t ! i) = Inr (b', t)" and s': "score_t' = score_t[i := t]"
    by (auto simp: call_advance_def split: if_splits sum.splits)
  note at = advance_at [OF adv]
  have eq: "score_t' \<noteq> score_t \<longleftrightarrow> t \<noteq> score_t ! i"
    using i s' by (metis list_update_id nth_list_update_eq)
  have iff: "score_t' \<noteq> score_t \<longleftrightarrow>
                (\<exists>r<length (score_t ! i). \<exists>c<length (score_t ! i ! r).
                   advance_mask b r c \<and> score_t ! i ! r ! c \<noteq> NegInf)"
    unfolding eq by (rule masked_at_changed [OF at])
  have ch: "score_t' \<noteq> score_t"
    if "current_length_of b < min_length b" "\<exists>row\<in>set (score_t ! i). row ! eos b \<noteq> NegInf"
  proof -
    have "t \<noteq> score_t ! i"
      using advance_guard_changes [OF adv that] .
    then show ?thesis
      using eq by simp
  qed
  show ?thesis
    using i adv s' at masked_at_masked [OF at] advance_selected [OF adv] iff ch by blast
qed

lemma ex_blk_s0_eq:
  "ex_blk_s0 = \<lparr>beam_size = 1, length_penalty = 65 / 100, block_ngram = 1, min_length = 3,
            eos = 2, bos = 1, pad = 0, context_toks = Some [0],
            context_block_ngram = 1, block_list = Some [(1, [[3]])], scores = None,
            all_scores = [[Fin 0]], bookkeep = [], outputs = [[1]], finished = [],
            eos_top = False, eos_top_ts = None, n_best_counter = 0,
            partial_hyps = [[1]]\<rparr>"
  by (simp add: ex_blk_s0_def tree_search_init_def set_context_def set_block_list_def)

lemma ex_blk_advance:
  "advance (beam_select_paths 1) ex_blk_s0 ex_blk_lp = Inr (ex_blk_s1, ex_blk_masked)"
  by (simp add: advance_eval beam_eval find_ngrams_def slice_from_neg_def ex_blk_s0_eq
      ex_blk_s1_def ex_blk_lp_def ex_blk_masked_def upt_rec [of 0 5] upt_rec [of 1 5]
      upt_rec [of 2 5] upt_rec [of 3 5] upt_rec [of 4 5])

theorem advance_mutates_logprobs_witness:
  "call_advance (beam_select_paths 1) ex_blk_s0 [ex_blk_lp] 0 = Inr (ex_blk_s1, [ex_blk_masked])
     \<and> masked_at (advance_mask ex_blk_s0) ex_blk_lp ex_blk_masked
     \<and> masked ex_blk_lp ex_blk_masked
     \<and> [ex_blk_masked] \<noteq> [ex_blk_lp]
     \<and> advance_mask ex_blk_s0 0 0 \<and> advance_mask ex_blk_s0 0 1 \<and> advance_mask ex_blk_s0 0 2
     \<and> advance_mask ex_blk_s0 0 3 \<and> \<not> advance_mask ex_blk_s0 0 4"
proof -
  have call: "call_advance (beam_select_paths 1) ex_blk_s0 [ex_blk_lp] 0
                = Inr (ex_blk_s1, [ex_blk_masked])"
    using ex_blk_advance by (simp add: call_advance_def)
  obtain t where t: "[ex_blk_masked] = [ex_blk_lp][0 := t]"
    "masked_at (advance_mask ex_blk_s0) ([ex_blk_lp] ! 0) t" "masked ([ex_blk_lp] ! 0) t"
    "[ex_blk_masked] \<noteq> [ex_blk_lp] \<longleftrightarrow>
       (\<exists>r<length ([ex_blk_lp] ! 0). \<exists>c<length ([ex_blk_lp] ! 0 ! r).
          advance_mask ex_blk_s0 r c \<and> [ex_blk_lp] ! 0 ! r ! c \<noteq> NegInf)"
    using advance_mutates_logprobs [OF call] by blast
  have teq: "t = ex_blk_masked"
    using t(1) by simp
  have m: "advance_mask ex_blk_s0 0 0 \<and> advance_mask ex_blk_s0 0 1 \<and> advance_mask ex_blk_s0 0 2
     \<and> advance_mask ex_blk_s0 0 3 \<and> \<not> advance_mask ex_blk_s0 0 4"
    by (simp add: advance_mask_def ngram_blocked_def list_blocked_def banned_by_def
        find_ngrams_def slice_from_neg_def current_length_of_def ex_blk_s0_eq)
  have "[ex_blk_masked] \<noteq> [ex_blk_lp]"
    by (simp add: ex_blk_masked_def ex_blk_lp_def)
  then show ?thesis
    using call t(2,3) teq m by simp
qed

lemma ex_s0_guard_premises:
  "current_length_of ex_s0 < min_length ex_s0
     \<and> (\<exists>row\<in>set ([ex_lp, ex_lp] ! 1). row ! eos ex_s0 \<noteq> NegInf)"
  by (simp add: current_length_of_def ex_s0_eq ex_lp_def)

lemma ex_free_s0_eq:
  "ex_free_s0 = \<lparr>beam_size = 1, length_penalty = 65 / 100, block_ngram = - 1, min_length = 0,
            eos = 2, bos = 1, pad = 0, context_toks = None,
            context_block_ngram = - 1, block_list = None, scores = None,
            all_scores = [[Fin 0]], bookkeep = [], outputs = [[1]], finished = [],
            eos_top = False, eos_top_ts = None, n_best_counter = 0,
            partial_hyps = [[1]]\<rparr>"
  by (simp add: ex_free_s0_def tree_search_init_def)

text \<open>
  The claim as stated fails for a call in which no mask applies: without minimum
  length and blocking the caller's tensor is the same after the call.
\<close>

theorem advance_preserves_logprobs_counterexample:
  "map_sum id snd (call_advance (beam_select_paths 1) ex_free_s0 [ex_free_lp] 0)
     = Inr [ex_free_lp]"
  by (simp add: call_advance_def advance_eval beam_eval ex_free_s0_eq ex_free_lp_def upt_4)

subsection \<open>The example run\<close>

lemma ex_run_s0_eq:
  "ex_run_s0 = \<lparr>beam_size = 1, length_penalty = 65 / 100, block_ngram = - 1, min_length = 0,
            eos = 2, bos = 1, pad = 0, context_toks = None,
            context_block_ngram = - 1, block_list = None, scores = None,
            all_scores = [[Fin 0]], bookkeep = [], outputs = [[1]], finished = [],
            eos_top = False, eos_top_ts = None, n_best_counter = 0,
            partial_hyps = [[1]]\<rparr>"
  by (simp add: ex_run_s0_def tree_search_init_def)

lemma ex_run_step1: "advance (beam_select_paths 1) ex_run_s0 ex_lp_word = Inr (ex_run_s1, ex_lp_word)"
  by (simp add: advance_eval beam_eval ex_run_s0_eq ex_run_s1_def ex_lp_word_def upt_4)

lemma ex_run_step2: "advance (beam_select_paths 1) ex_run_s1 ex_lp_word = Inr (ex_run_s2, ex_lp_word)"
  by (simp add: advance_eval beam_eval ex_run_s1_def ex_run_s2_def ex_lp_word_def upt_4)

lemma ex_run_step3: "advance (beam_select_paths 1) ex_run_s2 ex_lp_word = Inr (ex_run_s3, ex_lp_word)"
  by (simp add: advance_eval beam_eval ex_run_s1_def ex_run_s2_def ex_run_s3_def ex_lp_word_def upt_4)

lemma ex_run_step4: "advance (beam_select_paths 1) ex_run_s3 ex_lp_end = Inr (ex_run_s4, ex_lp_end)"
  by (simp add: advance_eval beam_eval ex_run_s1_def ex_run_s3_def ex_run_s4_def ex_lp_end_def upt_4)

lemma ex_run: "advance_all (beam_select_paths 1) ex_run_s0 [ex_lp_word, ex_lp_word, ex_lp_word, ex_lp_end]
    = Inr ex_run_s4"
  by (simp add: ex_run_step1 ex_run_step2 ex_run_step3 ex_run_step4 del: One_nat_def)

lemma ex_run_rescored:
  "get_rescored_finished ex_run_s4 None = Inr (ex_run_s4, [([1, 3, 3, 3, 2], Fin (- 2))])"
  by (simp add: get_rescored_finished_def force_finished_def rescore_def length_penalty_of_def
      sort_desc_def get_hyp_from_finished_def get_pretty_hypothesis_def
      ex_run_s4_def ex_run_s1_def eval_nat_numeral)

subsection \<open>Example runs for the rescoring\<close>

lemma ex_two_s0_eq:
  "ex_two_s0 = \<lparr>beam_size = 2, length_penalty = 1, block_ngram = - 1, min_length = 0,
            eos = 2, bos = 1, pad = 0, context_toks = None,
            context_block_ngram = - 1, block_list = None, scores = None,
            all_scores = [[Fin 0, Fin 0]], bookkeep = [], outputs = [[1, 1]], finished = [],
            eos_top = False, eos_top_ts = None, n_best_counter = 0,
            partial_hyps = [[1], [1]]\<rparr>"
  by (simp add: ex_two_s0_def tree_search_init_def numeral_2_eq_2)

lemma ex_two_step1:
  "advance (beam_select_paths 2) ex_two_s0 ex_two_lp0 = Inr (ex_two_s1, ex_two_lp0)"
  by (simp add: advance_eval beam_eval ex_two_s0_eq ex_two_s1_def ex_two_lp0_def upt_4)

lemma upt_8: "[0..<8] = [0, 1, 2, 3, 4, 5, 6, 7]"
  by (simp add: upt_rec)

lemma ex_two_step2:
  "advance (beam_select_paths 2) ex_two_s1 ex_two_lp1 = Inr (ex_two_s2, ex_two_lp1)"
  by (simp add: advance_eval beam_eval ex_two_s1_def ex_two_s2_def ex_two_lp1_def upt_8)

lemma ex_two_run:
  "advance_all (beam_select_paths 2) ex_two_s0 [ex_two_lp0, ex_two_lp1] = Inr ex_two_s2"
  by (simp add: ex_two_step1 ex_two_step2 del: One_nat_def)

lemmas rescore_eval = get_rescored_finished_def force_finished_def rescore_def
  length_penalty_of_def sort_desc_def get_hyp_from_finished_def get_pretty_hypothesis_def

lemma ex_two_rescored_all:
  "get_rescored_finished ex_two_s2 None
     = Inr (ex_two_s2, [([1, 3, 2], Fin (- 9 / 5)), ([1, 2], Fin (- 2))])"
  by (simp add: rescore_eval ex_two_s2_def ex_two_s1_def eval_nat_numeral)

lemma ex_two_rescored_one:
  "get_rescored_finished ex_two_s2 (Some 1) = Inr (ex_two_s2, [([1, 3, 2], Fin (- 9 / 5))])"
  by (simp add: rescore_eval ex_two_s2_def ex_two_s1_def eval_nat_numeral)

lemma ex_syn_s0_eq:
  "ex_syn_s0 = \<lparr>beam_size = 1, length_penalty = 1, block_ngram = - 1, min_length = 0,
            eos = 2, bos = 1, pad = 0, context_toks = None,
            context_block_ngram = - 1, block_list = None, scores = None,
            all_scores = [[Fin 0]], bookkeep = [], outputs = [[1]], finished = [],
            eos_top = False, eos_top_ts = None, n_best_counter = 0,
            partial_hyps = [[1]]\<rparr>"
  by (simp add: ex_syn_s0_def tree_search_init_def)

lemma ex_syn_step:
  "advance (beam_select_paths 1) ex_syn_s0 ex_lp_word = Inr (ex_syn_s1, ex_lp_word)"
  by (simp add: advance_eval beam_eval ex_syn_s0_eq ex_syn_s1_def ex_lp_word_def upt_4)

lemma ex_syn_rescored:
  "get_rescored_finished ex_syn_s1 None = Inr (ex_syn_forced, [([1, 2], Fin (- 1))])"
  by (simp add: rescore_eval ex_syn_s1_def ex_syn_forced_def eval_nat_numeral)

subsection \<open>Rescoring of the finished traces\<close>

lemma hyp_from_finished_loop_length:
  "hyp_from_finished_loop s t h = Inr tails \<Longrightarrow> length tails = Suc t"
  by (induction t arbitrary: h tails) (auto split: if_splits sum.splits)

lemma n_best_list_of_spec:
  "n_best_list_of s hs = Inr res \<Longrightarrow>
     list_all2 (\<lambda>(pred, sc) h. sc = score h \<and> length pred = timestep h + 1) res hs"
proof (induction hs arbitrary: res)
  case Nil
  then show ?case by simp
next
  case (Cons h hs)
  then obtain tails rest where 1: "get_hyp_from_finished s h = Inr tails"
    and 2: "n_best_list_of s hs = Inr rest"
    and 3: "res = (get_pretty_hypothesis tails, score h) # rest"
    by (auto split: sum.splits)
  have "length (get_pretty_hypothesis tails) = timestep h + 1"
    using 1 hyp_from_finished_loop_length
    by (auto simp: get_hyp_from_finished_def get_pretty_hypothesis_def)
  then show ?case
    using Cons.IH [OF 2] 3 by simp
qed

lemma force_finished_spec:
  assumes "force_finished s = Inr s'"
  shows "finished s \<noteq> [] \<longrightarrow> s' = s"
    and "finished s = [] \<longrightarrow>
           outputs s' = butlast (outputs s) @ [(last (outputs s))[0 := eos s]]
           \<and> finished s' = [\<lparr>timestep = length (outputs s) - 1, hypid = 0,
                               score = last (all_scores s) ! 0, tokenid = eos s\<rparr>]"
    and "finished s' \<noteq> []" and "length_penalty s' = length_penalty s" and "eos s' = eos s"
  using assms
  by (auto simp: force_finished_def Let_def split: if_splits)

lemma sorted_wrt_take_any: "sorted_wrt R xs \<Longrightarrow> sorted_wrt R (take n xs)"
  by (rule sorted_wrt_take)

text \<open>
  What a call of \<open>get_rescored_finished\<close> that returns has done: the object after
  the call is the one that \<open>force_finished\<close> yields, and the list returned holds the
  rescored finished traces in descending order, cut to \<open>n_best\<close> when it is given.
\<close>

lemma get_rescored_finished_returned:
  assumes "get_rescored_finished s n_best = Inr (s', res)"
  shows "force_finished s = Inr s'
       \<and> (finished s \<noteq> [] \<longrightarrow> s' = s)
       \<and> (finished s = [] \<longrightarrow>
             outputs s' = butlast (outputs s) @ [(last (outputs s))[0 := eos s]]
             \<and> finished s' = [\<lparr>timestep = length (outputs s) - 1, hypid = 0,
                                 score = last (all_scores s) ! 0, tokenid = eos s\<rparr>])
       \<and> map snd res =
           map score ((case n_best of None \<Rightarrow> id | Some n \<Rightarrow> take n)
                        (sort_desc score (map (rescore s') (finished s'))))
       \<and> (\<forall>(pred, sc)\<in>set res. \<exists>f\<in>set (finished s').
             length pred = timestep f + 1 \<and>
             sc = score_div (score f) (((1 + real (length pred)) / 6) powr length_penalty s))
       \<and> (\<forall>f. timestep f = 4 \<longrightarrow> score f = Fin (- 2) \<longrightarrow>
             score (rescore (s\<lparr>length_penalty := 65 / 100\<rparr>) f) = Fin (- 2))
       \<and> sorted_wrt (\<lambda>a b. snd b \<le> snd a) res
       \<and> length res = (case n_best of None \<Rightarrow> length (finished s')
                        | Some n \<Rightarrow> min n (length (finished s')))"
proof -
  define srted where "srted = sort_desc score (map (rescore s') (finished s'))"
  define pick where "pick = (case n_best of None \<Rightarrow> srted | Some n \<Rightarrow> take n srted)"
  from assms have ff: "force_finished s = Inr s'"
    and nb: "n_best_list_of s' pick = Inr res"
    unfolding get_rescored_finished_def Let_def pick_def srted_def
    by (auto split: sum.splits if_splits)
  note fs = force_finished_spec [OF ff]
  note rel = n_best_list_of_spec [OF nb]
  have len: "length res = length pick"
    using rel by (rule list_all2_lengthD)
  have each: "\<And>i. i < length res \<Longrightarrow>
      snd (res ! i) = score (pick ! i) \<and> length (fst (res ! i)) = timestep (pick ! i) + 1"
  proof -
    fix i
    assume i: "i < length res"
    obtain pred sc where r: "res ! i = (pred, sc)" by (cases "res ! i")
    have "(\<lambda>(pred, sc) h. sc = score h \<and> length pred = timestep h + 1) (res ! i) (pick ! i)"
      using rel i by (simp add: list_all2_conv_all_nth)
    then show "snd (res ! i) = score (pick ! i)
        \<and> length (fst (res ! i)) = timestep (pick ! i) + 1"
      by (simp add: r)
  qed
  have m: "map snd res = map score pick"
    using each len by (auto intro: nth_equalityI)
  have pick_eq: "pick = (case n_best of None \<Rightarrow> id | Some n \<Rightarrow> take n)
                          (sort_desc score (map (rescore s') (finished s')))"
    by (simp add: pick_def srted_def split: option.splits)
  have pick_sub: "set pick \<subseteq> rescore s' ` set (finished s')"
    using set_take_subset [of _ srted]
    by (auto simp: pick_def srted_def split: option.splits)
  have c5: "\<forall>(pred, sc)\<in>set res. \<exists>f\<in>set (finished s').
             length pred = timestep f + 1 \<and>
             sc = score_div (score f) (((1 + real (length pred)) / 6) powr length_penalty s)"
  proof (clarify)
    fix pred sc
    assume "(pred, sc) \<in> set res"
    then obtain i where i: "i < length res" "res ! i = (pred, sc)"
      by (auto simp: in_set_conv_nth)
    have "pick ! i \<in> set pick" using i(1) len by simp
    then obtain f where f: "f \<in> set (finished s')" "pick ! i = rescore s' f"
      using pick_sub by auto
    have "sc = score (rescore s' f)" "length pred = timestep (rescore s' f) + 1"
      using each [OF i(1)] i(2) f(2) by simp_all
    then have "length pred = timestep f + 1 \<and>
        sc = score_div (score f) (((1 + real (length pred)) / 6) powr length_penalty s)"
      using fs(4) by (simp add: rescore_def length_penalty_of_def)
    then show "\<exists>f\<in>set (finished s').
             length pred = timestep f + 1 \<and>
             sc = score_div (score f) (((1 + real (length pred)) / 6) powr length_penalty s)"
      using f(1) by blast
  qed
  have c6: "\<forall>f. timestep f = 4 \<longrightarrow> score f = Fin (- 2) \<longrightarrow>
             score (rescore (s\<lparr>length_penalty := 65 / 100\<rparr>) f) = Fin (- 2)"
    by (simp add: rescore_def length_penalty_of_def)
  have srt: "sorted_wrt (\<lambda>a b. score b \<le> score a) pick"
    using sort_desc_sorted [of score "map (rescore s') (finished s')"]
    by (auto simp: pick_def srted_def intro: sorted_wrt_take split: option.splits)
  have c7: "sorted_wrt (\<lambda>a b. snd b \<le> snd a) res"
  proof -
    have "sorted_wrt (\<lambda>a b. b \<le> a) (map score pick)"
      using srt by (simp add: sorted_wrt_map)
    then have "sorted_wrt (\<lambda>a b. b \<le> a) (map snd res)"
      using m by simp
    then show ?thesis by (simp add: sorted_wrt_map)
  qed
  have c8: "length res = (case n_best of None \<Rightarrow> length (finished s')
                        | Some n \<Rightarrow> min n (length (finished s')))"
    using len by (simp add: pick_def srted_def split: option.splits)
  show ?thesis
    using ff fs(1,2) m pick_eq c5 c6 c7 c8 by simp
qed

subsection \<open>The invariant of the bookkeeping\<close>

lemma anc_tokens_cong:
  "(\<forall>i\<le>t. outputs s' ! i = outputs s ! i) \<Longrightarrow> (\<forall>i<t. bookkeep s' ! i = bookkeep s ! i)
     \<Longrightarrow> anc_tokens s' t h = anc_tokens s t h"
  by (induction t arbitrary: h) simp_all

lemma anc_tokens_hd_tl: "anc_tokens s t h = outputs s ! t ! h # tl (anc_tokens s t h)"
  by (cases t) simp_all

lemma anc_tokens_tl_cong:
  assumes "\<forall>i<t. outputs s' ! i = outputs s ! i" "\<forall>i<t. bookkeep s' ! i = bookkeep s ! i"
  shows "tl (anc_tokens s' t h) = tl (anc_tokens s t h)"
proof (cases t)
  case 0
  then show ?thesis by simp
next
  case (Suc i)
  have "anc_tokens s' i (bookkeep s ! i ! h) = anc_tokens s i (bookkeep s ! i ! h)"
    using assms Suc by (intro anc_tokens_cong) auto
  then show ?thesis
    using assms(2) Suc by simp
qed

lemma penalize_scores_spec:
  "penalize_scores e k toks sc = Inr sc' \<Longrightarrow>
     length sc' = length sc
     \<and> (\<forall>j<length sc. sc' ! j \<noteq> NegInf \<longrightarrow>
           sc ! j \<noteq> NegInf \<and> (k \<le> j \<and> j - k < length toks \<longrightarrow> toks ! (j - k) \<noteq> e))
     \<and> (\<forall>i<length toks. toks ! i = e \<longrightarrow> k + i < length sc)"
proof (induction toks arbitrary: k sc)
  case Nil
  then show ?case by simp
next
  case (Cons tok toks)
  show ?case
  proof (cases "tok = e")
    case True
    then have k: "k < length sc"
      and rec: "penalize_scores e (Suc k) toks (sc[k := NegInf]) = Inr sc'"
      using Cons.prems by (auto split: if_splits)
    note IH = Cons.IH [OF rec]
    have 1: "length sc' = length sc" using IH by simp
    have 2: "\<forall>j<length sc. sc' ! j \<noteq> NegInf \<longrightarrow>
           sc ! j \<noteq> NegInf \<and> (k \<le> j \<and> j - k < length (tok # toks) \<longrightarrow> (tok # toks) ! (j - k) \<noteq> e)"
    proof (intro allI impI)
      fix j
      assume j: "j < length sc" and fin: "sc' ! j \<noteq> NegInf"
      have a: "sc[k := NegInf] ! j \<noteq> NegInf"
        and b: "Suc k \<le> j \<and> j - Suc k < length toks \<longrightarrow> toks ! (j - Suc k) \<noteq> e"
        using IH j fin by simp_all
      have jk: "j \<noteq> k" using a j by auto
      have "sc ! j \<noteq> NegInf" using a jk by simp
      moreover have "k \<le> j \<and> j - k < length (tok # toks) \<longrightarrow> (tok # toks) ! (j - k) \<noteq> e"
      proof
        assume h: "k \<le> j \<and> j - k < length (tok # toks)"
        then have "Suc k \<le> j" using jk by simp
        then obtain d where d: "j - k = Suc d" "j - Suc k = d"
          by (metis Suc_diff_Suc Suc_le_lessD)
        then show "(tok # toks) ! (j - k) \<noteq> e"
          using b h \<open>Suc k \<le> j\<close> by simp
      qed
      ultimately show "sc ! j \<noteq> NegInf \<and>
          (k \<le> j \<and> j - k < length (tok # toks) \<longrightarrow> (tok # toks) ! (j - k) \<noteq> e)"
        by simp
    qed
    have 3: "\<forall>i<length (tok # toks). (tok # toks) ! i = e \<longrightarrow> k + i < length sc"
    proof (intro allI impI)
      fix i
      assume i: "i < length (tok # toks)" and e: "(tok # toks) ! i = e"
      show "k + i < length sc"
      proof (cases i)
        case 0
        then show ?thesis using k by simp
      next
        case (Suc i')
        then show ?thesis using IH i e by simp
      qed
    qed
    show ?thesis using 1 2 3 by blast
  next
    case False
    then have rec: "penalize_scores e (Suc k) toks sc = Inr sc'"
      using Cons.prems by simp
    note IH = Cons.IH [OF rec]
    have 1: "length sc' = length sc" using IH by simp
    have 2: "\<forall>j<length sc. sc' ! j \<noteq> NegInf \<longrightarrow>
           sc ! j \<noteq> NegInf \<and> (k \<le> j \<and> j - k < length (tok # toks) \<longrightarrow> (tok # toks) ! (j - k) \<noteq> e)"
    proof (intro allI impI)
      fix j
      assume j: "j < length sc" and fin: "sc' ! j \<noteq> NegInf"
      have a: "sc ! j \<noteq> NegInf"
        and b: "Suc k \<le> j \<and> j - Suc k < length toks \<longrightarrow> toks ! (j - Suc k) \<noteq> e"
        using IH j fin by simp_all
      have "k \<le> j \<and> j - k < length (tok # toks) \<longrightarrow> (tok # toks) ! (j - k) \<noteq> e"
      proof
        assume h: "k \<le> j \<and> j - k < length (tok # toks)"
        show "(tok # toks) ! (j - k) \<noteq> e"
        proof (cases "j = k")
          case True
          then show ?thesis using False by simp
        next
          case jk: False
          then have le: "Suc k \<le> j" using h by simp
          then obtain d where d: "j - k = Suc d" "j - Suc k = d"
            by (metis Suc_diff_Suc Suc_le_lessD)
          then show ?thesis using b h le by simp
        qed
      qed
      then show "sc ! j \<noteq> NegInf \<and>
          (k \<le> j \<and> j - k < length (tok # toks) \<longrightarrow> (tok # toks) ! (j - k) \<noteq> e)"
        using a by simp
    qed
    have 3: "\<forall>i<length (tok # toks). (tok # toks) ! i = e \<longrightarrow> k + i < length sc"
    proof (intro allI impI)
      fix i
      assume i: "i < length (tok # toks)" and e: "(tok # toks) ! i = e"
      show "k + i < length sc"
      proof (cases i)
        case 0
        then show ?thesis using e False by simp
      next
        case (Suc i')
        then show ?thesis using IH i e by simp
      qed
    qed
    show ?thesis using 1 2 3 by blast
  qed
qed

lemma collect_finished_spec:
  "collect_finished e ts toks sc hs fin = Inr fin' \<Longrightarrow>
     set fin \<subseteq> set fin'
     \<and> (\<forall>f\<in>set fin'. f \<in> set fin \<or>
           (timestep f = ts \<and> hypid f \<in> set hs \<and> toks ! hypid f = e
            \<and> sc ! hypid f \<noteq> NegInf))"
proof (induction hs arbitrary: fin)
  case Nil
  then show ?case by simp
next
  case (Cons h hs)
  consider (skip) "collect_finished e ts toks sc hs fin = Inr fin'"
      "\<not> (toks ! h = e \<and> sc ! h \<noteq> NegInf)"
    | (add) "collect_finished e ts toks sc hs
               (fin @ [\<lparr>timestep = ts, hypid = h, score = sc ! h, tokenid = e\<rparr>]) = Inr fin'"
      "toks ! h = e" "sc ! h \<noteq> NegInf"
    using Cons.prems by (auto split: if_splits)
  then show ?case
  proof cases
    case skip
    then show ?thesis using Cons.IH [OF skip(1)] by auto
  next
    case add
    show ?thesis using Cons.IH [OF add(1)] add(2,3) by auto
  qed
qed

lemma hist_ok_init: "hist_ok (tree_search_init B blk cblk p bo e m lpen)"
  by (simp add: hist_ok_def tree_search_init_def)

lemma ts_inv_init: "ts_inv (tree_search_init B blk cblk p bo e m lpen)"
  by (simp add: ts_inv_def hist_ok_def tree_search_init_def)

lemma last_eq_nth: "length xs = Suc n \<Longrightarrow> last xs = xs ! n"
  by (cases xs rule: rev_cases) (simp_all add: nth_append)

lemma ts_inv_advance:
  assumes inv: "ts_inv s" and add: "sel = beam_select_paths B'" and r: "rect V lp"
    and adv: "advance sel s lp = Inr (s', t)"
  shows "ts_inv s'"
proof -
  define B where "B = beam_size s"
  define T where "T = length (outputs s)"
  from adv obtain prior hyp_ids tok_ids sc hyps fin where
      pen: "penalize_scores (eos s) 0 (last (outputs s))
              (case scores s of None \<Rightarrow> [Fin 0] | Some sc0 \<Rightarrow> sc0) = Inr prior"
      and sel: "sel t prior (current_length_of s) = Inr (hyp_ids, tok_ids, sc)"
      and ext: "extend_hyps (partial_hyps s) hyp_ids tok_ids [0..<beam_size s] = Inr hyps"
      and col: "collect_finished (eos s) (length (outputs s)) tok_ids sc [0..<beam_size s]
                  (finished s) = Inr fin"
      and s': "s' = s\<lparr> scores := Some sc,
             all_scores := all_scores s @ [sc],
             outputs := outputs s @ [tok_ids],
             bookkeep := bookkeep s @ [hyp_ids],
             partial_hyps := hyps,
             finished := fin,
             n_best_counter := n_best_counter s + (length fin - length (finished s)),
             eos_top := (eos_top s \<or> tok_ids ! 0 = eos s),
             eos_top_ts := (if tok_ids ! 0 = eos s \<and> eos_top_ts s = None
                            then Some (length (outputs s)) else eos_top_ts s) \<rparr>"
    by (auto elim!: advanceE)
  have h_ok: "hist_ok s" and ph: "length (partial_hyps s) = B"
    and chain: "\<forall>t<T. \<forall>h<B. all_scores s ! t ! h \<noteq> NegInf \<longrightarrow>
                  eos s \<notin> set (tl (anc_tokens s t h))"
    and scs: "(case scores s of None \<Rightarrow> T = 1
              | Some sc0 \<Rightarrow> 1 < T \<and> sc0 = last (all_scores s))"
    and fins: "\<forall>f\<in>set (finished s). timestep f < T \<and> hypid f < B \<and>
                 outputs s ! timestep f ! hypid f = eos s \<and>
                 all_scores s ! timestep f ! hypid f \<noteq> NegInf"
    using inv unfolding ts_inv_def B_def T_def by simp_all
  have la: "length (all_scores s) = T" and lb: "Suc (length (bookkeep s)) = T"
    and rows: "\<forall>t<T. B \<le> length (outputs s ! t) \<and> B \<le> length (all_scores s ! t)"
    and bk: "\<forall>t<length (bookkeep s). B \<le> length (bookkeep s ! t) \<and>
               (\<forall>h<B. bookkeep s ! t ! h < B)"
    using h_ok unfolding hist_ok_def B_def T_def by simp_all
  have Tpos: "0 < T" using lb by simp
  define T0 where "T0 = length (bookkeep s)"
  have T_eq: "T = Suc T0" using lb by (simp add: T0_def)
  have last_out: "last (outputs s) = outputs s ! T0"
    using T_eq unfolding T_def by (rule last_eq_nth)
  have last_sc: "last (all_scores s) = all_scores s ! T0"
    using T_eq la by (intro last_eq_nth) simp
  have rt: "rect V t"
    using masked_rect [OF advance_masked [OF adv] r] .
  have c: "length hyp_ids = length sc" "length tok_ids = length sc"
      "\<forall>i<length sc. (length prior = 1 \<or> hyp_ids ! i < length prior) \<and>
         sc ! i = t ! (hyp_ids ! i) ! (tok_ids ! i)
                  + prior ! (if length prior = 1 then 0 else hyp_ids ! i)"
    using beam_select_paths_contract [OF rt sel [unfolded add]] by blast+
  note e = extend_hyps_spec [OF ext]
  have lh: "length hyps = B" using e by (simp add: B_def)
  have slots: "\<forall>i<B. i < length sc \<and> hyp_ids ! i < B"
    using e c(1) ph by (auto simp: B_def)
  have Bsc: "B \<le> length sc"
    using slots by (metis not_less order_refl)
  note p = penalize_scores_spec [OF pen]
  define sc0 where "sc0 = (case scores s of None \<Rightarrow> [Fin 0] | Some x \<Rightarrow> x)"
  have p1: "length prior = length sc0"
    and p2: "\<forall>j<length sc0. prior ! j \<noteq> NegInf \<longrightarrow>
               sc0 ! j \<noteq> NegInf \<and> (j < length (outputs s ! T0) \<longrightarrow> outputs s ! T0 ! j \<noteq> eos s)"
    and p3: "\<forall>i<length (outputs s ! T0). outputs s ! T0 ! i = eos s \<longrightarrow> i < length sc0"
    using p unfolding sc0_def last_out by simp_all
  have parent: "outputs s ! T0 ! (hyp_ids ! h) \<noteq> eos s
                \<and> (T0 = 0 \<or> all_scores s ! T0 ! (hyp_ids ! h) \<noteq> NegInf)"
    if h: "h < B" and fin_h: "sc ! h \<noteq> NegInf" for h
  proof -
    define q where "q = hyp_ids ! h"
    define idx where "idx = (if length prior = 1 then 0 else q)"
    have hl: "h < length sc" and qB: "q < B" using slots h by (simp_all add: q_def)
    have con: "length prior = 1 \<or> q < length prior"
      and sc_h: "sc ! h = t ! q ! (tok_ids ! h) + prior ! idx"
      using c(3) hl by (simp_all add: q_def idx_def)
    have pfin: "prior ! idx \<noteq> NegInf"
      using fin_h sc_h by (cases "prior ! idx") auto
    have idx_lt: "idx < length sc0"
      using con p1 by (auto simp: idx_def)
    have T0T: "T0 < T" using T_eq by simp
    have row_len: "q < length (outputs s ! T0)" "q < length (all_scores s ! T0)"
      using rows T0T qB by (meson less_le_trans)+
    have s0fin: "sc0 ! idx \<noteq> NegInf"
      and tokidx: "idx < length (outputs s ! T0) \<longrightarrow> outputs s ! T0 ! idx \<noteq> eos s"
      using p2 idx_lt pfin by blast+
    show ?thesis
    proof (cases "length prior = 1")
      case True
      then have idx0: "idx = 0" by (simp add: idx_def)
      have l1: "length sc0 = 1" using True p1 by simp
      have tok_q: "outputs s ! T0 ! q \<noteq> eos s"
      proof (cases "q = 0")
        case True
        then show ?thesis using tokidx idx0 row_len(1) by simp
      next
        case False
        show ?thesis
        proof
          assume "outputs s ! T0 ! q = eos s"
          then have "q < length sc0" using p3 row_len(1) by blast
          then show False using l1 False by simp
        qed
      qed
      have sc_q: "T0 = 0 \<or> all_scores s ! T0 ! q \<noteq> NegInf"
      proof (cases "scores s")
        case None
        then have "T = 1" using scs by simp
        then show ?thesis using T_eq by simp
      next
        case (Some x)
        then have x: "x = all_scores s ! T0" "sc0 = x"
          using scs last_sc by (simp_all add: sc0_def)
        have "B \<le> length x" using rows T0T x(1) by simp
        then have "q = 0" using qB l1 x(2) by simp
        then show ?thesis using s0fin idx0 x by simp
      qed
      show ?thesis using tok_q sc_q by (simp add: q_def)
    next
      case False
      then have idxq: "idx = q" by (simp add: idx_def)
      have "scores s \<noteq> None"
      proof
        assume "scores s = None"
        then have "length sc0 = 1" by (simp add: sc0_def)
        then show False using False p1 by simp
      qed
      then obtain x where Some: "scores s = Some x" by auto
      then have x: "x = all_scores s ! T0" "sc0 = x"
        using scs last_sc by (simp_all add: sc0_def)
      have "outputs s ! T0 ! q \<noteq> eos s"
        using tokidx idxq row_len(1) by simp
      moreover have "all_scores s ! T0 ! q \<noteq> NegInf"
        using s0fin idxq x by simp
      ultimately show ?thesis by (simp add: q_def)
    qed
  qed
  have out_old: "\<And>i. i < T \<Longrightarrow> outputs s' ! i = outputs s ! i"
    and as_old: "\<And>i. i < T \<Longrightarrow> all_scores s' ! i = all_scores s ! i"
    and bk_old: "\<And>i. i < T0 \<Longrightarrow> bookkeep s' ! i = bookkeep s ! i"
    and out_new: "outputs s' ! T = tok_ids" and as_new: "all_scores s' ! T = sc"
    and bk_new: "bookkeep s' ! T0 = hyp_ids"
    and lens': "length (outputs s') = Suc T" "length (all_scores s') = Suc T"
      "length (bookkeep s') = Suc T0"
    and cst: "beam_size s' = B" "eos s' = eos s" "partial_hyps s' = hyps"
      "finished s' = fin" "scores s' = Some sc" "last (all_scores s') = sc"
    unfolding s' using la by (simp_all add: nth_append T_def T0_def B_def)
  have anc_old: "anc_tokens s' i h = anc_tokens s i h" if "i < T" for i h
    using that T_eq by (intro anc_tokens_cong) (auto simp: out_old bk_old)
  have hist': "hist_ok s'"
    unfolding hist_ok_def lens' cst
  proof (intro conjI allI impI)
    show "Suc T = Suc T" by simp
    show "Suc (Suc T0) = Suc T" using T_eq by simp
  next
    fix i assume "i < Suc T"
    then consider "i < T" | "i = T" by linarith
    then show "B \<le> length (outputs s' ! i)"
      using rows Bsc c(2) by cases (simp_all add: out_old out_new)
  next
    fix i assume "i < Suc T"
    then consider "i < T" | "i = T" by linarith
    then show "B \<le> length (all_scores s' ! i)"
      using rows Bsc by cases (simp_all add: as_old as_new)
  next
    fix i assume "i < Suc T0"
    then consider "i < T0" | "i = T0" by linarith
    then show "B \<le> length (bookkeep s' ! i)"
    proof cases
      case 1
      then have "i < length (bookkeep s)" by (simp add: T0_def)
      then show ?thesis using bk 1 by (simp add: bk_old)
    next
      case 2
      then show ?thesis using Bsc c(1) by (simp add: bk_new)
    qed
  next
    fix i h assume i: "i < Suc T0" and h: "h < B"
    from i consider "i < T0" | "i = T0" by linarith
    then show "bookkeep s' ! i ! h < B"
    proof cases
      case 1
      then have "i < length (bookkeep s)" by (simp add: T0_def)
      then show ?thesis using bk 1 h by (simp add: bk_old)
    next
      case 2
      then show ?thesis using slots h by (simp add: bk_new)
    qed
  qed
  have chain': "\<forall>i<Suc T. \<forall>h<B. all_scores s' ! i ! h \<noteq> NegInf \<longrightarrow>
                  eos s \<notin> set (tl (anc_tokens s' i h))"
  proof (intro allI impI)
    fix i h
    assume i: "i < Suc T" and h: "h < B" and fin_h: "all_scores s' ! i ! h \<noteq> NegInf"
    from i consider "i < T" | "i = T" by linarith
    then show "eos s \<notin> set (tl (anc_tokens s' i h))"
    proof cases
      case 1
      then show ?thesis using chain h fin_h by (simp add: anc_old as_old)
    next
      case 2
      define q where "q = hyp_ids ! h"
      have qB: "q < B" using slots h by (simp add: q_def)
      have fin_sc: "sc ! h \<noteq> NegInf" using fin_h 2 by (simp add: as_new)
      note par = parent [OF h fin_sc]
      have T0T: "T0 < T" using T_eq by simp
      have tl_eq: "tl (anc_tokens s' i h) = anc_tokens s T0 q"
        using 2 T_eq anc_old [OF T0T] by (simp add: bk_new q_def)
      have hd_ok: "outputs s ! T0 ! q \<noteq> eos s" using par by (simp add: q_def)
      have tl_ok: "eos s \<notin> set (tl (anc_tokens s T0 q))"
      proof (cases "T0 = 0")
        case True
        then show ?thesis by simp
      next
        case False
        then have "all_scores s ! T0 ! q \<noteq> NegInf" using par by (simp add: q_def)
        then show ?thesis using chain T0T qB by blast
      qed
      have "eos s \<notin> set (anc_tokens s T0 q)"
        using hd_ok tl_ok by (subst anc_tokens_hd_tl) simp
      then show ?thesis by (simp add: tl_eq)
    qed
  qed
  note cf = collect_finished_spec [OF col]
  have fins': "\<forall>f\<in>set fin. timestep f < Suc T \<and> hypid f < B \<and>
                 outputs s' ! timestep f ! hypid f = eos s \<and>
                 all_scores s' ! timestep f ! hypid f \<noteq> NegInf"
  proof
    fix f assume f: "f \<in> set fin"
    then consider (old) "f \<in> set (finished s)"
      | (new) "timestep f = T" "hypid f \<in> set [0..<beam_size s]"
          "tok_ids ! hypid f = eos s" "sc ! hypid f \<noteq> NegInf"
      using cf unfolding T_def by blast
    then show "timestep f < Suc T \<and> hypid f < B \<and>
                 outputs s' ! timestep f ! hypid f = eos s \<and>
                 all_scores s' ! timestep f ! hypid f \<noteq> NegInf"
    proof cases
      case old
      then show ?thesis using fins by (auto simp: out_old as_old)
    next
      case new
      then show ?thesis by (simp add: out_new as_new B_def)
    qed
  qed
  show ?thesis
    unfolding ts_inv_def lens' cst
    using hist' lh chain' fins' Tpos cst(1) by simp
qed

lemma ts_inv_advance_all:
  "ts_inv s \<Longrightarrow> sel = beam_select_paths B' \<Longrightarrow> \<forall>lp\<in>set lps. \<exists>V. rect V lp
     \<Longrightarrow> advance_all sel s lps = Inr s' \<Longrightarrow> ts_inv s'"
proof (induction lps arbitrary: s)
  case Nil
  then show ?case by simp
next
  case (Cons lp lps)
  then obtain s1 t where 1: "advance sel s lp = Inr (s1, t)"
    and 2: "advance_all sel s1 lps = Inr s'"
    by (auto split: sum.splits)
  obtain V where V: "rect V lp" using Cons.prems(3) by auto
  have "ts_inv s1"
    using ts_inv_advance [OF Cons.prems(1,2) V 1] .
  then show ?case
    using Cons.IH [OF _ Cons.prems(2) _ 2] Cons.prems(3) by simp
qed

lemma hyp_from_finished_loop_ok:
  assumes "hist_ok s" "bookkeep s \<noteq> []"
  shows "t < length (outputs s) \<Longrightarrow> h < beam_size s \<Longrightarrow>
     \<exists>tails. hyp_from_finished_loop s t h = Inr tails \<and> map tokenid tails = anc_tokens s t h"
proof (induction t arbitrary: h)
  case 0
  have la: "length (all_scores s) = length (outputs s)"
    and lb: "Suc (length (bookkeep s)) = length (outputs s)"
    and rows: "\<forall>t<length (outputs s).
         beam_size s \<le> length (outputs s ! t) \<and> beam_size s \<le> length (all_scores s ! t)"
    and bk: "\<forall>t<length (bookkeep s). beam_size s \<le> length (bookkeep s ! t)"
    using assms(1) unfolding hist_ok_def by simp_all
  obtain n where n: "length (bookkeep s) = Suc n"
    using assms(2) by (cases "bookkeep s") auto
  have "last (bookkeep s) = bookkeep s ! n" using n by (rule last_eq_nth)
  then have "h < length (last (bookkeep s))"
    using bk n 0(2) by (metis lessI less_le_trans)
  moreover have "h < length (all_scores s ! 0)" "h < length (outputs s ! 0)"
    using rows 0 by (meson less_le_trans)+
  ultimately show ?case
    using 0(1) la assms(2) by simp
next
  case (Suc i)
  have la: "length (all_scores s) = length (outputs s)"
    and lb: "Suc (length (bookkeep s)) = length (outputs s)"
    and rows: "\<forall>t<length (outputs s).
         beam_size s \<le> length (outputs s ! t) \<and> beam_size s \<le> length (all_scores s ! t)"
    and bk: "\<forall>t<length (bookkeep s). beam_size s \<le> length (bookkeep s ! t) \<and>
               (\<forall>h<beam_size s. bookkeep s ! t ! h < beam_size s)"
    using assms(1) unfolding hist_ok_def by simp_all
  have i: "i < length (bookkeep s)" using Suc.prems(1) lb by simp
  have q: "bookkeep s ! i ! h < beam_size s" and hb: "h < length (bookkeep s ! i)"
    using bk i Suc.prems(2) by (meson less_le_trans)+
  have "h < length (all_scores s ! Suc i)" "h < length (outputs s ! Suc i)"
    using rows Suc.prems by (meson less_le_trans)+
  moreover obtain tails where "hyp_from_finished_loop s i (bookkeep s ! i ! h) = Inr tails"
      "map tokenid tails = anc_tokens s i (bookkeep s ! i ! h)"
    using Suc.IH [OF _ q] Suc.prems(1) by auto
  ultimately show ?case
    using Suc.prems(1) la i hb by simp
qed

lemma n_best_list_of_ok:
  assumes "hist_ok s" "bookkeep s \<noteq> []"
  shows "\<forall>h\<in>set hs. timestep h < length (outputs s) \<and> hypid h < beam_size s \<Longrightarrow>
     \<exists>res. n_best_list_of s hs = Inr res \<and> length res = length hs
       \<and> (\<forall>(pred, sc)\<in>set res. \<exists>h\<in>set hs.
             pred = rev (anc_tokens s (timestep h) (hypid h)))"
proof (induction hs)
  case Nil
  then show ?case by simp
next
  case (Cons h hs)
  have a: "timestep h < length (outputs s)" "hypid h < beam_size s"
    using Cons.prems by simp_all
  obtain tails where t: "hyp_from_finished_loop s (timestep h) (hypid h) = Inr tails"
      "map tokenid tails = anc_tokens s (timestep h) (hypid h)"
    using hyp_from_finished_loop_ok [OF assms a] by blast
  obtain rest where r: "n_best_list_of s hs = Inr rest" "length rest = length hs"
      "\<forall>(pred, sc)\<in>set rest. \<exists>h\<in>set hs. pred = rev (anc_tokens s (timestep h) (hypid h))"
    using Cons.IH Cons.prems by auto
  have p: "get_pretty_hypothesis tails = rev (anc_tokens s (timestep h) (hypid h))"
    unfolding get_pretty_hypothesis_def rev_map [symmetric] t(2) by (rule refl)
  show ?case
    using t(1) r p by (auto simp: get_hyp_from_finished_def)
qed

lemma force_finished_ok:
  assumes inv: "ts_inv s" and ne: "bookkeep s \<noteq> []"
    and top: "finished s \<noteq> [] \<or> (0 < beam_size s \<and> last (all_scores s) ! 0 \<noteq> NegInf)"
  shows "\<exists>s'. force_finished s = Inr s' \<and> hist_ok s' \<and> bookkeep s' \<noteq> [] \<and> eos s' = eos s
           \<and> finished s' \<noteq> []
           \<and> (\<forall>f\<in>set (finished s'). timestep f < length (outputs s') \<and> hypid f < beam_size s'
                 \<and> count_list (anc_tokens s' (timestep f) (hypid f)) (eos s) = 1)"
proof (cases "finished s = []")
  case False
  have h_ok: "hist_ok s"
    and chain: "\<forall>t<length (outputs s). \<forall>h<beam_size s. all_scores s ! t ! h \<noteq> NegInf \<longrightarrow>
                  eos s \<notin> set (tl (anc_tokens s t h))"
    and fins: "\<forall>f\<in>set (finished s). timestep f < length (outputs s) \<and> hypid f < beam_size s \<and>
                 outputs s ! timestep f ! hypid f = eos s \<and>
                 all_scores s ! timestep f ! hypid f \<noteq> NegInf"
    using inv unfolding ts_inv_def by simp_all
  have "count_list (anc_tokens s (timestep f) (hypid f)) (eos s) = 1"
    if "f \<in> set (finished s)" for f
  proof -
    have "eos s \<notin> set (tl (anc_tokens s (timestep f) (hypid f)))"
      and "outputs s ! timestep f ! hypid f = eos s"
      using fins chain that by blast+
    then show ?thesis
      by (subst anc_tokens_hd_tl) simp
  qed
  then show ?thesis
    using False h_ok ne fins by (auto simp: force_finished_def)
next
  case True
  then have Bpos: "0 < beam_size s" and fin0: "last (all_scores s) ! 0 \<noteq> NegInf"
    using top by simp_all
  have h_ok: "hist_ok s"
    and chain: "\<forall>t<length (outputs s). \<forall>h<beam_size s. all_scores s ! t ! h \<noteq> NegInf \<longrightarrow>
                  eos s \<notin> set (tl (anc_tokens s t h))"
    using inv unfolding ts_inv_def by simp_all
  have la: "length (all_scores s) = length (outputs s)"
    and lb: "Suc (length (bookkeep s)) = length (outputs s)"
    and rows: "\<forall>t<length (outputs s).
         beam_size s \<le> length (outputs s ! t) \<and> beam_size s \<le> length (all_scores s ! t)"
    and bk: "\<forall>t<length (bookkeep s). beam_size s \<le> length (bookkeep s ! t) \<and>
               (\<forall>h<beam_size s. bookkeep s ! t ! h < beam_size s)"
    using h_ok unfolding hist_ok_def by simp_all
  define T0 where "T0 = length (bookkeep s)"
  have lo: "length (outputs s) = Suc T0" using lb by (simp add: T0_def)
  have las: "length (all_scores s) = Suc T0" using la lo by simp
  have last_o: "last (outputs s) = outputs s ! T0" using lo by (rule last_eq_nth)
  have last_a: "last (all_scores s) = all_scores s ! T0" using las by (rule last_eq_nth)
  have rowT: "0 < length (outputs s ! T0)" "0 < length (all_scores s ! T0)"
    using rows lo Bpos by (metis lessI less_le_trans)+
  define outs where "outs = butlast (outputs s) @ [(last (outputs s))[0 := eos s]]"
  define s' where "s' = s\<lparr> outputs := outs,
      finished := [\<lparr>timestep = length outs - 1, hypid = 0,
                    score = last (all_scores s) ! 0, tokenid = last outs ! 0\<rparr>] \<rparr>"
  have ff: "force_finished s = Inr s'"
    using True lo las rowT last_o last_a
    by (auto simp: force_finished_def Let_def s'_def outs_def)
  have louts: "length outs = Suc T0" using lo by (simp add: outs_def)
  have outs_old: "\<And>i. i < T0 \<Longrightarrow> outs ! i = outputs s ! i"
    using lo by (simp add: outs_def nth_append nth_butlast)
  have outs_T: "outs ! T0 = (outputs s ! T0)[0 := eos s]"
    using lo last_o by (simp add: outs_def nth_append)
  have f': "outputs s' = outs" "bookkeep s' = bookkeep s" "all_scores s' = all_scores s"
      "beam_size s' = beam_size s" "eos s' = eos s"
      "finished s' = [\<lparr>timestep = T0, hypid = 0,
                    score = last (all_scores s) ! 0, tokenid = last outs ! 0\<rparr>]"
    using louts by (simp_all add: s'_def)
  have h_ok': "hist_ok s'"
    unfolding hist_ok_def f' louts
  proof (intro conjI allI impI)
    show "length (all_scores s) = Suc T0" using las .
    show "Suc (length (bookkeep s)) = Suc T0" by (simp add: T0_def)
  next
    fix i assume i: "i < Suc T0"
    then consider "i < T0" | "i = T0" by linarith
    then show "beam_size s \<le> length (outs ! i)"
      using rows lo by cases (simp_all add: outs_old outs_T)
    show "beam_size s \<le> length (all_scores s ! i)"
      using rows lo i by simp
  next
    fix i assume "i < length (bookkeep s)"
    then show "beam_size s \<le> length (bookkeep s ! i)" using bk by simp
  next
    fix i h assume "i < length (bookkeep s)" "h < beam_size s"
    then show "bookkeep s ! i ! h < beam_size s" using bk by simp
  qed
  have tl_eq: "tl (anc_tokens s' T0 0) = tl (anc_tokens s T0 0)"
    by (rule anc_tokens_tl_cong) (simp_all add: f' outs_old)
  have "eos s \<notin> set (tl (anc_tokens s T0 0))"
    using chain lo Bpos fin0 last_a by simp
  moreover have "outputs s' ! T0 ! 0 = eos s"
    using rowT by (simp add: f' outs_T)
  ultimately have cnt: "count_list (anc_tokens s' T0 0) (eos s) = 1"
    using tl_eq by (subst anc_tokens_hd_tl) simp
  show ?thesis
    using ff h_ok' ne Bpos cnt louts by (simp add: f')
qed

lemma get_rescored_finished_ok:
  assumes inv: "ts_inv s" and ne: "bookkeep s \<noteq> []" and n: "n_best \<noteq> Some 0"
    and top: "finished s \<noteq> [] \<or> (0 < beam_size s \<and> last (all_scores s) ! 0 \<noteq> NegInf)"
  shows "\<exists>s' res. get_rescored_finished s n_best = Inr (s', res) \<and> res \<noteq> []
           \<and> (\<forall>(pred, sc)\<in>set res. count_list pred (eos s) = 1)"
proof -
  obtain s' where ff: "force_finished s = Inr s'" and h_ok: "hist_ok s'"
    and ne': "bookkeep s' \<noteq> []" and e: "eos s' = eos s" and fne: "finished s' \<noteq> []"
    and fs: "\<forall>f\<in>set (finished s'). timestep f < length (outputs s') \<and> hypid f < beam_size s'
                 \<and> count_list (anc_tokens s' (timestep f) (hypid f)) (eos s) = 1"
    using force_finished_ok [OF inv ne top] by blast
  define srted where "srted = sort_desc score (map (rescore s') (finished s'))"
  define pick where "pick = (case n_best of None \<Rightarrow> srted | Some k \<Rightarrow> take k srted)"
  have srted_ne: "srted \<noteq> []"
    using fne by (metis length_0_conv length_map sort_desc_length srted_def)
  have pick_ne: "pick \<noteq> []"
    using srted_ne n by (auto simp: pick_def split: option.splits)
  have pick_sub: "set pick \<subseteq> rescore s' ` set (finished s')"
    using set_take_subset [of _ srted]
    by (auto simp: pick_def srted_def split: option.splits)
  have pick_ok: "\<forall>h\<in>set pick. timestep h < length (outputs s') \<and> hypid h < beam_size s'
      \<and> count_list (anc_tokens s' (timestep h) (hypid h)) (eos s) = 1"
  proof
    fix h assume "h \<in> set pick"
    then obtain f where f: "f \<in> set (finished s')" "h = rescore s' f"
      using pick_sub by auto
    have "timestep h = timestep f" "hypid h = hypid f"
      using f(2) by (simp_all add: rescore_def)
    then show "timestep h < length (outputs s') \<and> hypid h < beam_size s'
      \<and> count_list (anc_tokens s' (timestep h) (hypid h)) (eos s) = 1"
      using fs f(1) by simp
  qed
  obtain res where res: "n_best_list_of s' pick = Inr res" "length res = length pick"
      "\<forall>(pred, sc)\<in>set res. \<exists>h\<in>set pick. pred = rev (anc_tokens s' (timestep h) (hypid h))"
    using n_best_list_of_ok [OF h_ok ne', of pick] pick_ok by blast
  have res_ne: "res \<noteq> []" using res(2) pick_ne by auto
  have cnt: "\<forall>(pred, sc)\<in>set res. count_list pred (eos s) = 1"
    using res(3) pick_ok by fastforce
  have "get_rescored_finished s n_best = Inr (s', res)"
  proof -
    have len: "1 \<le> length res" using res_ne by (cases res) auto
    have "\<not> (\<exists>(pred, sc)\<in>set res. count_list pred (eos s') \<noteq> 1)"
      using cnt e by auto
    then show ?thesis
      using ff res(1) len
      unfolding get_rescored_finished_def Let_def pick_def srted_def by simp
  qed
  then show ?thesis
    using res_ne cnt by blast
qed

subsection \<open>C6: the postconditions of get\_rescored\_finished\<close>

text \<open>
  Where the postconditions do hold. After at least one advance call of BeamSearch on a
  freshly built object, with rectangular tensors, a call of \<open>get_rescored_finished\<close>
  with \<open>n_best\<close> absent or at least 1 returns at least one hypothesis, each with the
  end token exactly once, if a trace has finished or the top slot's latest score is
  finite.
\<close>

lemma beam_rescored_postconditions:
  assumes "sel = beam_select_paths B'" and "\<forall>lp\<in>set lps. \<exists>V. rect V lp" and "lps \<noteq> []"
    and "advance_all sel (tree_search_init B blk cblk p bo e m lpen) lps = Inr s"
    and "n_best \<noteq> Some 0"
    and "finished s \<noteq> [] \<or> (0 < B \<and> last (all_scores s) ! 0 \<noteq> NegInf)"
  shows "\<exists>s' res. get_rescored_finished s n_best = Inr (s', res) \<and> res \<noteq> []
           \<and> (\<forall>(pred, sc)\<in>set res. count_list pred e = 1)"
proof -
  define s0 where "s0 = tree_search_init B blk cblk p bo e m lpen"
  have run: "advance_all sel s0 lps = Inr s" using assms(4) by (simp add: s0_def)
  have inv: "ts_inv s"
    using ts_inv_advance_all [OF _ assms(1,2) run] ts_inv_init by (simp add: s0_def)
  note fr = advance_all_frame [OF run]
  have B: "beam_size s = B" and e: "eos s = e"
    using fr by (simp_all add: s0_def tree_search_init_def)
  have "length (bookkeep s) = length lps"
    using fr by (simp add: s0_def tree_search_init_def)
  then have ne: "bookkeep s \<noteq> []" using assms(3) by auto
  have top: "finished s \<noteq> [] \<or> (0 < beam_size s \<and> last (all_scores s) ! 0 \<noteq> NegInf)"
    using assms(6) B by simp
  show ?thesis
    using get_rescored_finished_ok [OF inv ne assms(5) top] e by simp
qed

text \<open>
  Two calls outside the intended use: with \<open>n_best = 0\<close> the list is cut to nothing
  and the first assertion raises; before any advance \<open>bookkeep[-1]\<close> raises an
  IndexError.
\<close>

lemma get_rescored_finished_misuse:
  "advance_all (beam_select_paths 1) ex_run_s0 [ex_lp_word, ex_lp_word, ex_lp_word, ex_lp_end]
     = Inr ex_run_s4
   \<and> get_rescored_finished ex_run_s4 (Some 0) = Inl AssertionError
   \<and> get_rescored_finished ex_run_s0 None = Inl IndexError"
proof -
  have a: "get_rescored_finished ex_run_s4 (Some 0) = Inl AssertionError"
    by (simp add: get_rescored_finished_def force_finished_def ex_run_s4_def ex_run_s1_def)
  have b: "get_rescored_finished ex_run_s0 None = Inl IndexError"
    by (simp add: get_rescored_finished_def force_finished_def rescore_def length_penalty_of_def
        sort_desc_def get_hyp_from_finished_def ex_run_s0_eq)
  show ?thesis using ex_run a b by simp
qed

subsection \<open>C6: a run that trips the assertion\<close>

lemma ex_trip_s0_eq:
  "ex_trip_s0 = \<lparr>beam_size = 1, length_penalty = 65 / 100, block_ngram = 1, min_length = 3,
            eos = 0, bos = 1, pad = 2, context_toks = None,
            context_block_ngram = - 1, block_list = None, scores = None,
            all_scores = [[Fin 0]], bookkeep = [], outputs = [[1]], finished = [],
            eos_top = False, eos_top_ts = None, n_best_counter = 0,
            partial_hyps = [[1]]\<rparr>"
  by (simp add: ex_trip_s0_def tree_search_init_def)

lemmas block_eval = find_ngrams_def slice_from_neg_def

lemma ex_trip_step1:
  "advance (beam_select_paths 1) ex_trip_s0 ex_trip_lp
     = Inr (ex_trip_s1, [[NegInf, NegInf, Fin (-9), Fin (-1/2)]])"
  by (simp add: advance_eval beam_eval block_eval ex_trip_s0_eq ex_trip_s1_def ex_trip_lp_def
      upt_4)

lemma ex_trip_step2:
  "advance (beam_select_paths 1) ex_trip_s1 ex_trip_lp
     = Inr (ex_trip_s2, [[NegInf, NegInf, Fin (-9), NegInf]])"
  apply (simp add: advance_eval beam_eval block_eval ex_trip_s1_def ex_trip_s2_def ex_trip_lp_def
      upt_4 upt_rec [of 0 2] upt_rec [of 1 2])
  done

lemma ex_trip_step3:
  "advance (beam_select_paths 1) ex_trip_s2 ex_trip_lp
     = Inr (ex_trip_s3, [[NegInf, NegInf, NegInf, NegInf]])"
  by (simp add: advance_eval beam_eval block_eval ex_trip_s1_def ex_trip_s2_def ex_trip_s3_def
      ex_trip_lp_def upt_4 upt_rec [of 0 3] upt_rec [of 1 3] upt_rec [of 2 3])

lemma ex_trip_step4:
  "advance (beam_select_paths 1) ex_trip_s3 ex_trip_lp
     = Inr (ex_trip_s4, [[NegInf, NegInf, NegInf, NegInf]])"
  by (simp add: advance_eval beam_eval block_eval ex_trip_s1_def ex_trip_s3_def ex_trip_s4_def
      ex_trip_lp_def upt_4 upt_rec [of 0 4] upt_rec [of 1 4] upt_rec [of 2 4] upt_rec [of 3 4])

lemma ex_trip_run:
  "advance_all (beam_select_paths 1) ex_trip_s0 [ex_trip_lp, ex_trip_lp, ex_trip_lp, ex_trip_lp]
     = Inr ex_trip_s4"
  by (simp add: ex_trip_step1 ex_trip_step2 ex_trip_step3 ex_trip_step4 del: One_nat_def)

lemma ex_trip_unfinished: "finished ex_trip_s4 = []"
  by (simp add: ex_trip_s4_def ex_trip_s1_def)

lemma ex_trip_force: "force_finished ex_trip_s4 = Inr ex_trip_forced"
  by (simp add: force_finished_def ex_trip_forced_def ex_trip_s4_def ex_trip_s1_def)

lemma ex_trip_trace:
  "n_best_list_of ex_trip_forced (map (rescore ex_trip_forced) (finished ex_trip_forced))
     = Inr [([1, 3, 2, 0, 0], NegInf)]"
  by (simp add: rescore_def get_hyp_from_finished_def get_pretty_hypothesis_def
      ex_trip_forced_def ex_trip_s4_def ex_trip_s1_def eval_nat_numeral)

lemma ex_trip_eos: "eos ex_trip_forced = 0"
  by (simp add: ex_trip_forced_def ex_trip_s4_def ex_trip_s1_def)

lemma ex_trip_fin1: "\<exists>x. map (rescore ex_trip_forced) (finished ex_trip_forced) = [x]"
  by (simp add: ex_trip_forced_def)

lemma ex_trip_factory: "treesearch_factory ex_trip_opt = Inr (BeamSearch, ex_trip_s0)"
  by (simp add: treesearch_factory_def ex_trip_opt_def ex_trip_s0_def)

lemma ex_trip_raises: "get_rescored_finished ex_trip_s4 None = Inl AssertionError"
proof -
  obtain x where x: "map (rescore ex_trip_forced) (finished ex_trip_forced) = [x]"
    using ex_trip_fin1 by (rule exE)
  show ?thesis
    using ex_trip_trace
    by (simp add: get_rescored_finished_def ex_trip_force x ex_trip_eos)
qed

text \<open>
  C6. The claim: however advance has been called, get_rescored_finished returns at
  least one hypothesis, each with exactly one end token, and neither of its two
  assertions can fail. The code at a run that generation can produce: BeamSearch as
  the factory builds it with beam size 1, minimum length 3 and unigram self-blocking,
  over four tokens, given four times the same finite log-probabilities. After the word and the padding token every
  candidate of the third and of the fourth step is masked to minus infinity, slot 0
  takes the end token twice, each time at score minus infinity, so that no trace is
  recorded as finished; get_rescored_finished then forces slot 0, rebuilds the
  sequence [1, 3, 2, 0, 0] with two end tokens, and its own assertion raises.
\<close>

theorem get_rescored_finished_trips_assertion:
  "treesearch_factory ex_trip_opt = Inr (BeamSearch, ex_trip_s0)
   \<and> advance_all (beam_select_paths 1) ex_trip_s0 [ex_trip_lp, ex_trip_lp, ex_trip_lp, ex_trip_lp]
     = Inr ex_trip_s4
   \<and> finished ex_trip_s4 = []
   \<and> (\<exists>s'. force_finished ex_trip_s4 = Inr s'
          \<and> n_best_list_of s' (map (rescore s') (finished s')) = Inr [([1, 3, 2, 0, 0], NegInf)])
   \<and> get_rescored_finished ex_trip_s4 None = Inl AssertionError"
  using ex_trip_factory ex_trip_run ex_trip_unfinished ex_trip_force ex_trip_trace ex_trip_raises by blast

subsection \<open>C5: get\_rescored\_finished\<close>

text \<open>
  With finished traces that lie inside the histories and hold the end token once, the
  call returns.
\<close>

lemma get_rescored_finished_returns:
  assumes ff: "force_finished s = Inr s'" and h_ok: "hist_ok s'" and ne': "bookkeep s' \<noteq> []"
    and n: "n_best \<noteq> Some 0" and fne: "finished s' \<noteq> []"
    and fs: "\<forall>f\<in>set (finished s'). timestep f < length (outputs s') \<and> hypid f < beam_size s'
                 \<and> count_list (anc_tokens s' (timestep f) (hypid f)) (eos s') = 1"
  shows "\<exists>res. get_rescored_finished s n_best = Inr (s', res) \<and> res \<noteq> []
           \<and> (\<forall>(pred, sc)\<in>set res. \<exists>f\<in>set (finished s').
                 pred = rev (anc_tokens s' (timestep f) (hypid f)))"
proof -
  define srted where "srted = sort_desc score (map (rescore s') (finished s'))"
  define pick where "pick = (case n_best of None \<Rightarrow> srted | Some k \<Rightarrow> take k srted)"
  have srted_ne: "srted \<noteq> []"
    using fne by (metis length_0_conv length_map sort_desc_length srted_def)
  have pick_ne: "pick \<noteq> []"
    using srted_ne n by (auto simp: pick_def split: option.splits)
  have pick_sub: "set pick \<subseteq> rescore s' ` set (finished s')"
    using set_take_subset [of _ srted]
    by (auto simp: pick_def srted_def split: option.splits)
  have pick_ok: "\<forall>h\<in>set pick. timestep h < length (outputs s') \<and> hypid h < beam_size s'"
  proof
    fix h assume "h \<in> set pick"
    then obtain f where f: "f \<in> set (finished s')" "h = rescore s' f"
      using pick_sub by auto
    have "timestep h = timestep f" "hypid h = hypid f"
      using f(2) by (simp_all add: rescore_def)
    then show "timestep h < length (outputs s') \<and> hypid h < beam_size s'"
      using fs f(1) by simp
  qed
  obtain res where res: "n_best_list_of s' pick = Inr res" "length res = length pick"
      "\<forall>(pred, sc)\<in>set res. \<exists>h\<in>set pick. pred = rev (anc_tokens s' (timestep h) (hypid h))"
    using n_best_list_of_ok [OF h_ok ne', of pick] pick_ok by blast
  have res_ne: "res \<noteq> []" using res(2) pick_ne by auto
  have src: "\<forall>(pred, sc)\<in>set res. \<exists>f\<in>set (finished s').
                 pred = rev (anc_tokens s' (timestep f) (hypid f))"
  proof (clarify)
    fix pred sc assume "(pred, sc) \<in> set res"
    then obtain h where h: "h \<in> set pick" "pred = rev (anc_tokens s' (timestep h) (hypid h))"
      using res(3) by blast
    then obtain f where f: "f \<in> set (finished s')" "h = rescore s' f"
      using pick_sub by auto
    have "timestep h = timestep f" "hypid h = hypid f"
      using f(2) by (simp_all add: rescore_def)
    then show "\<exists>f\<in>set (finished s'). pred = rev (anc_tokens s' (timestep f) (hypid f))"
      using h(2) f(1) by auto
  qed
  have cnt: "\<forall>(pred, sc)\<in>set res. count_list pred (eos s') = 1"
    using src fs by fastforce
  have "get_rescored_finished s n_best = Inr (s', res)"
  proof -
    have len: "1 \<le> length res" using res_ne by (cases res) auto
    have "\<not> (\<exists>(pred, sc)\<in>set res. count_list pred (eos s') \<noteq> 1)"
      using cnt by auto
    then show ?thesis
      using ff res(1) len
      unfolding get_rescored_finished_def Let_def pick_def srted_def by simp
  qed
  then show ?thesis
    using res_ne src by blast
qed

text \<open>
  Without a finished trace the call forces one: slot 0 of the last output row becomes
  the end token and the only finished trace.
\<close>

lemma force_finished_forced:
  assumes h_ok: "hist_ok s" and ne: "bookkeep s \<noteq> []" and fin: "finished s = []"
    and Bpos: "0 < beam_size s"
    and s'_def: "s' = s\<lparr>outputs := butlast (outputs s) @ [(last (outputs s))[0 := eos s]],
      finished := [\<lparr>timestep = length (bookkeep s), hypid = 0,
                    score = last (all_scores s) ! 0, tokenid = eos s\<rparr>]\<rparr>"
  shows "force_finished s = Inr s'" and "hist_ok s'"
    and "anc_tokens s' (length (bookkeep s)) 0
           = eos s # tl (anc_tokens s (length (bookkeep s)) 0)"
proof -
  have la: "length (all_scores s) = length (outputs s)"
    and lb: "Suc (length (bookkeep s)) = length (outputs s)"
    and rows: "\<forall>t<length (outputs s).
         beam_size s \<le> length (outputs s ! t) \<and> beam_size s \<le> length (all_scores s ! t)"
    and bk: "\<forall>t<length (bookkeep s). beam_size s \<le> length (bookkeep s ! t) \<and>
               (\<forall>h<beam_size s. bookkeep s ! t ! h < beam_size s)"
    using h_ok unfolding hist_ok_def by simp_all
  define T0 where "T0 = length (bookkeep s)"
  have lo: "length (outputs s) = Suc T0" using lb by (simp add: T0_def)
  have las: "length (all_scores s) = Suc T0" using la lo by simp
  have last_o: "last (outputs s) = outputs s ! T0" using lo by (rule last_eq_nth)
  have last_a: "last (all_scores s) = all_scores s ! T0" using las by (rule last_eq_nth)
  have rowT: "0 < length (outputs s ! T0)" "0 < length (all_scores s ! T0)"
    using rows lo Bpos by (metis lessI less_le_trans)+
  define outs where "outs = butlast (outputs s) @ [(last (outputs s))[0 := eos s]]"
  have louts: "length outs = Suc T0" using lo by (simp add: outs_def)
  have outs_old: "\<And>i. i < T0 \<Longrightarrow> outs ! i = outputs s ! i"
    using lo by (simp add: outs_def nth_append nth_butlast)
  have outs_T: "outs ! T0 = (outputs s ! T0)[0 := eos s]"
    using lo last_o by (simp add: outs_def nth_append)
  have last_outs: "last outs ! 0 = eos s"
    using rowT last_o by (simp add: outs_def)
  show ff: "force_finished s = Inr s'"
    using fin lo las rowT last_o last_a last_outs louts
    by (auto simp: force_finished_def Let_def s'_def outs_def T0_def)
  have f': "outputs s' = outs" "bookkeep s' = bookkeep s" "all_scores s' = all_scores s"
      "beam_size s' = beam_size s"
    by (simp_all add: s'_def outs_def)
  show "hist_ok s'"
    unfolding hist_ok_def f' louts
  proof (intro conjI allI impI)
    show "length (all_scores s) = Suc T0" using las .
    show "Suc (length (bookkeep s)) = Suc T0" by (simp add: T0_def)
  next
    fix i assume i: "i < Suc T0"
    then consider "i < T0" | "i = T0" by linarith
    then show "beam_size s \<le> length (outs ! i)"
      using rows lo by cases (simp_all add: outs_old outs_T)
    show "beam_size s \<le> length (all_scores s ! i)"
      using rows lo i by simp
  next
    fix i assume "i < length (bookkeep s)"
    then show "beam_size s \<le> length (bookkeep s ! i)" using bk by simp
  next
    fix i h assume "i < length (bookkeep s)" "h < beam_size s"
    then show "bookkeep s ! i ! h < beam_size s" using bk by simp
  qed
  have tl_eq: "tl (anc_tokens s' T0 0) = tl (anc_tokens s T0 0)"
    by (rule anc_tokens_tl_cong) (simp_all add: f' outs_old)
  have "outputs s' ! T0 ! 0 = eos s"
    using rowT by (simp add: f' outs_T)
  then show "anc_tokens s' (length (bookkeep s)) 0
           = eos s # tl (anc_tokens s (length (bookkeep s)) 0)"
    using tl_eq anc_tokens_hd_tl [of s' T0 0] by (simp add: T0_def)
qed

lemma get_rescored_finished_forces:
  assumes h_ok: "hist_ok s" and ne: "bookkeep s \<noteq> []" and n: "n_best \<noteq> Some 0"
    and fin: "finished s = []" and Bpos: "0 < beam_size s"
    and clean: "eos s \<notin> set (tl (anc_tokens s (length (bookkeep s)) 0))"
  shows "get_rescored_finished s n_best
    = Inr (s\<lparr>outputs := butlast (outputs s) @ [(last (outputs s))[0 := eos s]],
             finished := [\<lparr>timestep = length (bookkeep s), hypid = 0,
                           score = last (all_scores s) ! 0, tokenid = eos s\<rparr>]\<rparr>,
           [(rev (tl (anc_tokens s (length (bookkeep s)) 0)) @ [eos s],
             score_div (last (all_scores s) ! 0)
               (((1 + real (length (outputs s))) / 6) powr length_penalty s))])"
proof -
  define T0 where "T0 = length (bookkeep s)"
  define f where "f = \<lparr>timestep = T0, hypid = 0,
                    score = last (all_scores s) ! 0, tokenid = eos s\<rparr>"
  define s' where "s' = s\<lparr>outputs := butlast (outputs s) @ [(last (outputs s))[0 := eos s]],
      finished := [f]\<rparr>"
  have s'_eq: "s' = s\<lparr>outputs := butlast (outputs s) @ [(last (outputs s))[0 := eos s]],
      finished := [\<lparr>timestep = length (bookkeep s), hypid = 0,
                    score = last (all_scores s) ! 0, tokenid = eos s\<rparr>]\<rparr>"
    by (simp add: s'_def f_def T0_def)
  note ff = force_finished_forced [OF h_ok ne fin Bpos s'_eq, folded T0_def]
  have lo: "length (outputs s) = Suc T0"
    using h_ok unfolding hist_ok_def T0_def by simp
  have f': "finished s' = [f]" "bookkeep s' = bookkeep s" "beam_size s' = beam_size s"
    "eos s' = eos s" "length_penalty s' = length_penalty s" "length (outputs s') = Suc T0"
    using lo by (simp_all add: s'_def)
  define r where "r = rescore s' f"
  have r: "timestep r = T0" "hypid r = 0"
    "score r = score_div (last (all_scores s) ! 0)
                 (((1 + real (length (outputs s))) / 6) powr length_penalty s)"
    using lo by (simp_all add: r_def rescore_def length_penalty_of_def f_def f')
  have pick: "(case n_best of None \<Rightarrow> [r] | Some k \<Rightarrow> take k [r]) = [r]"
    using n by (cases n_best) (auto simp: take_Cons')
  obtain tails where t: "hyp_from_finished_loop s' T0 0 = Inr tails"
    "map tokenid tails = anc_tokens s' T0 0"
    using hyp_from_finished_loop_ok [OF ff(2), of T0 0] ne Bpos f' by auto
  have p: "get_pretty_hypothesis tails = rev (tl (anc_tokens s T0 0)) @ [eos s]"
    unfolding get_pretty_hypothesis_def rev_map [symmetric] t(2) ff(3) by simp
  have gh: "get_hyp_from_finished s' r = Inr tails"
    using t(1) r(1,2) by (simp add: get_hyp_from_finished_def)
  have nb: "n_best_list_of s' [r] = Inr [(rev (tl (anc_tokens s T0 0)) @ [eos s], score r)]"
    using t(1) p r(1,2) by (simp add: get_hyp_from_finished_def)
  have cnt: "count_list (tl (anc_tokens s T0 0)) (eos s) = 0"
    using clean by (simp add: T0_def count_list_0_iff)
  have "get_rescored_finished s n_best
          = Inr (s', [(rev (tl (anc_tokens s T0 0)) @ [eos s], score r)])"
  proof -
    have srt: "sort_desc score (map (rescore s') (finished s')) = [r]"
      by (simp add: f' r_def)
    have pk: "(case n_best of None \<Rightarrow> sort_desc score (map (rescore s') (finished s'))
               | Some k \<Rightarrow> take k (sort_desc score (map (rescore s') (finished s')))) = [r]"
      unfolding srt by (rule pick)
    show ?thesis
      by (simp add: get_rescored_finished_def Let_def ff(1) pk gh p cnt f'(4))
  qed
  then show ?thesis
    unfolding s'_def f_def T0_def r(3) .
qed

text \<open>
  C5. A call of \<open>get_rescored_finished\<close> that returns gives, for every finished trace
  it keeps, the token sequence of length \<open>timestep + 1\<close> with the trace's raw score
  divided by \<open>((1 + length) / 6) powr length_penalty\<close>, where \<open>length\<close> counts the tokens
  of the sequence; the list is in descending order of the adjusted scores and holds
  all traces without \<open>n_best\<close>, the first \<open>n\<close> with it. A raw score of -2 with five
  tokens and exponent 0.65 keeps the score -2. Without a finished trace, on histories
  of the shape that \<open>advance\<close> builds and with no end token among the ancestors of
  slot 0, the call returns the one trace it forces: slot 0 of the last output row is
  overwritten with the end token, and that sequence is rescored. With finished traces
  that hold the end token once, the call returns and leaves the object as it is.
\<close>

theorem get_rescored_finished_spec:
  "(\<forall>s' res. get_rescored_finished s n_best = Inr (s', res) \<longrightarrow>
       force_finished s = Inr s'
       \<and> (finished s \<noteq> [] \<longrightarrow> s' = s)
       \<and> (finished s = [] \<longrightarrow>
             outputs s' = butlast (outputs s) @ [(last (outputs s))[0 := eos s]]
             \<and> finished s' = [\<lparr>timestep = length (outputs s) - 1, hypid = 0,
                                 score = last (all_scores s) ! 0, tokenid = eos s\<rparr>])
       \<and> map snd res =
           map score ((case n_best of None \<Rightarrow> id | Some n \<Rightarrow> take n)
                        (sort_desc score (map (rescore s') (finished s'))))
       \<and> (\<forall>(pred, sc)\<in>set res. \<exists>f\<in>set (finished s').
             length pred = timestep f + 1 \<and>
             sc = score_div (score f) (((1 + real (length pred)) / 6) powr length_penalty s))
       \<and> sorted_wrt (\<lambda>a b. snd b \<le> snd a) res
       \<and> length res = (case n_best of None \<Rightarrow> length (finished s')
                        | Some n \<Rightarrow> min n (length (finished s'))))
   \<and> (\<forall>f. timestep f = 4 \<longrightarrow> score f = Fin (- 2) \<longrightarrow>
         score (rescore (s\<lparr>length_penalty := 65 / 100\<rparr>) f) = Fin (- 2))
   \<and> (hist_ok s \<and> bookkeep s \<noteq> [] \<and> n_best \<noteq> Some 0 \<and> finished s = [] \<and> 0 < beam_size s
         \<and> eos s \<notin> set (tl (anc_tokens s (length (bookkeep s)) 0)) \<longrightarrow>
       get_rescored_finished s n_best
         = Inr (s\<lparr>outputs := butlast (outputs s) @ [(last (outputs s))[0 := eos s]],
                  finished := [\<lparr>timestep = length (bookkeep s), hypid = 0,
                                score = last (all_scores s) ! 0, tokenid = eos s\<rparr>]\<rparr>,
                [(rev (tl (anc_tokens s (length (bookkeep s)) 0)) @ [eos s],
                  score_div (last (all_scores s) ! 0)
                    (((1 + real (length (outputs s))) / 6) powr length_penalty s))]))
   \<and> (hist_ok s \<and> bookkeep s \<noteq> [] \<and> n_best \<noteq> Some 0 \<and> finished s \<noteq> []
         \<and> (\<forall>f\<in>set (finished s). timestep f < length (outputs s) \<and> hypid f < beam_size s
               \<and> count_list (anc_tokens s (timestep f) (hypid f)) (eos s) = 1) \<longrightarrow>
       (\<exists>res. get_rescored_finished s n_best = Inr (s, res) \<and> res \<noteq> []))"
proof (intro conjI)
  show "\<forall>s' res. get_rescored_finished s n_best = Inr (s', res) \<longrightarrow>
       force_finished s = Inr s'
       \<and> (finished s \<noteq> [] \<longrightarrow> s' = s)
       \<and> (finished s = [] \<longrightarrow>
             outputs s' = butlast (outputs s) @ [(last (outputs s))[0 := eos s]]
             \<and> finished s' = [\<lparr>timestep = length (outputs s) - 1, hypid = 0,
                                 score = last (all_scores s) ! 0, tokenid = eos s\<rparr>])
       \<and> map snd res =
           map score ((case n_best of None \<Rightarrow> id | Some n \<Rightarrow> take n)
                        (sort_desc score (map (rescore s') (finished s'))))
       \<and> (\<forall>(pred, sc)\<in>set res. \<exists>f\<in>set (finished s').
             length pred = timestep f + 1 \<and>
             sc = score_div (score f) (((1 + real (length pred)) / 6) powr length_penalty s))
       \<and> sorted_wrt (\<lambda>a b. snd b \<le> snd a) res
       \<and> length res = (case n_best of None \<Rightarrow> length (finished s')
                        | Some n \<Rightarrow> min n (length (finished s')))"
  proof (intro allI impI)
    fix s' res
    assume r: "get_rescored_finished s n_best = Inr (s', res)"
    from get_rescored_finished_returned [OF r]
    show "force_finished s = Inr s'
       \<and> (finished s \<noteq> [] \<longrightarrow> s' = s)
       \<and> (finished s = [] \<longrightarrow>
             outputs s' = butlast (outputs s) @ [(last (outputs s))[0 := eos s]]
             \<and> finished s' = [\<lparr>timestep = length (outputs s) - 1, hypid = 0,
                                 score = last (all_scores s) ! 0, tokenid = eos s\<rparr>])
       \<and> map snd res =
           map score ((case n_best of None \<Rightarrow> id | Some n \<Rightarrow> take n)
                        (sort_desc score (map (rescore s') (finished s'))))
       \<and> (\<forall>(pred, sc)\<in>set res. \<exists>f\<in>set (finished s').
             length pred = timestep f + 1 \<and>
             sc = score_div (score f) (((1 + real (length pred)) / 6) powr length_penalty s))
       \<and> sorted_wrt (\<lambda>a b. snd b \<le> snd a) res
       \<and> length res = (case n_best of None \<Rightarrow> length (finished s')
                        | Some n \<Rightarrow> min n (length (finished s')))"
      by blast
  qed
  show "\<forall>f. timestep f = 4 \<longrightarrow> score f = Fin (- 2) \<longrightarrow>
         score (rescore (s\<lparr>length_penalty := 65 / 100\<rparr>) f) = Fin (- 2)"
    by (simp add: rescore_def length_penalty_of_def)
  show "hist_ok s \<and> bookkeep s \<noteq> [] \<and> n_best \<noteq> Some 0 \<and> finished s = [] \<and> 0 < beam_size s
         \<and> eos s \<notin> set (tl (anc_tokens s (length (bookkeep s)) 0)) \<longrightarrow>
       get_rescored_finished s n_best
         = Inr (s\<lparr>outputs := butlast (outputs s) @ [(last (outputs s))[0 := eos s]],
                  finished := [\<lparr>timestep = length (bookkeep s), hypid = 0,
                                score = last (all_scores s) ! 0, tokenid = eos s\<rparr>]\<rparr>,
                [(rev (tl (anc_tokens s (length (bookkeep s)) 0)) @ [eos s],
                  score_div (last (all_scores s) ! 0)
                    (((1 + real (length (outputs s))) / 6) powr length_penalty s))])"
    using get_rescored_finished_forces [of s n_best] by blast
  show "hist_ok s \<and> bookkeep s \<noteq> [] \<and> n_best \<noteq> Some 0 \<and> finished s \<noteq> []
         \<and> (\<forall>f\<in>set (finished s). timestep f < length (outputs s) \<and> hypid f < beam_size s
               \<and> count_list (anc_tokens s (timestep f) (hypid f)) (eos s) = 1) \<longrightarrow>
       (\<exists>res. get_rescored_finished s n_best = Inr (s, res) \<and> res \<noteq> [])"
  proof
    assume a: "hist_ok s \<and> bookkeep s \<noteq> [] \<and> n_best \<noteq> Some 0 \<and> finished s \<noteq> []
         \<and> (\<forall>f\<in>set (finished s). timestep f < length (outputs s) \<and> hypid f < beam_size s
               \<and> count_list (anc_tokens s (timestep f) (hypid f)) (eos s) = 1)"
    then have ff: "force_finished s = Inr s"
      by (simp add: force_finished_def)
    show "\<exists>res. get_rescored_finished s n_best = Inr (s, res) \<and> res \<noteq> []"
      using get_rescored_finished_returns [OF ff, of n_best] a by blast
  qed
qed

lemma ex_two_s2_shape:
  "hist_ok ex_two_s2 \<and> bookkeep ex_two_s2 \<noteq> [] \<and> finished ex_two_s2 \<noteq> []
     \<and> (\<forall>f\<in>set (finished ex_two_s2). timestep f < length (outputs ex_two_s2)
           \<and> hypid f < beam_size ex_two_s2
           \<and> count_list (anc_tokens ex_two_s2 (timestep f) (hypid f)) (eos ex_two_s2) = 1)"
  by (simp add: hist_ok_def ex_two_s2_def ex_two_s1_def less_Suc_eq eval_nat_numeral)

lemma ex_syn_s1_shape:
  "hist_ok ex_syn_s1 \<and> bookkeep ex_syn_s1 \<noteq> [] \<and> finished ex_syn_s1 = []
     \<and> 0 < beam_size ex_syn_s1
     \<and> eos ex_syn_s1 \<notin> set (tl (anc_tokens ex_syn_s1 (length (bookkeep ex_syn_s1)) 0))"
  by (simp add: hist_ok_def ex_syn_s1_def less_Suc_eq eval_nat_numeral)

theorem get_rescored_finished_spec_witness:
  "get_rescored_finished ex_two_s2 None
       = Inr (ex_two_s2, [([1, 3, 2], Fin (- 9 / 5)), ([1, 2], Fin (- 2))])
     \<and> map snd [([1 :: nat, 3, 2], Fin (- 9 / 5)), ([1, 2], Fin (- 2))]
         = map score (sort_desc score (map (rescore ex_two_s2) (finished ex_two_s2)))
     \<and> get_rescored_finished ex_two_s2 (Some 1) = Inr (ex_two_s2, [([1, 3, 2], Fin (- 9 / 5))])
     \<and> length [([1 :: nat, 3, 2], Fin (- 9 / 5))] = min 1 (length (finished ex_two_s2))
     \<and> (\<exists>res. get_rescored_finished ex_two_s2 (Some 1) = Inr (ex_two_s2, res) \<and> res \<noteq> [])
     \<and> finished ex_syn_s1 = []
     \<and> get_rescored_finished ex_syn_s1 None = Inr (ex_syn_forced, [([1, 2], Fin (- 1))])"
proof -
  note all = get_rescored_finished_spec [of ex_two_s2 None]
  note one = get_rescored_finished_spec [of ex_two_s2 "Some 1"]
  note syn = get_rescored_finished_spec [of ex_syn_s1 None]
  have 1: "map snd [([1 :: nat, 3, 2], Fin (- 9 / 5)), ([1, 2], Fin (- 2))]
         = map score (sort_desc score (map (rescore ex_two_s2) (finished ex_two_s2)))"
    using all ex_two_rescored_all by simp
  have 2: "length [([1 :: nat, 3, 2], Fin (- 9 / 5))] = min 1 (length (finished ex_two_s2))"
    using one ex_two_rescored_one by simp
  have 3: "\<exists>res. get_rescored_finished ex_two_s2 (Some 1) = Inr (ex_two_s2, res) \<and> res \<noteq> []"
    using one ex_two_s2_shape by simp
  have 4: "get_rescored_finished ex_syn_s1 None = Inr (ex_syn_forced, [([1, 2], Fin (- 1))])"
    using syn ex_syn_s1_shape
    by (simp add: ex_syn_s1_def ex_syn_forced_def eval_nat_numeral)
  show ?thesis
    using 1 2 3 4 ex_two_rescored_all ex_two_rescored_one ex_syn_s1_shape by simp
qed

subsection \<open>Evaluating the stepper\<close>

lemmas stepper_eval = step_def step_scores_def prevent_eos_def not_finished_indices_def
  make_cumulative_def num_cands_of_def top_prediction_def topk_int_def topk_def sort_desc_def
  sentence_rows_def add_top1_def row_max_def enumerate_eq_zip
  step_sentence_def loop_state_def advance_cands_def sort_cands_def sort_key_of_def
  broadcast_add_def MAX_SCORE_def select_idx_def dedup_cands_def uniques_mask_of_def roll_def
  cand_key_def masked_select_def stripe_cands_def stripes_of_def slice_to_def assign_row_def
  phrase_ops_def less_score_def

subsection \<open>The composite sort key\<close>

text \<open>
  Where two scores differ by less than 100, the candidate of the higher bank has the
  larger key.
\<close>

lemma sort_key_bank_dominates:
  assumes "b1 < b2" and "x - y < 100"
  shows "Fin (real_of_int ((int nct - int b1) * MAX_SCORE)) + Fin x
           < Fin (real_of_int ((int nct - int b2) * MAX_SCORE)) + Fin y"
proof -
  have "real b1 + 1 \<le> real b2"
    using assms(1) by linarith
  then have "real_of_int ((int nct - int b1) * (-100)) + x
               < real_of_int ((int nct - int b2) * (-100)) + y"
    using assms(2) by simp
  then show ?thesis
    by (simp add: MAX_SCORE_def less_score_def)
qed

text \<open>The example candidates are those of the example step.\<close>

lemma ex_rank_scores:
  "step_scores phrase_ops (ex_rank_search\<lparr>num_cands := 2\<rparr>) 1 ex_rank_lprobs (Some [[Fin 0]]) =
     Inr (ex_rank_lprobs\<lparr>rows3 := [[Fin (-170), NegInf, Fin 0, Fin (-150)]]\<rparr>,
          ex_rank_lprobs\<lparr>rows3 := [[Fin (-170), NegInf, Fin 0, Fin (-150)]]\<rparr>)"
  by (simp add: stepper_eval ex_rank_search_def ex_rank_lprobs_def)

lemma ex_rank_buffers:
  "add_top1 (ex_rank_lprobs\<lparr>rows3 := [[Fin (-170), NegInf, Fin 0, Fin (-150)]]\<rparr>) 1
       [([Fin 0, Fin (-150)], [2, 3], [0, 0])]
     = Inr [([Fin 0, Fin (-150), Fin 0], [2, 3, 2], [0, 0, 0])]"
  by (simp add: stepper_eval ex_rank_lprobs_def)

lemma ex_rank_arise:
  "add_constraints phrase_ops 1 [[Fin (-170), NegInf, Fin 0, Fin (-150)]] 0 [([3], 0)]
      ([0, 0, 0], [2, 3, 2], [Fin 0, Fin (-150), Fin 0])
     = Inr (beams_buf ex_rank_cands, indices_buf ex_rank_cands, scores_buf ex_rank_cands)"
  "advance_cands phrase_ops [([3], 0)] (beams_buf ex_rank_cands) (indices_buf ex_rank_cands)
     = Inr (cand_states ex_rank_cands)"
  "map (bank phrase_ops) (cand_states ex_rank_cands) = banks ex_rank_cands"
  by (simp_all add: stepper_eval ex_rank_cands_def upt_4 less_Suc_eq)

lemma ex_rank_step:
  "step phrase_ops ex_rank_search 1 ex_rank_lprobs (Some [[Fin 0]]) =
     Inr (ex_rank_search\<lparr>constraint_states := [[([3], 1), ([3], 0)]], num_cands := 2\<rparr>,
          ex_rank_lprobs\<lparr>rows3 := [[Fin (-170), NegInf, Fin 0, Fin (-150)]]\<rparr>,
          [([Fin (-150), Fin 0], [3, 2], [0, 0])])"
  by (simp add: stepper_eval ex_rank_search_def ex_rank_lprobs_def upt_4 less_Suc_eq)

text \<open>
  C2. The claim: in the ranking of STEP 4 the candidate of the strictly higher bank
  comes before the candidate of the lower bank whatever their scores are. The sort of
  the source is evaluated on the candidates of the example step: the two candidates
  of bank 0 with score 0 are placed before the two candidates of bank 1 with score
  -150, since their keys are -100 and -150.
\<close>

theorem sort_cands_score_gap_beats_bank:
  "sort_cands 1 ex_rank_cands =
     Inr \<lparr>beams_buf = [0, 0, 0, 0], indices_buf = [2, 2, 3, 3],
          scores_buf = [Fin 0, Fin 0, Fin (-150), Fin (-150)], banks = [0, 0, 1, 1],
          cand_states = [([3], 0), ([3], 0), ([3], 1), ([3], 1)]\<rparr>"
  by (simp add: sort_cands_def sort_key_of_def broadcast_add_def MAX_SCORE_def sort_desc_def
      select_idx_def upt_4 ex_rank_cands_def)

subsection \<open>Removal of duplicates\<close>

lemma cand_key_inj:
  assumes "i \<le> vsize" and "i' \<le> vsize"
  shows "cand_key vsize b i = cand_key vsize b' i' \<longleftrightarrow> b = b' \<and> i = i'"
proof
  assume eq: "cand_key vsize b i = cand_key vsize b' i'"
  have "i < vsize + 1" and "i' < vsize + 1"
    using assms by simp_all
  then have "(b * (vsize + 1) + i) div (vsize + 1) = b"
    and "(b' * (vsize + 1) + i') div (vsize + 1) = b'"
    by (simp_all only: div_mult_self3 div_less add_0_right)
  then have b: "b = b'"
    using eq unfolding cand_key_def by metis
  then show "b = b' \<and> i = i'"
    using eq unfolding cand_key_def by simp
qed simp

text \<open>
  The mask keeps a candidate after the first when it differs from its predecessor;
  it keeps the first candidate when it differs from the last one.
\<close>

lemma uniques_mask_of_spec:
  assumes "uniques_mask_of vsize bb ib = Inr m"
  shows "length m = length bb" and "length bb = length ib" and "bb \<noteq> []"
    and "m ! 0 = (cand_key vsize (last bb) (last ib) \<noteq> cand_key vsize (bb ! 0) (ib ! 0))"
    and "\<And>j. 0 < j \<Longrightarrow> j < length bb \<Longrightarrow>
           m ! j = (cand_key vsize (bb ! (j - 1)) (ib ! (j - 1)) \<noteq> cand_key vsize (bb ! j) (ib ! j))"
proof -
  define u where "u = map (\<lambda>(b, i). cand_key vsize b i) (zip bb ib)"
  have len: "length bb = length ib"
    using assms unfolding uniques_mask_of_def by (simp split: if_splits)
  then have lu: "length u = length bb"
    by (simp add: u_def)
  have ne: "u \<noteq> []"
    using assms len unfolding uniques_mask_of_def roll_def u_def [symmetric]
    by (auto simp: Let_def split: if_splits list.splits)
  then have m: "m = map (\<lambda>(x, y). x \<noteq> y) (zip (last u # butlast u) u)"
    using assms len unfolding uniques_mask_of_def roll_def u_def [symmetric]
    by (auto simp: Let_def split: if_splits list.splits)
  show "length bb = length ib" by (rule len)
  show bne: "bb \<noteq> []" using ne lu by auto
  show lm: "length m = length bb"
    using ne lu by (simp add: m)
  have un: "\<And>j. j < length bb \<Longrightarrow> u ! j = cand_key vsize (bb ! j) (ib ! j)"
    using len by (simp add: u_def)
  have lastu: "last u = cand_key vsize (last bb) (last ib)"
  proof -
    have ine: "ib \<noteq> []"
      using bne len by auto
    have "last u = u ! (length bb - 1)"
      using ne lu by (simp add: last_conv_nth)
    also have "\<dots> = cand_key vsize (bb ! (length bb - 1)) (ib ! (length bb - 1))"
      using bne by (intro un) simp
    also have "bb ! (length bb - 1) = last bb"
      using bne by (simp add: last_conv_nth)
    also have "ib ! (length bb - 1) = last ib"
      using ine len by (simp add: last_conv_nth)
    finally show ?thesis .
  qed
  show "m ! 0 = (cand_key vsize (last bb) (last ib) \<noteq> cand_key vsize (bb ! 0) (ib ! 0))"
    using ne lu bne un [of 0] lastu by (simp add: m)
  fix j assume j: "0 < j" "j < length bb"
  then obtain k where k: "j = Suc k" by (cases j) auto
  have "m ! j = ((last u # butlast u) ! j \<noteq> u ! j)"
    using j lu ne by (simp add: m)
  also have "(last u # butlast u) ! j = u ! k"
    using j lu k by (simp add: nth_butlast)
  finally show "m ! j = (cand_key vsize (bb ! (j - 1)) (ib ! (j - 1)) \<noteq> cand_key vsize (bb ! j) (ib ! j))"
    using un [of j] un [of k] j k by simp
qed

lemma ex_dup_arise:
  "step_scores phrase_ops (ex_dup_search\<lparr>num_cands := 2\<rparr>) 1 ex_dup_lprobs (Some [[Fin 0]])
     = Inr (ex_dup_lprobs, ex_dup_lprobs)"
  "top_prediction ex_dup_lprobs 2 = Inr [([Fin (-1), Fin (-1)], [2, 3])]"
  "add_top1 ex_dup_lprobs 1 [([Fin (-1), Fin (-1)], [2, 3], [0, 0])]
     = Inr [([Fin (-1), Fin (-1), Fin (-1)], [2, 3, 2], [0, 0, 0])]"
  "add_constraints phrase_ops 1 (rows3 ex_dup_lprobs) 0 [([3], 1)]
      ([0, 0, 0], [2, 3, 2], [Fin (-1), Fin (-1), Fin (-1)])
     = Inr ([0, 0, 0], [2, 3, 2], [Fin (-1), Fin (-1), Fin (-1)])"
  "advance_cands phrase_ops [([3], 1)] [0, 0, 0] [2, 3, 2] = Inr (cand_states ex_dup_cands)"
  "sort_cands 1 ex_dup_cands = Inr ex_dup_cands"
  by (simp_all add: stepper_eval ex_dup_search_def ex_dup_lprobs_def ex_dup_cands_def upt_3
      upt_4 less_Suc_eq)

lemma ex_dup_step:
  "step phrase_ops ex_dup_search 1 ex_dup_lprobs (Some [[Fin 0]]) =
     Inr (ex_dup_search\<lparr>constraint_states := [[([3], 1), ([3], 1)]], num_cands := 2\<rparr>,
          ex_dup_lprobs, [([Fin (-1), Fin (-1)], [3, 2], [0, 0])])"
  by (simp add: stepper_eval ex_dup_search_def ex_dup_lprobs_def upt_3 upt_4 less_Suc_eq)

text \<open>
  C4. The claim: after the sort the removal of duplicates keeps the first occurrence
  of every identity, and the top-ranked candidate is never removed. STEP 5 of the
  source is evaluated on the sorted candidates of the example step, whose identities
  are (0, 2), (0, 3), (0, 2): the first candidate is compared with the last one and
  removed from the four tensors, the later occurrence of (0, 2) stays, and the list
  of constraint states keeps all three entries.
\<close>

theorem dedup_cands_drops_top_candidate:
  "dedup_cands 4 ex_dup_cands =
     Inr \<lparr>beams_buf = [0, 0], indices_buf = [3, 2], scores_buf = [Fin (-1), Fin (-1)],
          banks = [1, 1], cand_states = [([3], 1), ([3], 1), ([3], 1)]\<rparr>"
  by (simp add: dedup_cands_def uniques_mask_of_def roll_def cand_key_def masked_select_def
      ex_dup_cands_def)

subsection \<open>Suppression of the end token\<close>

lemma fold_neginf_shape:
  "length (fold (\<lambda>i t. t[i := (t ! i)[e := NegInf]]) idxs t) = length t"
  "r < length t \<Longrightarrow>
     length (fold (\<lambda>i t. t[i := (t ! i)[e := NegInf]]) idxs t ! r) = length (t ! r)"
proof (induction idxs arbitrary: t)
  case Nil
  { case 1 show ?case by simp }
  { case 2 show ?case by simp }
next
  case (Cons j idxs)
  { case 1 show ?case by (simp add: Cons.IH(1)) }
  { case 2
    then have "r < length (t[j := (t ! j)[e := NegInf]])" by simp
    from Cons.IH(2) [OF this] show ?case
      using 2 by (cases "r = j") simp_all }
qed

lemma fold_neginf_spec:
  assumes "i < length t" and "e < length (t ! i)" and "i \<in> set idxs \<or> t ! i ! e = NegInf"
  shows "fold (\<lambda>i t. t[i := (t ! i)[e := NegInf]]) idxs t ! i ! e = NegInf"
  using assms
proof (induction idxs arbitrary: t)
  case Nil
  then show ?case by simp
next
  case (Cons j idxs)
  let ?t' = "t[j := (t ! j)[e := NegInf]]"
  have 1: "i < length ?t'"
    using Cons.prems(1) by simp
  have 2: "e < length (?t' ! i)"
    using Cons.prems(1,2) by (cases "i = j") simp_all
  have 3: "i \<in> set idxs \<or> ?t' ! i ! e = NegInf"
    using Cons.prems by (cases "i = j") auto
  show ?case
    using Cons.IH [OF 1 2 3] by simp
qed

lemma in_not_finished_indices:
  assumes "sentno < length states" and "beamno < length (states ! sentno)"
    and "\<not> state_finished ops (states ! sentno ! beamno)"
  shows "sentno * bsize + beamno \<in> set (not_finished_indices ops bsize states)"
proof -
  have a: "(sentno, states ! sentno) \<in> set (enumerate 0 states)"
    using assms(1) by (simp add: in_set_enumerate_eq)
  have b: "(beamno, states ! sentno ! beamno) \<in> set (enumerate 0 (states ! sentno))"
    using assms(2) by (simp add: in_set_enumerate_eq)
  have "sentno * bsize + beamno \<in>
          set (map (\<lambda>(beamno, state). sentno * bsize + beamno)
                 (filter (\<lambda>(beamno, state). \<not> state_finished ops state)
                    (enumerate 0 (states ! sentno))))"
    using b assms(3) by force
  then show ?thesis
    unfolding not_finished_indices_def using a by force
qed

lemma prevent_eos_shape:
  assumes "prevent_eos ops srch n lp = Inr lp'"
  shows "dim_batch lp' = dim_batch lp" and "dim_beam lp' = dim_beam lp"
    and "dim_vocab lp' = dim_vocab lp" and "length (rows3 lp') = length (rows3 lp)"
    and "\<And>r. r < length (rows3 lp) \<Longrightarrow> length (rows3 lp' ! r) = length (rows3 lp ! r)"
  using assms unfolding prevent_eos_def
  by (auto simp: Let_def fold_neginf_shape split: if_splits)

lemma prevent_eos_spec:
  assumes ok: "prevent_eos ops srch n lp = Inr lp'"
    and n: "0 < n"
    and s: "sentno < length (constraint_states srch)"
    and b: "beamno < length (constraint_states srch ! sentno)"
    and nf: "\<not> state_finished ops (constraint_states srch ! sentno ! beamno)"
  shows "sentno * dim_beam lp + beamno < length (rows3 lp)"
    and "search_eos srch < length (rows3 lp ! (sentno * dim_beam lp + beamno))"
    and "rows3 lp' ! (sentno * dim_beam lp + beamno) ! search_eos srch = NegInf"
proof -
  let ?i = "sentno * dim_beam lp + beamno"
  let ?idxs = "not_finished_indices ops (dim_beam lp) (constraint_states srch)"
  have mem: "?i \<in> set ?idxs"
    using s b nf by (rule in_not_finished_indices)
  have ne: "constraint_states srch \<noteq> []" "?idxs \<noteq> []"
    using s mem by auto
  have bounds: "\<forall>i\<in>set ?idxs. i < length (rows3 lp) \<and> search_eos srch < length (rows3 lp ! i)"
    using ok n ne unfolding prevent_eos_def by (simp add: Let_def split: if_splits)
  show 1: "?i < length (rows3 lp)" and 2: "search_eos srch < length (rows3 lp ! ?i)"
    using bounds mem by auto
  have "rows3 lp' = fold (\<lambda>i t. t[i := (t ! i)[search_eos srch := NegInf]]) ?idxs (rows3 lp)"
    using ok n ne bounds unfolding prevent_eos_def by (auto simp: Let_def split: if_splits)
  then show "rows3 lp' ! ?i ! search_eos srch = NegInf"
    using fold_neginf_spec [OF 1 2] mem by simp
qed

lemma make_cumulative_spec:
  assumes "make_cumulative n lp' hist = Inr lp" and "0 < n"
  shows "dim_batch lp = dim_batch lp'" and "dim_beam lp = dim_beam lp'"
    and "dim_vocab lp = dim_vocab lp'" and "length (rows3 lp) = length (rows3 lp')"
    and "\<And>r. r < length (rows3 lp') \<Longrightarrow> \<exists>p. rows3 lp ! r = map (\<lambda>x. x + p) (rows3 lp' ! r)"
  using assms unfolding make_cumulative_def
  by (auto split: if_splits option.splits)

subsection \<open>Candidates are drawn from the cumulative scores\<close>

lemma drawn_from_pick:
  assumes "drawn_from L bb ib sb" and "\<forall>j\<in>set js. j < length ib"
  shows "drawn_from L (map ((!) bb) js) (map ((!) ib) js) (map ((!) sb) js)"
  using assms unfolding drawn_from_def by auto

lemma drawn_from_take:
  "drawn_from L bb ib sb \<Longrightarrow> drawn_from L (take m bb) (take m ib) (take m sb)"
  unfolding drawn_from_def by auto

lemma drawn_from_append:
  assumes "drawn_from L bb ib sb" and "drawn_from L bb' ib' sb'"
  shows "drawn_from L (bb @ bb') (ib @ ib') (sb @ sb')"
  using assms unfolding drawn_from_def by (auto simp: nth_append)

lemma select_idx_Inr:
  assumes "select_idx xs idxs = Inr ys"
  shows "ys = map ((!) xs) idxs" and "\<forall>i\<in>set idxs. i < length xs"
  using assms unfolding select_idx_def by (auto split: if_splits)

lemma filter_zip_pick:
  assumes "length xs = length m"
  shows "map fst (filter snd (zip xs m)) = map ((!) xs) (filter ((!) m) [0..<length m])"
  using assms
proof (induction xs m rule: list_induct2)
  case Nil
  then show ?case by simp
next
  case (Cons x xs b m)
  have upt: "[0..<Suc (length m)] = 0 # map Suc [0..<length m]"
    by (simp add: upt_conv_Cons map_Suc_upt del: upt_Suc)
  have tl: "\<And>b. map ((!) (x # xs)) (filter ((!) (b # m)) (map Suc [0..<length m]))
          = map ((!) xs) (filter ((!) m) [0..<length m])"
    by (simp add: filter_map comp_def)
  show ?case
    using Cons.IH by (cases b) (simp_all add: upt tl del: upt_Suc)
qed

lemma masked_select_Inr:
  assumes "masked_select xs m = Inr ys"
  shows "length xs = length m" and "ys = map ((!) xs) (filter ((!) m) [0..<length m])"
  using assms unfolding masked_select_def by (auto split: if_splits simp: filter_zip_pick)

lemma drawn_from_slice_to:
  assumes "drawn_from L bb ib sb"
  shows "drawn_from L (slice_to k bb) (slice_to k ib) (slice_to k sb)"
  using assms unfolding slice_to_def drawn_from_def by auto

lemma add_constraints_drawn:
  assumes "add_constraints ops n L beamno states (bb, ib, sb) = Inr (bb', ib', sb')"
    and "drawn_from L bb ib sb"
  shows "drawn_from L bb' ib' sb'"
  using assms
proof (induction states arbitrary: beamno bb ib sb)
  case Nil
  then show ?case by simp
next
  case (Cons state states)
  let ?nt = "next_tokens ops state"
  let ?bb = "bb @ replicate (length ?nt) beamno"
  let ?ib = "ib @ ?nt"
  let ?sb = "sb @ map (\<lambda>t. L ! beamno ! t) ?nt"
  have new: "drawn_from L (replicate (length ?nt) beamno) ?nt (map (\<lambda>t. L ! beamno ! t) ?nt)"
    unfolding drawn_from_def by simp
  have ext: "drawn_from L ?bb ?ib ?sb"
    using Cons.prems(2) new by (rule drawn_from_append)
  show ?case
  proof (cases "?nt = []")
    case True
    show ?thesis
    proof (cases "n = 0")
      case True
      then show ?thesis
        using Cons.prems \<open>?nt = []\<close> by (simp add: Let_def)
    next
      case False
      then have "add_constraints ops n L (Suc beamno) states (bb, ib, sb) = Inr (bb', ib', sb')"
        using Cons.prems(1) \<open>?nt = []\<close> by (simp add: Let_def)
      then show ?thesis
        using Cons.prems(2) by (rule Cons.IH)
    qed
  next
    case False
    then have ok: "beamno < length L \<and> (\<forall>t\<in>set ?nt. t < length (L ! beamno))"
      using Cons.prems(1) by (simp add: Let_def split: if_splits)
    show ?thesis
    proof (cases "n = 0")
      case True
      then have "(bb', ib', sb') = (?bb, ?ib, ?sb)"
        using Cons.prems(1) \<open>?nt \<noteq> []\<close> ok by (simp add: Let_def)
      then show ?thesis
        using ext by simp
    next
      case False
      then have "add_constraints ops n L (Suc beamno) states (?bb, ?ib, ?sb) = Inr (bb', ib', sb')"
        using Cons.prems(1) \<open>?nt \<noteq> []\<close> ok by (simp add: Let_def)
      then show ?thesis
        using ext by (rule Cons.IH)
    qed
  qed
qed

lemma sort_cands_drawn:
  assumes "sort_cands nct c = Inr c'"
    and "drawn_from L (beams_buf c) (indices_buf c) (scores_buf c)"
  shows "drawn_from L (beams_buf c') (indices_buf c') (scores_buf c')"
proof -
  obtain js sb ib bb where
    sb: "select_idx (scores_buf c) js = Inr sb" and ib: "select_idx (indices_buf c) js = Inr ib"
    and bb: "select_idx (beams_buf c) js = Inr bb"
    and c': "scores_buf c' = sb" "indices_buf c' = ib" "beams_buf c' = bb"
    using assms(1) unfolding sort_cands_def
    by (auto simp: Let_def split: sum.splits)
  show ?thesis
    unfolding c' select_idx_Inr(1) [OF sb] select_idx_Inr(1) [OF ib] select_idx_Inr(1) [OF bb]
    using assms(2) select_idx_Inr(2) [OF ib] by (rule drawn_from_pick)
qed

lemma dedup_cands_drawn:
  assumes "dedup_cands vsize c = Inr c'"
    and "drawn_from L (beams_buf c) (indices_buf c) (scores_buf c)"
  shows "drawn_from L (beams_buf c') (indices_buf c') (scores_buf c')"
proof -
  obtain m sb ib bb where
    sb: "masked_select (scores_buf c) m = Inr sb" and ib: "masked_select (indices_buf c) m = Inr ib"
    and bb: "masked_select (beams_buf c) m = Inr bb"
    and c': "scores_buf c' = sb" "indices_buf c' = ib" "beams_buf c' = bb"
    using assms(1) unfolding dedup_cands_def
    by (auto simp: Let_def split: sum.splits)
  have "\<forall>j\<in>set (filter ((!) m) [0..<length m]). j < length (indices_buf c)"
    using masked_select_Inr(1) [OF ib] by simp
  with assms(2) show ?thesis
    unfolding c' masked_select_Inr(2) [OF sb] masked_select_Inr(2) [OF ib]
      masked_select_Inr(2) [OF bb]
    by (rule drawn_from_pick)
qed

lemma stripe_cands_drawn:
  assumes "stripe_cands nct k c = Inr c'"
    and "drawn_from L (beams_buf c) (indices_buf c) (scores_buf c)"
  shows "drawn_from L (beams_buf c') (indices_buf c') (scores_buf c')"
proof -
  obtain js sb ib bb where
    sb: "select_idx (scores_buf c) js = Inr sb" and ib: "select_idx (indices_buf c) js = Inr ib"
    and bb: "select_idx (beams_buf c) js = Inr bb"
    and c': "scores_buf c' = slice_to k sb" "indices_buf c' = slice_to k ib"
      "beams_buf c' = slice_to k bb"
    using assms(1) unfolding stripe_cands_def
    by (auto simp: Let_def split: sum.splits)
  have "drawn_from L bb ib sb"
    unfolding select_idx_Inr(1) [OF sb] select_idx_Inr(1) [OF ib] select_idx_Inr(1) [OF bb]
    using assms(2) select_idx_Inr(2) [OF ib] by (rule drawn_from_pick)
  then show ?thesis
    unfolding c' by (rule drawn_from_slice_to)
qed

lemma step_sentence_drawn:
  assumes "step_sentence ops srch n sentno L states bb0 ib0 sb0 = Inr (sc, ib, bb, sts)"
    and "drawn_from L bb0 ib0 sb0"
  shows "drawn_from L bb ib sc"
proof -
  obtain bb1 ib1 sb1 where 1: "add_constraints ops n L 0 states (bb0, ib0, sb0) = Inr (bb1, ib1, sb1)"
    using assms(1) unfolding step_sentence_def
    by (auto split: sum.splits)
  obtain new_states where 2: "advance_cands ops states bb1 ib1 = Inr new_states"
    using assms(1) 1 unfolding step_sentence_def
    by (auto split: sum.splits)
  obtain state where 3: "loop_state n states = Inr state"
    using assms(1) 1 2 unfolding step_sentence_def
    by (auto split: sum.splits)
  define nct where "nct = length (state_tokens ops state)"
  define c where "c = \<lparr>beams_buf = bb1, indices_buf = ib1, scores_buf = sb1,
                        banks = map (bank ops) new_states, cand_states = new_states\<rparr>"
  obtain c1 c2 c3 where 4: "sort_cands nct c = Inr c1"
    and 5: "dedup_cands (search_vocab_size srch) c1 = Inr c2"
    and 6: "stripe_cands nct (num_cands srch) c2 = Inr c3"
    and res: "sc = scores_buf c3" "ib = indices_buf c3" "bb = beams_buf c3"
    using assms(1) 1 2 3 unfolding step_sentence_def nct_def c_def
    by (auto simp: Let_def split: sum.splits)
  have "drawn_from L bb1 ib1 sb1"
    using 1 assms(2) by (rule add_constraints_drawn)
  then have "drawn_from L (beams_buf c) (indices_buf c) (scores_buf c)"
    by (simp add: c_def)
  then have "drawn_from L (beams_buf c1) (indices_buf c1) (scores_buf c1)"
    by (rule sort_cands_drawn [OF 4])
  then have "drawn_from L (beams_buf c2) (indices_buf c2) (scores_buf c2)"
    by (rule dedup_cands_drawn [OF 5])
  then have "drawn_from L (beams_buf c3) (indices_buf c3) (scores_buf c3)"
    by (rule stripe_cands_drawn [OF 6])
  then show ?thesis
    by (simp add: res)
qed

lemma assign_row_drawn:
  assumes "assign_row w sc = Inr r1" and "assign_row w ib = Inr r2" and "assign_row w bb = Inr r3"
    and "drawn_from L bb ib sc"
  shows "drawn_from L r3 r2 r1"
proof -
  have len: "length bb = length ib" "length sc = length ib"
    and el: "\<forall>i<length ib. sc ! i = L ! (bb ! i) ! (ib ! i)"
    using assms(4) unfolding drawn_from_def by auto
  show ?thesis
  proof (cases "length ib = w")
    case True
    then have "r1 = sc" "r2 = ib" "r3 = bb"
      using assms(1-3) len unfolding assign_row_def by simp_all
    then show ?thesis
      using assms(4) by simp
  next
    case False
    then have one: "length ib = 1"
      using assms(2) unfolding assign_row_def by (simp split: if_splits)
    then have r: "r1 = replicate w (hd sc)" "r2 = replicate w (hd ib)" "r3 = replicate w (hd bb)"
      using assms(1-3) len False unfolding assign_row_def by (simp_all split: if_splits)
    have "sc \<noteq> []" "ib \<noteq> []" "bb \<noteq> []"
      using one len by auto
    then have "hd sc = sc ! 0" "hd ib = ib ! 0" "hd bb = bb ! 0"
      by (simp_all add: hd_conv_nth)
    moreover have "sc ! 0 = L ! (bb ! 0) ! (ib ! 0)"
      using el one by simp
    ultimately show ?thesis
      unfolding drawn_from_def r by simp
  qed
qed

text \<open>What a sentence's entry of the result is drawn from.\<close>

lemma sentences_loop_drawn:
  assumes "sentences_loop ops n lp w bufs sents (srch, out) = Inr (srch', out')"
    and "\<forall>s\<in>set sents. case bufs ! s of
            (sb, ib, bb) \<Rightarrow> drawn_from (sentence_rows lp s) bb ib sb"
    and "length out = dim_batch lp"
    and "\<forall>s\<in>D. case out ! s of (r1, r2, r3) \<Rightarrow> drawn_from (sentence_rows lp s) r3 r2 r1"
  shows "\<forall>s\<in>D \<union> set sents.
            case out' ! s of (r1, r2, r3) \<Rightarrow> drawn_from (sentence_rows lp s) r3 r2 r1"
  using assms
proof (induction sents arbitrary: srch out D)
  case Nil
  then show ?case by simp
next
  case (Cons sentno rest)
  have lt: "sentno < dim_batch lp"
    using Cons.prems(1) by (simp split: if_splits)
  obtain sb ib bb where buf: "bufs ! sentno = (sb, ib, bb)"
    by (cases "bufs ! sentno") auto
  have d0: "drawn_from (sentence_rows lp sentno) bb ib sb"
    using Cons.prems(2) buf by auto
  obtain sc' ib' bb' sts where st: "step_sentence ops srch n sentno (sentence_rows lp sentno)
        (constraint_states srch ! sentno) bb ib sb = Inr (sc', ib', bb', sts)"
    using Cons.prems(1) lt buf by (auto split: sum.splits)
  have d1: "drawn_from (sentence_rows lp sentno) bb' ib' sc'"
    using st d0 by (rule step_sentence_drawn)
  obtain r1 r2 r3 where r: "assign_row w sc' = Inr r1" "assign_row w ib' = Inr r2"
      "assign_row w bb' = Inr r3"
    using Cons.prems(1) lt buf st by (auto split: sum.splits)
  define srch1 where "srch1 = srch\<lparr>constraint_states := (constraint_states srch)[sentno := sts]\<rparr>"
  define out1 where "out1 = out[sentno := (r1, r2, r3)]"
  have loop: "sentences_loop ops n lp w bufs rest (srch1, out1) = Inr (srch', out')"
    using Cons.prems(1) lt buf st r by (simp add: srch1_def out1_def)
  have d2: "drawn_from (sentence_rows lp sentno) r3 r2 r1"
    using r d1 by (rule assign_row_drawn)
  have 2: "\<forall>s\<in>set rest. case bufs ! s of (sb, ib, bb) \<Rightarrow> drawn_from (sentence_rows lp s) bb ib sb"
    using Cons.prems(2) by simp
  have 3: "length out1 = dim_batch lp"
    using Cons.prems(3) by (simp add: out1_def)
  have 4: "\<forall>s\<in>insert sentno D.
             case out1 ! s of (r1, r2, r3) \<Rightarrow> drawn_from (sentence_rows lp s) r3 r2 r1"
  proof
    fix s assume s: "s \<in> insert sentno D"
    show "case out1 ! s of (r1, r2, r3) \<Rightarrow> drawn_from (sentence_rows lp s) r3 r2 r1"
    proof (cases "s = sentno")
      case True
      then show ?thesis
        using d2 lt Cons.prems(3) by (simp add: out1_def)
    next
      case False
      then show ?thesis
        using s Cons.prems(4) by (simp add: out1_def)
    qed
  qed
  have "\<forall>s\<in>insert sentno D \<union> set rest.
          case out' ! s of (r1, r2, r3) \<Rightarrow> drawn_from (sentence_rows lp s) r3 r2 r1"
    using loop 2 3 4 by (rule Cons.IH)
  then show ?case by simp
qed

lemma map_err_Inr_all:
  "map_err f xs = Inr ys \<Longrightarrow>
     length ys = length xs \<and> (\<forall>i<length xs. f (xs ! i) = Inr (ys ! i))"
proof (induction xs arbitrary: ys)
  case Nil
  then show ?case by simp
next
  case (Cons x xs)
  obtain y ys' where y: "f x = Inr y" "map_err f xs = Inr ys'" "ys = y # ys'"
    using Cons.prems by (auto split: sum.splits)
  have ih: "length ys' = length xs" "\<forall>i<length xs. f (xs ! i) = Inr (ys' ! i)"
    using Cons.IH [OF y(2)] by simp_all
  show ?case
    using y ih by (auto simp: nth_Cons split: nat.splits)
qed

lemma map_err_Inr:
  assumes "map_err f xs = Inr ys"
  shows "length ys = length xs" and "\<And>i. i < length xs \<Longrightarrow> f (xs ! i) = Inr (ys ! i)"
  using map_err_Inr_all [OF assms] by simp_all

lemma sentence_rows_nth:
  assumes "length (rows3 t) = dim_batch t * dim_beam t" and "sentno < dim_batch t"
    and "k < dim_beam t"
  shows "length (sentence_rows t sentno) = dim_beam t"
    and "sentence_rows t sentno ! k = rows3 t ! (sentno * dim_beam t + k)"
proof -
  have "(sentno + 1) * dim_beam t \<le> dim_batch t * dim_beam t"
    using assms(2) by (intro mult_le_mono1) simp
  then have le: "sentno * dim_beam t + dim_beam t \<le> length (rows3 t)"
    using assms(1) by simp
  then show "length (sentence_rows t sentno) = dim_beam t"
    unfolding sentence_rows_def by simp
  show "sentence_rows t sentno ! k = rows3 t ! (sentno * dim_beam t + k)"
    unfolding sentence_rows_def using le assms(3) by simp
qed

lemma sentence_rows_set: "set (sentence_rows t sentno) \<subseteq> set (rows3 t)"
  unfolding sentence_rows_def
  by (meson set_take_subset set_drop_subset subset_trans)

lemma top_prediction_drawn:
  assumes top: "top_prediction lp k = Inr tops"
    and rect: "\<forall>r\<in>set (rows3 lp). length r = V"
    and s: "sentno < dim_batch lp"
  shows "case map (\<lambda>(sc, idx). (sc, map (\<lambda>i. i mod V) idx, map (\<lambda>i. i div V) idx)) tops ! sentno of
           (sb, ib, bb) \<Rightarrow> drawn_from (sentence_rows lp sentno) bb ib sb"
proof -
  let ?S = "sentence_rows lp sentno"
  have len: "length tops = dim_batch lp"
    using map_err_Inr(1) [OF top [unfolded top_prediction_def]] by simp
  have "topk_int (concat (sentence_rows lp ([0..<dim_batch lp] ! sentno))) k = Inr (tops ! sentno)"
    using map_err_Inr(2) [OF top [unfolded top_prediction_def], of sentno] s by simp
  then have tk: "topk_int (concat ?S) k = Inr (tops ! sentno)"
    using s by simp
  obtain sc idx where t: "tops ! sentno = (sc, idx)"
    by (cases "tops ! sentno") auto
  have idx: "\<forall>i\<in>set idx. i < length (concat ?S)" and sc: "sc = map ((!) (concat ?S)) idx"
    using tk t unfolding topk_int_def topk_def
    by (auto simp: Let_def split: if_splits dest: in_set_takeD)
  have rS: "\<forall>row\<in>set ?S. length row = V"
    using rect sentence_rows_set by blast
  have lc: "length (concat ?S) = length ?S * V"
    using rS by (rule length_concat_rect)
  have "\<forall>i\<in>set idx. concat ?S ! i = ?S ! (i div V) ! (i mod V)"
    using idx lc concat_nth_rect [OF rS] by auto
  then have "drawn_from ?S (map (\<lambda>i. i div V) idx) (map (\<lambda>i. i mod V) idx) sc"
    unfolding drawn_from_def sc by simp
  then show ?thesis
    using t s len by simp
qed

lemma add_top1_drawn:
  assumes top1: "add_top1 lp (dim_beam lp) bufs = Inr bufs'"
    and shape: "length (rows3 lp) = dim_batch lp * dim_beam lp"
    and len: "length bufs = dim_batch lp"
    and s: "sentno < dim_batch lp"
    and d: "case bufs ! sentno of (sb, ib, bb) \<Rightarrow> drawn_from (sentence_rows lp sentno) bb ib sb"
  shows "case bufs' ! sentno of (sb, ib, bb) \<Rightarrow> drawn_from (sentence_rows lp sentno) bb ib sb"
proof -
  let ?B = "dim_beam lp"
  let ?S = "sentence_rows lp sentno"
  obtain vs js where rm: "rows_max (rows3 lp) = Inr (vs, js)"
    and bufs': "bufs' = map (\<lambda>(sentno, (sb, ib, bb)).
                 (sb @ take ?B (drop (sentno * ?B) vs),
                  ib @ take ?B (drop (sentno * ?B) js),
                  bb @ [0..<?B]))
               (enumerate 0 bufs)"
    using top1 unfolding add_top1_def by (auto split: sum.splits prod.splits)
  have lv: "length vs = length (rows3 lp)" and lj: "length js = length (rows3 lp)"
    and el: "\<forall>r<length (rows3 lp). vs ! r = rows3 lp ! r ! (js ! r)"
    using rows_max_spec [OF rm] by simp_all
  obtain sb ib bb where buf: "bufs ! sentno = (sb, ib, bb)"
    by (cases "bufs ! sentno") auto
  have d0: "drawn_from ?S bb ib sb"
    using d buf by simp
  have "(sentno + 1) * ?B \<le> dim_batch lp * ?B"
    using s by (intro mult_le_mono1) simp
  then have le: "sentno * ?B + ?B \<le> length (rows3 lp)"
    using shape by simp
  have new: "drawn_from ?S [0..<?B] (take ?B (drop (sentno * ?B) js))
               (take ?B (drop (sentno * ?B) vs))"
    unfolding drawn_from_def
  proof (intro conjI allI impI)
    show "length [0..<?B] = length (take ?B (drop (sentno * ?B) js))"
      using le lj by simp
    show "length (take ?B (drop (sentno * ?B) vs)) = length (take ?B (drop (sentno * ?B) js))"
      using le lj lv by simp
    fix i assume "i < length (take ?B (drop (sentno * ?B) js))"
    then have i: "i < ?B"
      by simp
    have "take ?B (drop (sentno * ?B) vs) ! i = vs ! (sentno * ?B + i)"
      using i le lv by simp
    also have "\<dots> = rows3 lp ! (sentno * ?B + i) ! (js ! (sentno * ?B + i))"
      using el i le by simp
    also have "rows3 lp ! (sentno * ?B + i) = ?S ! i"
      using sentence_rows_nth(2) [OF shape s i] by simp
    also have "js ! (sentno * ?B + i) = take ?B (drop (sentno * ?B) js) ! i"
      using i le lj by simp
    finally show "take ?B (drop (sentno * ?B) vs) ! i
        = ?S ! ([0..<?B] ! i) ! (take ?B (drop (sentno * ?B) js) ! i)"
      using i by simp
  qed
  have "bufs' ! sentno = (sb @ take ?B (drop (sentno * ?B) vs),
                          ib @ take ?B (drop (sentno * ?B) js), bb @ [0..<?B])"
    using s len buf by (simp add: bufs' nth_enumerate_eq)
  then show ?thesis
    using drawn_from_append [OF d0 new] by simp
qed

lemma sentences_loop_bound:
  "sentences_loop ops n lp w bufs sents acc = Inr res \<Longrightarrow> \<forall>s\<in>set sents. s < dim_batch lp"
proof (induction sents arbitrary: acc)
  case Nil
  then show ?case by simp
next
  case (Cons sentno rest)
  obtain srch out where acc: "acc = (srch, out)"
    by (cases acc) auto
  have lt: "sentno < dim_batch lp"
    using Cons.prems unfolding acc by (simp split: if_splits)
  have "\<exists>acc'. sentences_loop ops n lp w bufs rest acc' = Inr res"
    using Cons.prems lt unfolding acc by (auto split: sum.splits prod.splits)
  then show ?case
    using Cons.IH lt by auto
qed

lemma step_Inr_stages:
  assumes "step ops srch n lprobs hist = Inr (srch', lprobs', out)"
    and "0 < n" and "constraint_states srch \<noteq> []"
  obtains lp tops bufs' where
    "prevent_eos ops (srch\<lparr>num_cands := num_cands_of lprobs\<rparr>) n lprobs = Inr lprobs'"
    "make_cumulative n lprobs' hist = Inr lp"
    "top_prediction lp (num_cands_of lprobs) = Inr tops"
    "add_top1 lp (dim_beam lprobs)
       (map (\<lambda>(sc, idx). (sc, map (\<lambda>i. i mod dim_vocab lprobs) idx,
                             map (\<lambda>i. i div dim_vocab lprobs) idx)) tops) = Inr bufs'"
    "sentences_loop ops n lp (2 * dim_beam lprobs) bufs' [0..<length (constraint_states srch)]
       (srch\<lparr>num_cands := num_cands_of lprobs\<rparr>,
        replicate (dim_batch lprobs)
          (replicate (2 * dim_beam lprobs) (Fin 0), replicate (2 * dim_beam lprobs) 0,
           replicate (2 * dim_beam lprobs) 0)) = Inr (srch', out)"
  using assms unfolding step_def step_scores_def
  by (auto simp: Let_def split: if_splits sum.splits prod.splits)

text \<open>
  C3, as amended. At every step after the first, for every beam item of the batch
  whose constraint state is not finished, the call leaves minus infinity at the end
  token of that item in the caller's tensor, and every candidate it returns for the
  sentence that extends this item by the end token has the score minus infinity.
  The tensor is taken to have its \<open>batch * beam\<close> rows of \<open>vocab\<close> entries.
\<close>

theorem step_suppresses_eos_after_first_step:
  assumes ok: "step ops srch n lprobs hist = Inr (srch', lprobs', out)"
    and n: "0 < n"
    and wf: "wf_tensor3 lprobs"
    and s: "sentno < length (constraint_states srch)"
    and b: "beamno < length (constraint_states srch ! sentno)"
    and bb: "beamno < dim_beam lprobs"
    and nf: "\<not> state_finished ops (constraint_states srch ! sentno ! beamno)"
  shows "rows3 lprobs' ! (sentno * dim_beam lprobs + beamno) ! search_eos srch = NegInf
       \<and> (case out ! sentno of
            (sc, ib, bb) \<Rightarrow>
              \<forall>i<length ib. ib ! i = search_eos srch \<and> bb ! i = beamno \<longrightarrow> sc ! i = NegInf)"
proof -
  let ?B = "dim_beam lprobs"
  let ?V = "dim_vocab lprobs"
  let ?e = "search_eos srch"
  let ?r = "sentno * ?B + beamno"
  let ?srch1 = "srch\<lparr>num_cands := num_cands_of lprobs\<rparr>"
  have ne: "constraint_states srch \<noteq> []"
    using s by auto
  obtain lp tops bufs' where
    pe: "prevent_eos ops ?srch1 n lprobs = Inr lprobs'"
    and mc: "make_cumulative n lprobs' hist = Inr lp"
    and tp: "top_prediction lp (num_cands_of lprobs) = Inr tops"
    and t1: "add_top1 lp ?B
       (map (\<lambda>(sc, idx). (sc, map (\<lambda>i. i mod ?V) idx, map (\<lambda>i. i div ?V) idx)) tops) = Inr bufs'"
    and sl: "sentences_loop ops n lp (2 * ?B) bufs' [0..<length (constraint_states srch)]
       (?srch1, replicate (dim_batch lprobs)
          (replicate (2 * ?B) (Fin 0), replicate (2 * ?B) 0, replicate (2 * ?B) 0))
         = Inr (srch', out)"
    using ok n ne by (rule step_Inr_stages)
  have r: "?r < length (rows3 lprobs)" and e: "?e < length (rows3 lprobs ! ?r)"
    and a: "rows3 lprobs' ! ?r ! ?e = NegInf"
    using prevent_eos_spec [OF pe n, of sentno beamno] s b nf by simp_all
  have dims': "dim_batch lprobs' = dim_batch lprobs" "dim_beam lprobs' = ?B"
    "dim_vocab lprobs' = ?V" "length (rows3 lprobs') = length (rows3 lprobs)"
    and rows': "\<And>r. r < length (rows3 lprobs) \<Longrightarrow> length (rows3 lprobs' ! r) = length (rows3 lprobs ! r)"
    using prevent_eos_shape [OF pe] by simp_all
  have dims: "dim_batch lp = dim_batch lprobs" "dim_beam lp = ?B" "dim_vocab lp = ?V"
    "length (rows3 lp) = length (rows3 lprobs)"
    using make_cumulative_spec(1-4) [OF mc n] dims' by simp_all
  have cum: "\<And>r. r < length (rows3 lprobs) \<Longrightarrow> \<exists>p. rows3 lp ! r = map (\<lambda>x. x + p) (rows3 lprobs' ! r)"
    using make_cumulative_spec(5) [OF mc n] dims'(4) by simp
  have shape: "length (rows3 lp) = dim_batch lp * dim_beam lp"
    using wf dims unfolding wf_tensor3_def by simp
  have rect: "\<forall>row\<in>set (rows3 lp). length row = ?V"
  proof
    fix row assume "row \<in> set (rows3 lp)"
    then obtain k where k: "k < length (rows3 lprobs)" "row = rows3 lp ! k"
      using dims(4) by (auto simp: in_set_conv_nth)
    obtain p where "rows3 lp ! k = map (\<lambda>x. x + p) (rows3 lprobs' ! k)"
      using cum [OF k(1)] by blast
    then have "length row = length (rows3 lprobs ! k)"
      using k rows' by simp
    then show "length row = ?V"
      using wf k(1) unfolding wf_tensor3_def by simp
  qed
  have cell: "rows3 lp ! ?r ! ?e = NegInf"
  proof -
    obtain p where "rows3 lp ! ?r = map (\<lambda>x. x + p) (rows3 lprobs' ! ?r)"
      using cum [OF r] by blast
    then show ?thesis
      using a e rows' [OF r] by simp
  qed
  have bound: "\<forall>s\<in>set [0..<length (constraint_states srch)]. s < dim_batch lp"
    using sl by (rule sentences_loop_bound)
  then have sb: "sentno < dim_batch lp"
    using s by simp
  have ltops: "length tops = dim_batch lp"
    using map_err_Inr(1) [OF tp [unfolded top_prediction_def]] by simp
  have bufs: "\<forall>s\<in>set [0..<length (constraint_states srch)].
                case bufs' ! s of (sb, ib, bb) \<Rightarrow> drawn_from (sentence_rows lp s) bb ib sb"
  proof
    fix s assume "s \<in> set [0..<length (constraint_states srch)]"
    then have s': "s < dim_batch lp"
      using bound by blast
    have "case map (\<lambda>(sc, idx). (sc, map (\<lambda>i. i mod ?V) idx, map (\<lambda>i. i div ?V) idx)) tops ! s of
            (sb, ib, bb) \<Rightarrow> drawn_from (sentence_rows lp s) bb ib sb"
      using tp rect s' by (rule top_prediction_drawn)
    then show "case bufs' ! s of (sb, ib, bb) \<Rightarrow> drawn_from (sentence_rows lp s) bb ib sb"
      using add_top1_drawn [OF t1 [folded dims(2)] shape _ s'] ltops by simp
  qed
  have "\<forall>s\<in>{} \<union> set [0..<length (constraint_states srch)].
          case out ! s of (r1, r2, r3) \<Rightarrow> drawn_from (sentence_rows lp s) r3 r2 r1"
    using sl bufs by (rule sentences_loop_drawn) (simp_all add: dims)
  then have res: "case out ! sentno of (r1, r2, r3) \<Rightarrow> drawn_from (sentence_rows lp sentno) r3 r2 r1"
    using s by simp
  have row: "sentence_rows lp sentno ! beamno = rows3 lp ! ?r"
    using sentence_rows_nth(2) [OF shape sb, of beamno] bb dims by simp
  obtain r1 r2 r3 where o: "out ! sentno = (r1, r2, r3)"
    by (cases "out ! sentno") auto
  have "\<forall>i<length r2. r2 ! i = ?e \<and> r3 ! i = beamno \<longrightarrow> r1 ! i = NegInf"
    using res cell row unfolding o drawn_from_def by auto
  then show ?thesis
    using a o by simp
qed

lemma ex_sup_step:
  "step phrase_ops ex_sup_search 1 ex_sup_lprobs (Some [[Fin 0]]) =
     Inr (ex_sup_search\<lparr>constraint_states := [[([2], 1), ([2], 0)]], num_cands := 2\<rparr>,
          ex_sup_lprobs\<lparr>rows3 := [[NegInf, NegInf, Fin (-2)]]\<rparr>,
          [([Fin (-2), NegInf], [2, 0], [0, 0])])"
  by (simp add: stepper_eval ex_sup_search_def ex_sup_lprobs_def upt_3 upt_4 less_Suc_eq)

theorem step_suppresses_eos_after_first_step_witness:
  "step phrase_ops ex_sup_search 1 ex_sup_lprobs (Some [[Fin 0]]) =
     Inr (ex_sup_search\<lparr>constraint_states := [[([2], 1), ([2], 0)]], num_cands := 2\<rparr>,
          ex_sup_lprobs\<lparr>rows3 := [[NegInf, NegInf, Fin (-2)]]\<rparr>,
          [([Fin (-2), NegInf], [2, 0], [0, 0])])
   \<and> rows3 (ex_sup_lprobs\<lparr>rows3 := [[NegInf, NegInf, Fin (-2)]]\<rparr>) ! 0 ! 0 = NegInf
   \<and> [Fin (-2), NegInf] ! 1 = NegInf"
proof -
  have wf: "wf_tensor3 ex_sup_lprobs"
    by (simp add: wf_tensor3_def ex_sup_lprobs_def)
  have s: "0 < length (constraint_states ex_sup_search)"
    and b: "0 < length (constraint_states ex_sup_search ! 0)"
    and bb: "0 < dim_beam ex_sup_lprobs"
    and nf: "\<not> state_finished phrase_ops (constraint_states ex_sup_search ! 0 ! 0)"
    by (simp_all add: ex_sup_search_def ex_sup_lprobs_def phrase_ops_def)
  have n: "0 < (1::nat)"
    by simp
  show ?thesis
    using step_suppresses_eos_after_first_step [OF ex_sup_step n wf s b bb nf] ex_sup_step
    by (simp add: ex_sup_search_def ex_sup_lprobs_def)
qed

text \<open>
  At step 0 nothing is suppressed: the item's constraint is not finished, its end
  token keeps the log-probability 0 and is returned as a candidate with that score.
\<close>

theorem step_keeps_eos_at_first_step_counterexample:
  "step phrase_ops ex_rank_search 0 ex_eos_lprobs None =
     Inr (ex_rank_search\<lparr>constraint_states := [[([3], 1), ([3], 0), ([3], 0)]], num_cands := 2\<rparr>,
          ex_eos_lprobs, [([Fin (-7), Fin 0], [3, 1], [0, 0])])
   \<and> \<not> state_finished phrase_ops (constraint_states ex_rank_search ! 0 ! 0)
   \<and> rows3 ex_eos_lprobs ! 0 ! search_eos ex_rank_search = Fin 0"
  by (simp add: stepper_eval ex_rank_search_def ex_eos_lprobs_def upt_3 upt_4 less_Suc_eq)

subsection \<open>The constrained adapter\<close>

lemma ex_cbs_fields:
  "search ex_cbs = ex_rank_search" "max_len ex_cbs = 127" "eos ex_cbs = 1"
  "cbs_scores ex_cbs = [replicate 128 (Fin 0)]" "tokens ex_cbs = [2 # replicate 128 0]"
  "cands_to_ignore ex_cbs = [False]" "cand_size ex_cbs = 2" "bbsz_offsets ex_cbs = 0"
  "cand_offsets ex_cbs = [0, 1]" "cbs_finalized ex_cbs = [[]]" "cbs_finished ex_cbs = [False]"
  "num_remaining_sent ex_cbs = 1" "normalize_scores ex_cbs = True" "len_penalty ex_cbs = 1"
  "match_source_len ex_cbs = False" "eos_mask ex_cbs = []" "has_constraint_states ex_cbs"
  by (simp_all add: ex_cbs_def ex_cbs_new_def search_init_constraints_def
      constrained_beam_search_init_def tree_search_init_def
      init_constraints_def ex_rank_search_def tree_search.defs constrained_beam_search.defs
      Let_def)

lemma ex_cbs_candidates_0:
  "\<exists>c. select_candidates phrase_ops ex_cbs (rows3 ex_rank_lprobs) 0 = Inr c"
  by (simp add: select_candidates_def ex_cbs_fields stepper_eval ex_rank_search_def
      ex_rank_lprobs_def ncols_def upt_3 upt_4 less_Suc_eq)




lemma finish_sentences_spec:
  assumes "finish_sentences n ml b fin seen (flags, nf) = Inr (flags', nf')"
  shows "length flags' = length flags
       \<and> (\<forall>s<length flags. flags' ! s
             = (flags ! s \<or> (s \<in> fst ` set seen \<and> (length (fin ! s) = b \<or> n = ml))))"
  using assms
proof (induction seen arbitrary: flags nf)
  case Nil
  then show ?case by simp
next
  case (Cons p seen)
  obtain sent u where p: "p = (sent, u)"
    by (cases p) auto
  have lt: "sent < length flags"
    using Cons.prems unfolding p by (simp split: if_splits)
  show ?case
  proof (cases "flags ! sent")
    case True
    then have "finish_sentences n ml b fin seen (flags, nf) = Inr (flags', nf')"
      using Cons.prems lt unfolding p by simp
    from Cons.IH [OF this] show ?thesis
      using True unfolding p by auto
  next
    case False
    obtain v where v: "is_finished n u ml (length (fin ! sent)) b = Inr v"
      using Cons.prems lt False unfolding p by (auto split: sum.splits)
    then have veq: "v = (length (fin ! sent) = b \<or> n = ml)"
      unfolding is_finished_def by (auto split: if_splits)
    define flags1 where "flags1 = (if v then flags[sent := True] else flags)"
    have "\<exists>nf1. finish_sentences n ml b fin seen (flags1, nf1) = Inr (flags', nf')"
      using Cons.prems lt False v unfolding p flags1_def by (cases v) auto
    then obtain nf1 where "finish_sentences n ml b fin seen (flags1, nf1) = Inr (flags', nf')"
      by blast
    from Cons.IH [OF this]
    have ih: "length flags' = length flags1"
      "\<forall>s<length flags1. flags' ! s
          = (flags1 ! s \<or> (s \<in> fst ` set seen \<and> (length (fin ! s) = b \<or> n = ml)))"
      by simp_all
    have l1: "length flags1 = length flags"
      by (simp add: flags1_def)
    have f1: "\<forall>s<length flags. flags1 ! s
                = (flags ! s \<or> (s = sent \<and> (length (fin ! s) = b \<or> n = ml)))"
    proof (intro allI impI)
      fix s assume s: "s < length flags"
      show "flags1 ! s = (flags ! s \<or> (s = sent \<and> (length (fin ! s) = b \<or> n = ml)))"
      proof (cases "s = sent")
        case True
        then show ?thesis
          using \<open>\<not> flags ! sent\<close> veq lt by (simp add: flags1_def)
      next
        case False
        then show ?thesis
          using s by (simp add: flags1_def)
      qed
    qed
    show ?thesis
      using ih l1 f1 unfolding p by auto
  qed
qed



end
